(* ===== verification/Kernel_Prelude.thy ===== *)
theory Kernel_Prelude
  imports Main "HOL-Library.Word"
begin

text \<open>
  Shared vocabulary of the development: the machine integers of the kernel (x86_64, so
  \<open>usize\<close> is 64 bits wide), the checked arithmetic of Rust's standard library, results
  (\<open>Result<T, E>\<close> is the sum type \<open>'e + 'a\<close>, \<open>Inl\<close> the error), little-endian byte
  fields, and the list lemmas every component uses.
\<close>

unbundle bit_operations_syntax

named_theorems word_nat \<open>comparisons and arithmetic on words, read as natural numbers\<close>
named_theorems result_simps \<open>case analysis of chained results\<close>

type_synonym u8 = "8 word"
type_synonym u16 = "16 word"
type_synonym u32 = "32 word"
type_synonym u64 = "64 word"
type_synonym usize = "64 word"
type_synonym byte = "8 word"

lemmas [word_nat] = word_le_nat_alt word_less_nat_alt word_unat_eq_iff

section \<open>Results\<close>

text \<open>The \<open>?\<close> operator of Rust: continue with the value, or return the error.\<close>

definition rbind :: "'e + 'a \<Rightarrow> ('a \<Rightarrow> 'e + 'b) \<Rightarrow> 'e + 'b" where
  "rbind m f = (case m of Inl e \<Rightarrow> Inl e | Inr x \<Rightarrow> f x)"

text \<open>\<open>Option::ok_or\<close>.\<close>

definition ok_or :: "'a option \<Rightarrow> 'e \<Rightarrow> 'e + 'a" where
  "ok_or x e = (case x of None \<Rightarrow> Inl e | Some v \<Rightarrow> Inr v)"

lemma rbind_simps [simp]:
  "rbind (Inl e) f = Inl e"
  "rbind (Inr x) f = f x"
  by (simp_all add: rbind_def)

lemma rbind_eq_Inr [result_simps]: "rbind m f = Inr y \<longleftrightarrow> (\<exists>x. m = Inr x \<and> f x = Inr y)"
  by (auto simp: rbind_def split: sum.splits)

lemma rbind_eq_Inl [result_simps]:
  "rbind m f = Inl e \<longleftrightarrow> m = Inl e \<or> (\<exists>x. m = Inr x \<and> f x = Inl e)"
  by (auto simp: rbind_def split: sum.splits)

lemma ok_or_simps [simp]:
  "ok_or None e = Inl e"
  "ok_or (Some v) e = Inr v"
  by (simp_all add: ok_or_def)

lemma ok_or_eq_Inr [result_simps]: "ok_or x e = Inr v \<longleftrightarrow> x = Some v"
  by (auto simp: ok_or_def split: option.splits)

lemma ok_or_eq_Inl [result_simps]: "ok_or x e = Inl e' \<longleftrightarrow> x = None \<and> e' = e"
  by (auto simp: ok_or_def split: option.splits)

text \<open>\<open>Result::map_err\<close>.\<close>

definition map_err :: "('e \<Rightarrow> 'f) \<Rightarrow> 'e + 'a \<Rightarrow> 'f + 'a" where
  "map_err f r = (case r of Inl e \<Rightarrow> Inl (f e) | Inr x \<Rightarrow> Inr x)"

lemma map_err_simps [simp]:
  "map_err f (Inl e) = Inl (f e)"
  "map_err f (Inr x) = Inr x"
  by (simp_all add: map_err_def)

lemma map_err_eq_Inr [result_simps]: "map_err f r = Inr x \<longleftrightarrow> r = Inr x"
  by (auto simp: map_err_def split: sum.splits)

section \<open>Fallible steps on a state\<close>

text \<open>
  A method that may fail after it changed the state returns the state and the result. \<open>sbind\<close>
  is the \<open>?\<close> operator between such methods, \<open>sget\<close> a method that only reads.
\<close>

definition sbind ::
  "('s \<Rightarrow> 's \<times> ('e + 'a)) \<Rightarrow> ('a \<Rightarrow> 's \<Rightarrow> 's \<times> ('e + 'b)) \<Rightarrow> 's \<Rightarrow> 's \<times> ('e + 'b)" where
  "sbind m f s = (case m s of (s', Inl e) \<Rightarrow> (s', Inl e) | (s', Inr x) \<Rightarrow> f x s')"

definition sget :: "('s \<Rightarrow> 'e + 'a) \<Rightarrow> 's \<Rightarrow> 's \<times> ('e + 'a)" where
  "sget f s = (s, f s)"

definition sret :: "'a \<Rightarrow> 's \<Rightarrow> 's \<times> ('e + 'a)" where
  "sret x s = (s, Inr x)"

definition sfail :: "'e \<Rightarrow> 's \<Rightarrow> 's \<times> ('e + 'a)" where
  "sfail e s = (s, Inl e)"

lemma sbind_ok: "m s = (s', Inr x) \<Longrightarrow> sbind m f s = f x s'"
  by (simp add: sbind_def)

lemma sbind_err: "m s = (s', Inl e) \<Longrightarrow> sbind m f s = (s', Inl e)"
  by (simp add: sbind_def)

lemma sbind_sget [simp]:
  "sbind (sget g) f s = (case g s of Inl e \<Rightarrow> (s, Inl e) | Inr x \<Rightarrow> f x s)"
  by (simp add: sbind_def sget_def)

lemma sret_apply [simp]: "sret x s = (s, Inr x)" by (simp add: sret_def)

lemma sfail_apply [simp]: "sfail e s = (s, Inl e)" by (simp add: sfail_def)

lemma sbind_eq_Inr [result_simps]:
  "sbind m f s = (t, Inr y) \<longleftrightarrow> (\<exists>s' x. m s = (s', Inr x) \<and> f x s' = (t, Inr y))"
  by (auto simp: sbind_def split: prod.splits sum.splits)

section \<open>Checked arithmetic on words\<close>

definition checked_add :: "'a::len word \<Rightarrow> 'a word \<Rightarrow> 'a word option" where
  "checked_add a b = (if unat a + unat b < 2 ^ LENGTH('a) then Some (a + b) else None)"

definition checked_sub :: "'a::len word \<Rightarrow> 'a word \<Rightarrow> 'a word option" where
  "checked_sub a b = (if b \<le> a then Some (a - b) else None)"

definition checked_mul :: "'a::len word \<Rightarrow> 'a word \<Rightarrow> 'a word option" where
  "checked_mul a b = (if unat a * unat b < 2 ^ LENGTH('a) then Some (a * b) else None)"

definition saturating_add :: "'a::len word \<Rightarrow> 'a word \<Rightarrow> 'a word" where
  "saturating_add a b = (case checked_add a b of Some c \<Rightarrow> c | None \<Rightarrow> - 1)"

text \<open>The same for a \<open>usize\<close> that is kept as a number below \<open>2\<^sup>6\<^sup>4\<close>.\<close>

definition usize_mul :: "nat \<Rightarrow> nat \<Rightarrow> nat option" where
  "usize_mul a b = (if a * b < 2 ^ 64 then Some (a * b) else None)"

definition usize_add :: "nat \<Rightarrow> nat \<Rightarrow> nat option" where
  "usize_add a b = (if a + b < 2 ^ 64 then Some (a + b) else None)"

text \<open>Plain \<open>+\<close> on such numbers in the release profile, which is what the scripts build: it wraps.\<close>

definition u64_add :: "nat \<Rightarrow> nat \<Rightarrow> nat" where
  "u64_add a b = (a + b) mod 2 ^ 64"

lemma u64_add_small: "a + b < 2 ^ 64 \<Longrightarrow> u64_add a b = a + b"
  by (simp add: u64_add_def)

text \<open>\<open>is_power_of_two\<close>, by its documentation: the value is \<open>2 ^ k\<close> for some \<open>k\<close>.\<close>

definition is_power_of_two :: "'a::len word \<Rightarrow> bool" where
  "is_power_of_two w = list_ex (\<lambda>k. w = 2 ^ k) [0..<LENGTH('a)]"

lemma unat_below: "unat (w :: u64) < 2 ^ 64"
  using unsigned_less [of w] by simp

lemma unat_add_small:
  fixes a b :: "'a::len word"
  shows "unat a + unat b < 2 ^ LENGTH('a) \<Longrightarrow> unat (a + b) = unat a + unat b"
  by (simp add: unat_word_ariths)

lemma checked_add_eq_Some [word_nat]:
  "checked_add a b = Some c \<longleftrightarrow> unat c = unat a + unat b"
proof
  assume "checked_add a b = Some c"
  then show "unat c = unat a + unat b"
    by (auto simp: checked_add_def unat_add_small split: if_splits)
next
  assume c: "unat c = unat a + unat b"
  then have lt: "unat a + unat b < 2 ^ LENGTH('a)"
    by (metis unsigned_less)
  then have "c = a + b"
    using c by (simp add: word_unat_eq_iff unat_add_small)
  with lt show "checked_add a b = Some c"
    by (simp add: checked_add_def)
qed

lemma checked_add_eq_None [word_nat]:
  fixes a b :: "'a::len word"
  shows "checked_add a b = None \<longleftrightarrow> 2 ^ LENGTH('a) \<le> unat a + unat b"
  by (auto simp: checked_add_def not_less)

lemma checked_sub_eq_Some [word_nat]:
  "checked_sub a b = Some c \<longleftrightarrow> unat b \<le> unat a \<and> unat c = unat a - unat b"
  by (auto simp: checked_sub_def word_le_nat_alt unat_sub word_unat_eq_iff)

lemma checked_sub_eq_None [word_nat]: "checked_sub a b = None \<longleftrightarrow> unat a < unat b"
  by (auto simp: checked_sub_def word_le_nat_alt)

lemma checked_mul_eq_Some [word_nat]:
  "checked_mul a b = Some c \<longleftrightarrow> unat c = unat a * unat b"
proof
  assume "checked_mul a b = Some c"
  then show "unat c = unat a * unat b"
    by (auto simp: checked_mul_def unat_word_ariths split: if_splits)
next
  assume c: "unat c = unat a * unat b"
  then have lt: "unat a * unat b < 2 ^ LENGTH('a)"
    by (metis unsigned_less)
  then have "c = a * b"
    using c by (simp add: word_unat_eq_iff unat_word_ariths)
  with lt show "checked_mul a b = Some c"
    by (simp add: checked_mul_def)
qed

lemma checked_mul_eq_None [word_nat]:
  fixes a b :: "'a::len word"
  shows "checked_mul a b = None \<longleftrightarrow> 2 ^ LENGTH('a) \<le> unat a * unat b"
  by (auto simp: checked_mul_def not_less)

lemma is_power_of_two_iff:
  fixes w :: "'a::len word"
  shows "is_power_of_two w \<longleftrightarrow> (\<exists>k < LENGTH('a). w = 2 ^ k)"
  by (auto simp: is_power_of_two_def list_ex_iff)

lemma unat_two_power:
  assumes "k < LENGTH('a::len)"
  shows "unat (2 ^ k :: 'a word) = 2 ^ k"
proof -
  have "unat (push_bit k 1 :: 'a word) = take_bit LENGTH('a) (push_bit k 1)"
    by (simp only: unsigned_push_bit_eq unsigned_1)
  then show ?thesis
    using assms by (simp add: push_bit_of_1 take_bit_eq_mod)
qed

lemma is_power_of_two_pos: "is_power_of_two w \<Longrightarrow> 0 < unat w"
  by (auto simp: is_power_of_two_iff unat_two_power)

lemma is_power_of_two_scale:
  fixes a b :: u64
  assumes "is_power_of_two a" and b: "unat b = unat a * 2 ^ j"
  shows "is_power_of_two b"
proof -
  obtain k where k: "k < 64" "a = 2 ^ k" using assms(1) by (auto simp: is_power_of_two_iff)
  have "unat a = 2 ^ k" using unat_two_power [of k, where 'a = 64] k by simp
  then have ub: "unat b = 2 ^ (k + j)" unfolding b power_add by simp
  have lt: "(2::nat) ^ (k + j) < 2 ^ 64" using unat_below [of b] unfolding ub .
  have kj: "k + j < 64" by (rule power_less_imp_less_exp [OF _ lt]) simp
  have "k + j < LENGTH(64)" using kj by simp
  then have "unat b = unat (2 ^ (k + j) :: u64)" unfolding ub by (rule unat_two_power [symmetric])
  then have "b = 2 ^ (k + j)" unfolding word_unat_eq_iff .
  then show ?thesis unfolding is_power_of_two_iff using kj by (intro exI [of _ "k + j"]) simp
qed

lemma flag_bit:
  fixes w :: "'a::len word"
  assumes "k < LENGTH('a)"
  shows "(w AND 2 ^ k \<noteq> 0) \<longleftrightarrow> odd (unat w div 2 ^ k)"
proof -
  have "(w AND 2 ^ k \<noteq> 0) \<longleftrightarrow> bit w k"
    by (simp add: bit_iff_and_push_bit_not_eq_0 push_bit_eq_mult)
  also have "\<dots> \<longleftrightarrow> bit (unat w) k"
    by (simp add: bit_unsigned_iff assms)
  finally show ?thesis by (simp add: bit_iff_odd)
qed

lemma is_power_of_two_of_nat:
  assumes "n < 2 ^ 64"
  shows "is_power_of_two (of_nat n :: u64) \<longleftrightarrow> (\<exists>k. n = 2 ^ k)"
proof
  assume "is_power_of_two (of_nat n :: u64)"
  then obtain k where k: "k < 64" "(of_nat n :: u64) = 2 ^ k" by (auto simp: is_power_of_two_iff)
  have "unat (of_nat n :: u64) = 2 ^ k" using unat_two_power [of k, where 'a = 64] k by simp
  then show "\<exists>k. n = 2 ^ k" using assms by (auto simp: unat_of_nat)
next
  assume "\<exists>k. n = 2 ^ k"
  then obtain k where k: "n = 2 ^ k" by blast
  then have "k < 64" using assms power_less_imp_less_exp [of "2::nat" k 64] by simp
  then show "is_power_of_two (of_nat n :: u64)"
    unfolding is_power_of_two_iff k by (intro exI [of _ k]) simp
qed

lemma is_power_of_two_numerals [simp]:
  "is_power_of_two (1 :: u64)" "is_power_of_two (2 :: u64)"
  by (simp_all add: is_power_of_two_def list_ex_iff) (auto intro: bexI [of _ 0] bexI [of _ 1])

section \<open>Alignment\<close>

text \<open>
  The two rounding helpers every allocator of the kernel has
  (\<open>align_up\<close> in \<open>physical.rs\<close>, \<open>heap.rs\<close> and \<open>process.rs\<close>, \<open>align_down\<close> in
  \<open>physical.rs\<close>). They clear the low bits with a mask, so they round only when the
  alignment is a power of two.
\<close>

definition align_up :: "u64 \<Rightarrow> u64 \<Rightarrow> u64 option" where
  "align_up v a = map_option (\<lambda>rounded. rounded AND NOT (a - 1)) (checked_add v (a - 1))"

definition align_down :: "u64 \<Rightarrow> u64 \<Rightarrow> u64" where
  "align_down v a = v AND NOT (a - 1)"

lemma unat_and_not_mask:
  fixes w :: "'a::len word"
  assumes "k < LENGTH('a)"
  shows "unat (w AND NOT (2 ^ k - 1)) = unat w div 2 ^ k * 2 ^ k"
proof -
  have "w AND NOT (2 ^ k - 1) = push_bit k (drop_bit k w)"
    by (rule bit_word_eqI)
      (auto simp: mask_eq_exp_minus_1 [symmetric] bit_simps)
  then have "unat (w AND NOT (2 ^ k - 1)) = take_bit LENGTH('a) (push_bit k (drop_bit k (unat w)))"
    by (simp only: unsigned_push_bit_eq unat_drop_bit_eq)
  moreover have "unat w div 2 ^ k * 2 ^ k < 2 ^ LENGTH('a)"
    by (rule le_less_trans [OF div_times_less_eq_dividend unsigned_less])
  ultimately show ?thesis
    by (simp only: push_bit_eq_mult drop_bit_eq_div take_bit_eq_mod mod_less)
qed

lemma unat_and_not_pow2:
  fixes w a :: "'a::len word"
  assumes "is_power_of_two a"
  shows "unat (w AND NOT (a - 1)) = unat w div unat a * unat a"
  using assms by (auto simp: is_power_of_two_iff unat_and_not_mask unat_two_power)

lemma unat_align_down [word_nat]:
  "is_power_of_two a \<Longrightarrow> unat (align_down v a) = unat v div unat a * unat a"
  by (simp add: align_down_def unat_and_not_pow2)

definition round_up :: "nat \<Rightarrow> nat \<Rightarrow> nat" where
  "round_up v a = (v + (a - 1)) div a * a"

lemma round_up_dvd: "a dvd round_up v a"
  by (simp add: round_up_def)

lemma round_up_ge: "0 < a \<Longrightarrow> v \<le> round_up v a"
proof -
  assume "0 < a"
  then have "v + (a - 1) < (v + (a - 1)) div a * a + a"
    by (metis add.commute dividend_less_div_times)
  then show ?thesis
    by (simp add: round_up_def)
qed

lemma round_up_least:
  assumes "a dvd m" and "v \<le> m" and "0 < a"
  shows "round_up v a \<le> m"
proof -
  from assms(1) obtain q where q: "m = q * a" by (auto simp: dvd_def mult.commute)
  have "(v + (a - 1)) div a \<le> (q * a + (a - 1)) div a"
    using assms(2) q by (intro div_le_mono) simp
  also have "\<dots> = q"
    using assms(3) by (subst div_mult_self3) simp_all
  finally show ?thesis
    unfolding round_up_def q by (rule mult_le_mono1)
qed

lemma round_up_id: "a dvd v \<Longrightarrow> 0 < a \<Longrightarrow> round_up v a = v"
  by (intro antisym round_up_ge round_up_least) simp_all

lemma round_up_lt:
  assumes "0 < a"
  shows "round_up v a < v + a"
proof -
  have "round_up v a \<le> v + (a - 1)"
    unfolding round_up_def by (rule div_times_less_eq_dividend)
  with assms show ?thesis by simp
qed

lemma unat_minus_1_pow2: "is_power_of_two a \<Longrightarrow> unat (a - 1) = unat a - 1"
  by (rule unat_minus_one) (auto dest: is_power_of_two_pos)

lemma align_up_eq_Some:
  assumes "is_power_of_two a"
  shows "align_up v a = Some r \<longleftrightarrow>
    unat v + (unat a - 1) < 2 ^ 64 \<and> unat r = round_up (unat v) (unat a)"
proof (cases "unat v + (unat a - 1) < 2 ^ 64")
  case True
  then have "unat (v + (a - 1)) = unat v + (unat a - 1)"
    using assms by (subst unat_add_small) (simp_all add: unat_minus_1_pow2)
  then have "unat ((v + (a - 1)) AND NOT (a - 1)) = round_up (unat v) (unat a)"
    using assms by (simp only: unat_and_not_pow2 round_up_def)
  with True assms show ?thesis
    by (auto simp: align_up_def checked_add_def unat_minus_1_pow2 word_unat_eq_iff
        simp del: One_nat_def)
next
  case False
  with assms show ?thesis
    by (simp add: align_up_def checked_add_def unat_minus_1_pow2)
qed

lemma align_up_eq_None:
  assumes "is_power_of_two a"
  shows "align_up v a = None \<longleftrightarrow> 2 ^ 64 \<le> unat v + (unat a - 1)"
  using assms by (auto simp: align_up_def checked_add_def unat_minus_1_pow2)

end
