(* ===== verification/Free_Ranges.thy ===== *)
theory Free_Ranges
  imports Kernel_Prelude
begin

text \<open>
  The free-range lists of the two allocators. \<open>PhysicalMemory\<close> (\<open>physical.rs\<close>) and
  the kernel heap (\<open>heap.rs\<close>) both keep a sorted array of half-open address ranges and
  split or merge entries in place. This theory holds what they share: the range type,
  the array loops, the meaning of a range list as a set of addresses, and the effect of
  carving a block out of a list and of merging one back.
\<close>

section \<open>Ranges\<close>

record region =
  r_start :: u64
  r_end :: u64

definition default_region :: region where
  "default_region = \<lparr>r_start = 0, r_end = 0\<rparr>"

section \<open>The shifting loops over the arrays\<close>

text \<open>\<open>for slot in (index..len).rev() { a[slot + 1] = a[slot] }\<close>\<close>

definition shift_up :: "'a list \<Rightarrow> nat \<Rightarrow> nat \<Rightarrow> 'a list" where
  "shift_up arr index len = fold (\<lambda>slot a. a[Suc slot := a ! slot]) (rev [index..<len]) arr"

text \<open>\<open>for slot in index..len - 1 { a[slot] = a[slot + 1] }\<close>\<close>

definition shift_down :: "'a list \<Rightarrow> nat \<Rightarrow> nat \<Rightarrow> 'a list" where
  "shift_down arr index len = fold (\<lambda>slot a. a[slot := a ! Suc slot]) [index..<len - 1] arr"

lemma length_shift_up [simp]: "length (shift_up arr index len) = length arr"
proof -
  have "length (fold (\<lambda>slot a. a[Suc slot := a ! slot]) xs arr) = length arr" for xs
    by (induction xs arbitrary: arr) simp_all
  then show ?thesis by (simp add: shift_up_def)
qed

lemma length_shift_down [simp]: "length (shift_down arr index len) = length arr"
proof -
  have "length (fold (\<lambda>slot a. a[slot := a ! Suc slot]) xs arr) = length arr" for xs
    by (induction xs arbitrary: arr) simp_all
  then show ?thesis by (simp add: shift_down_def)
qed

lemma nth_shift_up:
  assumes "index \<le> len" and "len < length arr"
  shows "shift_up arr index len ! i =
    (if index < i \<and> i \<le> len then arr ! (i - 1) else arr ! i)"
  using assms
proof (induction len arbitrary: arr)
  case 0
  then show ?case by (simp add: shift_up_def)
next
  case (Suc len)
  show ?case
  proof (cases "index \<le> len")
    case True
    let ?a = "arr[Suc len := arr ! len]"
    have "shift_up arr index (Suc len) = shift_up ?a index len"
      using True by (simp add: shift_up_def)
    moreover have "shift_up ?a index len ! i =
        (if index < i \<and> i \<le> len then ?a ! (i - 1) else ?a ! i)"
      using Suc.prems True by (intro Suc.IH) simp_all
    ultimately show ?thesis
      using Suc.prems True by (cases "i = Suc len") (auto simp: le_Suc_eq nth_list_update)
  next
    case False
    with Suc.prems have "index = Suc len" by simp
    with Suc.prems show ?thesis by (auto simp: shift_up_def)
  qed
qed

lemma nth_shift_down:
  assumes "index < len" and "len \<le> length arr"
  shows "shift_down arr index len ! i =
    (if index \<le> i \<and> i < len - 1 then arr ! Suc i else arr ! i)"
proof -
  have "fold (\<lambda>slot a. a[slot := a ! Suc slot]) [index..<m] arr ! i =
      (if index \<le> i \<and> i < m then arr ! Suc i else arr ! i)"
    if "index \<le> m" "m < length arr" for m i
    using that
  proof (induction m arbitrary: i)
    case 0
    then show ?case by simp
  next
    case (Suc m)
    show ?case
    proof (cases "index \<le> m")
      case True
      let ?b = "fold (\<lambda>slot a. a[slot := a ! Suc slot]) [index..<m] arr"
      have len: "length ?b = length arr"
        using length_shift_down [of arr index "Suc m"] by (simp add: shift_down_def)
      have "fold (\<lambda>slot a. a[slot := a ! Suc slot]) [index..<Suc m] arr = ?b[m := ?b ! Suc m]"
        using True by simp
      moreover have "?b ! i = (if index \<le> i \<and> i < m then arr ! Suc i else arr ! i)" for i
        using Suc.prems True by (intro Suc.IH) simp_all
      ultimately show ?thesis
        using Suc.prems True len by (cases "i = m") (simp_all add: less_Suc_eq)
    next
      case False
      with Suc.prems have "index = Suc m" by simp
      then show ?thesis by auto
    qed
  qed
  from this [of "len - 1"] assms show ?thesis
    by (simp add: shift_down_def)
qed

lemma take_insert_shift_up:
  assumes "index \<le> len" and "len < length arr"
  shows "take (Suc len) ((shift_up arr index len)[index := x]) =
    take index (take len arr) @ x # drop index (take len arr)"
proof (rule nth_equalityI)
  fix i assume "i < length (take (Suc len) ((shift_up arr index len)[index := x]))"
  with assms show "take (Suc len) ((shift_up arr index len)[index := x]) ! i =
      (take index (take len arr) @ x # drop index (take len arr)) ! i"
    by (auto simp: nth_append nth_list_update nth_shift_up nth_Cons')
qed (use assms in simp)

lemma take_remove_shift_down:
  assumes "index < len" and "len \<le> length arr"
  shows "take (len - 1) (shift_down arr index len) =
    take index (take len arr) @ drop (Suc index) (take len arr)"
proof (rule nth_equalityI)
  fix i assume "i < length (take (len - 1) (shift_down arr index len))"
  with assms show "take (len - 1) (shift_down arr index len) ! i =
      (take index (take len arr) @ drop (Suc index) (take len arr)) ! i"
    by (auto simp: nth_append nth_shift_down)
qed (use assms in simp)

lemma last_take_nth:
  assumes "0 < n" and "n \<le> length xs"
  shows "last (take n xs) = xs ! (n - 1)"
proof -
  have "take n xs \<noteq> []" "length (take n xs) = n" using assms by auto
  then show ?thesis using assms by (simp add: last_conv_nth)
qed

lemma take_update_split:
  assumes "i < n" and "n \<le> length xs"
  shows "take n (xs[i := v]) = take i (take n xs) @ v # drop (Suc i) (take n xs)"
proof -
  have "take n (xs[i := v]) = (take n xs)[i := v]"
    by (simp add: take_update_swap)
  with assms show ?thesis
    by (simp add: upd_conv_take_nth_drop del: take_take)
qed

section \<open>Meaning of a range list\<close>

abbreviation lo :: "region \<Rightarrow> nat" where
  "lo r \<equiv> unat (r_start r)"

abbreviation hi :: "region \<Rightarrow> nat" where
  "hi r \<equiv> unat (r_end r)"

definition addrs :: "region list \<Rightarrow> nat set" where
  "addrs rs = (\<Union>r\<in>set rs. {lo r..<hi r})"

definition bytes :: "region list \<Rightarrow> nat" where
  "bytes rs = sum_list (map (\<lambda>r. hi r - lo r) rs)"

text \<open>
  Well-formed lists: every range is non-empty, and each ends strictly before the next
  starts, so that adjacent free memory is always one range.
\<close>

definition wf_ranges :: "region list \<Rightarrow> bool" where
  "wf_ranges rs \<longleftrightarrow> (\<forall>r\<in>set rs. lo r < hi r) \<and> sorted_wrt (\<lambda>r q. hi r < lo q) rs"

lemma addrs_simps [simp]:
  "addrs [] = {}"
  "addrs (r # rs) = {lo r..<hi r} \<union> addrs rs"
  "addrs (xs @ ys) = addrs xs \<union> addrs ys"
  by (auto simp: addrs_def)

lemma bytes_simps [simp]:
  "bytes [] = 0"
  "bytes (r # rs) = hi r - lo r + bytes rs"
  "bytes (xs @ ys) = bytes xs + bytes ys"
  by (auto simp: bytes_def)

lemma wf_ranges_simps [simp]:
  "wf_ranges []"
  "wf_ranges (r # rs) \<longleftrightarrow> lo r < hi r \<and> (\<forall>q\<in>set rs. hi r < lo q) \<and> wf_ranges rs"
  by (auto simp: wf_ranges_def)

lemma wf_ranges_append:
  "wf_ranges (xs @ ys) \<longleftrightarrow>
     wf_ranges xs \<and> wf_ranges ys \<and> (\<forall>r\<in>set xs. \<forall>q\<in>set ys. hi r < lo q)"
  by (auto simp: wf_ranges_def sorted_wrt_append)

lemma wf_ranges_less: "wf_ranges rs \<Longrightarrow> r \<in> set rs \<Longrightarrow> lo r < hi r"
  by (simp add: wf_ranges_def)

lemma wf_ranges_sorted:
  assumes "wf_ranges rs" and "i \<le> j" and "j < length rs"
  shows "lo (rs ! i) \<le> lo (rs ! j)"
proof (cases "i = j")
  case False
  then have "hi (rs ! i) < lo (rs ! j)"
    using assms by (simp add: wf_ranges_def sorted_wrt_iff_nth_less)
  moreover have "lo (rs ! i) < hi (rs ! i)"
    using assms by (intro wf_ranges_less [OF assms(1)]) simp
  ultimately show ?thesis by simp
qed simp

lemma finite_addrs [simp]: "finite (addrs rs)"
  by (simp add: addrs_def)

lemma addrs_below: "a \<in> addrs rs \<Longrightarrow> a < 2 ^ 64"
proof -
  assume "a \<in> addrs rs"
  then obtain r where "a < hi r" by (auto simp: addrs_def)
  also have "hi r < 2 ^ 64" using unsigned_less [of "r_end r"] by simp
  finally show ?thesis .
qed

lemma addrs_after: "\<forall>q\<in>set rs. n < lo q \<Longrightarrow> a \<in> addrs rs \<Longrightarrow> n < a"
  by (auto simp: addrs_def)

lemma wf_ranges_disjoint:
  assumes "wf_ranges (r # rs)"
  shows "{lo r..<hi r} \<inter> addrs rs = {}"
proof -
  have "hi r < a" if "a \<in> addrs rs" for a
    using assms that by (intro addrs_after [of rs]) simp_all
  then show ?thesis by force
qed

lemma card_addrs: "wf_ranges rs \<Longrightarrow> card (addrs rs) = bytes rs"
proof (induction rs)
  case (Cons r rs)
  have "card (addrs (r # rs)) = card {lo r..<hi r} + card (addrs rs)"
    using wf_ranges_disjoint [OF Cons.prems] by (simp add: card_Un_disjoint)
  with Cons show ?case by simp
qed simp

lemma bytes_mono:
  "wf_ranges rs \<Longrightarrow> wf_ranges qs \<Longrightarrow> addrs rs \<subseteq> addrs qs \<Longrightarrow> bytes rs \<le> bytes qs"
  by (metis card_addrs card_mono finite_addrs)

text \<open>Address 0 is never managed, so the byte counters fit in 64 bits.\<close>

lemma bytes_less:
  assumes "wf_ranges rs" and "0 \<notin> addrs rs"
  shows "bytes rs < 2 ^ 64"
proof -
  define M :: nat where "M = 2 ^ 64"
  have "0 < M" by (simp add: M_def)
  have "addrs rs \<subseteq> {0<..<M}"
  proof
    fix a assume a: "a \<in> addrs rs"
    with assms(2) have "a \<noteq> 0" by metis
    with addrs_below [OF a] show "a \<in> {0<..<M}" by (simp add: M_def)
  qed
  then have "card (addrs rs) \<le> card {0<..<M}"
    by (intro card_mono) simp_all
  then show ?thesis
    using card_addrs [OF assms(1)] \<open>0 < M\<close> by (simp add: M_def)
qed

subsection \<open>A well-formed list is determined by its addresses\<close>

lemma wf_ranges_first:
  assumes "wf_ranges (r # rs)"
  shows "lo r \<in> addrs (r # rs)"
    and "a \<in> addrs (r # rs) \<Longrightarrow> lo r \<le> a"
    and "hi r \<notin> addrs (r # rs)"
    and "lo r \<le> a \<Longrightarrow> a < hi r \<Longrightarrow> a \<in> addrs (r # rs)"
proof -
  have after: "hi r < a" if "a \<in> addrs rs" for a
    using assms that by (intro addrs_after [of rs]) simp_all
  show "lo r \<in> addrs (r # rs)" using assms by simp
  show "a \<in> addrs (r # rs) \<Longrightarrow> lo r \<le> a" using after assms by fastforce
  show "hi r \<notin> addrs (r # rs)" using after by fastforce
  show "lo r \<le> a \<Longrightarrow> a < hi r \<Longrightarrow> a \<in> addrs (r # rs)" by simp
qed

lemma wf_ranges_first_eq:
  assumes r: "wf_ranges (r # rs)" and q: "wf_ranges (q # qs)"
    and eq: "addrs (r # rs) = addrs (q # qs)"
  shows "r = q"
proof -
  have starts: "lo r = lo q"
    using wf_ranges_first(1,2) [OF r] wf_ranges_first(1,2) [OF q] eq
    by (metis dual_order.antisym)
  have "lo r < hi r" "lo q < hi q" using r q by simp_all
  have "hi q \<le> hi r"
    using wf_ranges_first(3) [OF r] wf_ranges_first(4) [OF q, of "hi r"] \<open>lo r < hi r\<close> starts eq
    by (metis less_imp_le not_le)
  moreover have "hi r \<le> hi q"
    using wf_ranges_first(3) [OF q] wf_ranges_first(4) [OF r, of "hi q"] \<open>lo q < hi q\<close> starts eq
    by (metis less_imp_le not_le)
  ultimately have "hi r = hi q" by simp
  with starts show ?thesis
    by (simp add: word_unat_eq_iff)
qed

lemma wf_ranges_unique:
  assumes "wf_ranges rs" and "wf_ranges qs" and "addrs rs = addrs qs"
  shows "rs = qs"
  using assms
proof (induction rs arbitrary: qs)
  case Nil
  then show ?case
    by (cases qs) (auto dest: wf_ranges_first(1))
next
  case (Cons r rs)
  from Cons.prems(3) obtain q qs' where qs: "qs = q # qs'"
    using wf_ranges_first(1) [OF Cons.prems(1)] by (cases qs) auto
  have r: "r = q"
    using Cons.prems qs by (metis wf_ranges_first_eq)
  have "addrs rs = addrs (r # rs) - {lo r..<hi r}"
    using wf_ranges_disjoint [OF Cons.prems(1)] by auto
  also have "\<dots> = addrs qs'"
    using wf_ranges_disjoint [of q qs'] Cons.prems(2,3) qs r by auto
  finally have "addrs rs = addrs qs'" .
  with Cons.IH [of qs'] Cons.prems qs r show ?case by simp
qed

section \<open>Searching the sorted array\<close>

text \<open>\<open>while index < len && a[index].start < start { index += 1 }\<close>\<close>

function find_slot :: "region list \<Rightarrow> nat \<Rightarrow> u64 \<Rightarrow> nat \<Rightarrow> nat" where
  "find_slot arr len s index =
     (if index < len \<and> r_start (arr ! index) < s then find_slot arr len s (Suc index) else index)"
  by pat_completeness auto
termination
  by (relation "measure (\<lambda>(arr, len, s, index). len - index)") auto

declare find_slot.simps [simp del]

lemma find_slot_correct:
  assumes "index \<le> len" and "\<forall>i < index. lo (arr ! i) < unat s"
  shows "find_slot arr len s index \<le> len \<and>
    (\<forall>i < find_slot arr len s index. lo (arr ! i) < unat s) \<and>
    (find_slot arr len s index < len \<longrightarrow> unat s \<le> lo (arr ! find_slot arr len s index))"
  using assms
proof (induction arr len s index rule: find_slot.induct)
  case (1 arr len s index)
  show ?case
  proof (cases "index < len \<and> r_start (arr ! index) < s")
    case True
    then have "find_slot arr len s index = find_slot arr len s (Suc index)"
      by (subst find_slot.simps) simp
    moreover have "\<forall>i < Suc index. lo (arr ! i) < unat s"
      using "1.prems"(2) True by (auto simp: less_Suc_eq word_nat)
    ultimately show ?thesis
      using "1.IH" True by simp
  next
    case False
    then have "find_slot arr len s index = index"
      by (subst find_slot.simps) auto
    with False "1.prems" show ?thesis
      by (auto simp: word_nat)
  qed
qed

text \<open>The slot splits the ranges into those that start below \<open>s\<close> and the others.\<close>

lemma find_slot_sides:
  assumes wf: "wf_ranges (take len arr)" and len: "len \<le> length arr"
    and i: "i = find_slot arr len s 0"
  shows "i \<le> len"
    and "\<forall>x\<in>set (take i (take len arr)). lo x < unat s"
    and "\<forall>y\<in>set (drop i (take len arr)). unat s \<le> lo y"
    and "wf_ranges (take i (take len arr))" and "wf_ranges (drop i (take len arr))"
    and "0 < i \<Longrightarrow> take i (take len arr) = take (i - 1) arr @ [arr ! (i - 1)]"
    and "i < len \<Longrightarrow> drop i (take len arr) = arr ! i # drop (Suc i) (take len arr)"
proof -
  have slot: "i \<le> len" "\<forall>j < i. lo (arr ! j) < unat s" "i < len \<Longrightarrow> unat s \<le> lo (arr ! i)"
    using find_slot_correct [of 0 len arr s] by (simp_all add: i)
  show "i \<le> len" by (rule slot(1))
  show "\<forall>x\<in>set (take i (take len arr)). lo x < unat s"
    using slot(1,2) len by (auto simp: in_set_conv_nth)
  show "wf_ranges (take i (take len arr))" and parts: "wf_ranges (drop i (take len arr))"
    using wf by (metis append_take_drop_id wf_ranges_append)+
  show "0 < i \<Longrightarrow> take i (take len arr) = take (i - 1) arr @ [arr ! (i - 1)]"
    using slot(1) len take_Suc_conv_app_nth [of "i - 1" arr] by simp
  show d: "i < len \<Longrightarrow> drop i (take len arr) = arr ! i # drop (Suc i) (take len arr)"
    using len Cons_nth_drop_Suc [of i "take len arr"] by simp
  show "\<forall>y\<in>set (drop i (take len arr)). unat s \<le> lo y"
  proof (cases "i < len")
    case True
    then show ?thesis
      using slot(3) parts wf_ranges_less [OF parts, of "arr ! i"] by (auto simp: d)
  qed (use slot(1) in simp)
qed

text \<open>The neighbour tests around the slot decide whether the block meets a range.\<close>

lemma find_slot_split:
  assumes wf: "wf_ranges (take len arr)" and len: "len \<le> length arr"
    and i: "i = find_slot arr len s 0" and se: "unat s < unat e"
  shows "{unat s..<unat e} \<inter> addrs (take len arr) = {} \<Longrightarrow>
      (\<forall>x\<in>set (take i (take len arr)). hi x \<le> unat s) \<and>
      (\<forall>y\<in>set (drop i (take len arr)). unat e \<le> lo y)" (is "?disjoint \<Longrightarrow> ?sep")
    and "(0 < i \<and> s < r_end (arr ! (i - 1)) \<or> i < len \<and> r_start (arr ! i) < e) \<longleftrightarrow>
      {unat s..<unat e} \<inter> addrs (take len arr) \<noteq> {}" (is "?near \<longleftrightarrow> \<not> ?disjoint")
proof -
  let ?xs = "take i (take len arr)" and ?ys = "drop i (take len arr)"
  note S = find_slot_sides [OF wf len i]
  have addrs: "addrs (take len arr) = addrs ?xs \<union> addrs ?ys"
    by (metis addrs_simps(3) append_take_drop_id)
  show sep: ?sep if ?disjoint
  proof (intro conjI ballI leI notI)
    fix x assume "x \<in> set ?xs" "unat s < hi x"
    then have "unat s \<in> addrs ?xs" using S(2) by (force simp: addrs_def)
    with that se show False by (auto simp: addrs)
  next
    fix y assume "y \<in> set ?ys" "lo y < unat e"
    moreover from this have "lo y \<in> addrs ?ys" using wf_ranges_less [OF S(5)]
      by (force simp: addrs_def)
    moreover have "unat s \<le> lo y" using S(3) \<open>y \<in> set ?ys\<close> by blast
    ultimately show False using that unfolding addrs by (metis Un_iff atLeastLessThan_iff disjoint_iff)
  qed
  have disjoint: ?disjoint if ?sep
  proof (rule equals0I)
    fix a assume "a \<in> {unat s..<unat e} \<inter> addrs (take len arr)"
    then have a: "unat s \<le> a" "a < unat e" "a \<in> addrs ?xs \<or> a \<in> addrs ?ys"
      unfolding addrs by auto
    from a(3) show False using that a(1,2) by (fastforce simp only: addrs_def UN_iff atLeastLessThan_iff)
  qed
  have "\<not> ?near \<longleftrightarrow> ?sep"
  proof
    assume n: "\<not> ?near"
    have "hi x \<le> unat s" if x: "x \<in> set ?xs" for x
    proof -
      have i0: "0 < i" using x by (cases i) auto
      then have "hi (arr ! (i - 1)) \<le> unat s" using n by (simp add: word_nat)
      moreover have "lo (arr ! (i - 1)) < unat s" using S(2,6) i0 by simp
      ultimately show ?thesis using x S(4) S(6) [OF i0] by (auto simp: wf_ranges_append)
    qed
    moreover have "unat e \<le> lo y" if y: "y \<in> set ?ys" for y
    proof -
      have il: "i < len" using y by (cases "i < len") auto
      then have "unat e \<le> lo (arr ! i)" using n by (simp add: word_nat)
      then show ?thesis
        using y S(5) S(7) [OF il] wf_ranges_less [OF S(5), of "arr ! i"] by auto
    qed
    ultimately show ?sep by blast
  next
    assume ?sep
    then show "\<not> ?near" using S(6,7) by (auto simp: word_nat)
  qed
  with sep disjoint show "?near \<longleftrightarrow> \<not> ?disjoint" by blast
qed

section \<open>Carving a block out of a range\<close>

text \<open>
  The effect of an allocation on the list: range \<open>i\<close> is replaced by what is left of it
  on either side of the block \<open>[s, e)\<close>.
\<close>

definition left_piece :: "region \<Rightarrow> u64 \<Rightarrow> region list" where
  "left_piece r s = (if r_start r < s then [r\<lparr>r_end := s\<rparr>] else [])"

definition right_piece :: "region \<Rightarrow> u64 \<Rightarrow> region list" where
  "right_piece r e = (if e < r_end r then [r\<lparr>r_start := e\<rparr>] else [])"

definition carve :: "region list \<Rightarrow> nat \<Rightarrow> u64 \<Rightarrow> u64 \<Rightarrow> region list" where
  "carve rs i s e =
     take i rs @ (left_piece (rs ! i) s @ right_piece (rs ! i) e) @ drop (Suc i) rs"

definition fits :: "region \<Rightarrow> u64 \<Rightarrow> u64 \<Rightarrow> bool" where
  "fits r s e \<longleftrightarrow> lo r \<le> unat s \<and> unat s < unat e \<and> unat e \<le> hi r"

lemma carve_effect:
  assumes "wf_ranges (xs @ r # ys)" and "fits r s e"
  defines "new \<equiv> xs @ (left_piece r s @ right_piece r e) @ ys"
  shows "wf_ranges new"
    and "addrs new = addrs (xs @ r # ys) - {unat s..<unat e}"
    and "bytes new + (unat e - unat s) = bytes (xs @ r # ys)"
proof -
  have wf: "wf_ranges xs" "wf_ranges ys" "lo r < hi r"
    "\<forall>x\<in>set xs. hi x < lo r" "\<forall>y\<in>set ys. hi r < lo y"
    "\<forall>x\<in>set xs. \<forall>y\<in>set ys. hi x < lo y"
    using assms(1) by (auto simp: wf_ranges_append)
  show "wf_ranges new"
    using wf assms(2)
    by (auto simp: new_def wf_ranges_append left_piece_def right_piece_def fits_def word_nat
        intro: less_trans less_le_trans)
  have after: "hi r < a" if "a \<in> addrs ys" for a
    using addrs_after [OF wf(5) that] .
  have before: "a < lo r" if "a \<in> addrs xs" for a
    using wf(4) that by (auto simp: addrs_def intro: less_trans)
  have pieces: "addrs (left_piece r s @ right_piece r e) = {lo r..<hi r} - {unat s..<unat e}"
    using assms(2) by (auto simp: left_piece_def right_piece_def fits_def word_nat)
  have "addrs xs \<inter> {unat s..<unat e} = {}" "addrs ys \<inter> {unat s..<unat e} = {}"
    using before after assms(2) by (fastforce simp: fits_def)+
  with pieces show "addrs new = addrs (xs @ r # ys) - {unat s..<unat e}"
    unfolding new_def by (simp only: addrs_simps) blast
  show "bytes new + (unat e - unat s) = bytes (xs @ r # ys)"
    using assms(2) by (auto simp: new_def left_piece_def right_piece_def fits_def word_nat)
qed

lemma carve_correct:
  assumes "wf_ranges rs" and "i < length rs" and "fits (rs ! i) s e"
  shows "wf_ranges (carve rs i s e)"
    and "addrs (carve rs i s e) = addrs rs - {unat s..<unat e}"
    and "bytes (carve rs i s e) + (unat e - unat s) = bytes rs"
proof -
  have "wf_ranges (take i rs @ rs ! i # drop (Suc i) rs)"
    using assms(1,2) by (simp add: id_take_nth_drop [symmetric])
  from carve_effect [OF this assms(3)] assms(2)
  show "wf_ranges (carve rs i s e)"
    and "addrs (carve rs i s e) = addrs rs - {unat s..<unat e}"
    and "bytes (carve rs i s e) + (unat e - unat s) = bytes rs"
    by (simp_all only: carve_def id_take_nth_drop [symmetric])
qed

lemma fits_subset:
  assumes "i < length rs" and "fits (rs ! i) s e"
  shows "{unat s..<unat e} \<subseteq> addrs rs"
  using assms nth_mem [OF assms(1)]
  by (auto simp: addrs_def fits_def intro!: bexI [of _ "rs ! i"])

text \<open>
  A block inside the free addresses lies inside one range, because the ranges of a
  well-formed list do not touch.
\<close>

lemma interval_in_one_range:
  assumes "wf_ranges rs" and "{a..<b} \<subseteq> addrs rs" and "a < b"
  shows "\<exists>i < length rs. lo (rs ! i) \<le> a \<and> b \<le> hi (rs ! i)"
  using assms
proof (induction rs)
  case (Cons r rs)
  have after: "hi r < x" if "x \<in> addrs rs" for x
    using Cons.prems(1) that by (intro addrs_after [of rs]) simp_all
  show ?case
  proof (cases "a < hi r")
    case True
    have "b \<le> hi r"
    proof (rule ccontr)
      assume "\<not> b \<le> hi r"
      with True have "hi r \<in> {a..<b}" by simp
      with Cons.prems(2) have "hi r \<in> addrs rs" by auto
      with after show False by blast
    qed
    moreover have "lo r \<le> a"
      using Cons.prems True by (intro wf_ranges_first(2) [OF Cons.prems(1)]) auto
    ultimately show ?thesis by (intro exI [of _ 0]) simp
  next
    case False
    then have "{a..<b} \<subseteq> addrs rs"
      using Cons.prems(2) by auto
    then obtain i where "i < length rs" "lo (rs ! i) \<le> a" "b \<le> hi (rs ! i)"
      using Cons.IH Cons.prems by auto
    then show ?thesis by (intro exI [of _ "Suc i"]) simp
  qed
qed simp

section \<open>Merging a block back\<close>

text \<open>
  The effect of a free: the block \<open>[s, e)\<close> goes between \<open>xs\<close> and \<open>ys\<close> and absorbs the
  neighbours it touches.
\<close>

definition merge_left :: "region list \<Rightarrow> u64 \<Rightarrow> region list \<times> u64" where
  "merge_left xs s =
     (if xs \<noteq> [] \<and> r_end (last xs) = s then (butlast xs, r_start (last xs)) else (xs, s))"

definition merge_right :: "region list \<Rightarrow> u64 \<Rightarrow> region list \<times> u64" where
  "merge_right ys e =
     (if ys \<noteq> [] \<and> r_start (hd ys) = e then (tl ys, r_end (hd ys)) else (ys, e))"

definition coalesce :: "region list \<Rightarrow> region list \<Rightarrow> u64 \<Rightarrow> u64 \<Rightarrow> region list" where
  "coalesce xs ys s e =
     (case (merge_left xs s, merge_right ys e) of
       ((xs', s'), (ys', e')) \<Rightarrow> xs' @ \<lparr>r_start = s', r_end = e'\<rparr> # ys')"

lemma merge_left_effect:
  assumes "merge_left xs s = (xs', s')" and "wf_ranges xs" and "\<forall>x\<in>set xs. hi x \<le> unat s"
  shows "wf_ranges xs'" and "set xs' \<subseteq> set xs" and "\<forall>x\<in>set xs'. hi x < unat s'"
    and "unat s' \<le> unat s" and "addrs xs' \<union> {unat s'..<unat s} = addrs xs"
    and "bytes xs' + (unat s - unat s') = bytes xs"
proof -
  have "wf_ranges xs' \<and> set xs' \<subseteq> set xs \<and> (\<forall>x\<in>set xs'. hi x < unat s') \<and> unat s' \<le> unat s \<and>
      addrs xs' \<union> {unat s'..<unat s} = addrs xs \<and> bytes xs' + (unat s - unat s') = bytes xs"
  proof (cases xs rule: rev_cases)
    case Nil
    with assms(1) show ?thesis by (simp add: merge_left_def)
  next
    case (snoc zs z)
    have wf: "wf_ranges zs" "lo z < hi z" "\<forall>x\<in>set zs. hi x < lo z" "hi z \<le> unat s"
      using assms(2,3) snoc by (auto simp: wf_ranges_append)
    show ?thesis
    proof (cases "r_end z = s")
      case True
      with assms(1) snoc have "xs' = zs" "s' = r_start z" by (auto simp: merge_left_def)
      with wf snoc True show ?thesis by auto
    next
      case False
      with assms(1) snoc have "xs' = xs" "s' = s" by (auto simp: merge_left_def)
      with wf snoc False assms(2) show ?thesis
        by (auto simp: word_unat_eq_iff intro: less_trans less_le_trans)
    qed
  qed
  then show "wf_ranges xs'" and "set xs' \<subseteq> set xs" and "\<forall>x\<in>set xs'. hi x < unat s'"
    and "unat s' \<le> unat s" and "addrs xs' \<union> {unat s'..<unat s} = addrs xs"
    and "bytes xs' + (unat s - unat s') = bytes xs"
    by blast+
qed

lemma merge_right_effect:
  assumes "merge_right ys e = (ys', e')" and "wf_ranges ys" and "\<forall>y\<in>set ys. unat e \<le> lo y"
  shows "wf_ranges ys'" and "set ys' \<subseteq> set ys" and "\<forall>y\<in>set ys'. unat e' < lo y"
    and "unat e \<le> unat e'" and "{unat e..<unat e'} \<union> addrs ys' = addrs ys"
    and "(unat e' - unat e) + bytes ys' = bytes ys"
proof -
  have "wf_ranges ys' \<and> set ys' \<subseteq> set ys \<and> (\<forall>y\<in>set ys'. unat e' < lo y) \<and> unat e \<le> unat e' \<and>
      {unat e..<unat e'} \<union> addrs ys' = addrs ys \<and> (unat e' - unat e) + bytes ys' = bytes ys"
  proof (cases ys)
    case Nil
    with assms(1) show ?thesis by (simp add: merge_right_def)
  next
    case (Cons z zs)
    have wf: "wf_ranges zs" "lo z < hi z" "\<forall>x\<in>set zs. hi z < lo x" "unat e \<le> lo z"
      using assms(2,3) Cons by auto
    show ?thesis
    proof (cases "r_start z = e")
      case True
      with assms(1) Cons have "ys' = zs" "e' = r_end z" by (auto simp: merge_right_def)
      with wf Cons True show ?thesis by auto
    next
      case False
      with assms(1) Cons have "ys' = ys" "e' = e" by (auto simp: merge_right_def)
      with wf Cons False assms(2) show ?thesis
        by (auto simp: word_unat_eq_iff intro: less_trans le_less_trans)
    qed
  qed
  then show "wf_ranges ys'" and "set ys' \<subseteq> set ys" and "\<forall>y\<in>set ys'. unat e' < lo y"
    and "unat e \<le> unat e'" and "{unat e..<unat e'} \<union> addrs ys' = addrs ys"
    and "(unat e' - unat e) + bytes ys' = bytes ys"
    by blast+
qed

lemma coalesce_correct:
  assumes wf: "wf_ranges (xs @ ys)" and lt: "unat s < unat e"
    and xs: "\<forall>x\<in>set xs. hi x \<le> unat s" and ys: "\<forall>y\<in>set ys. unat e \<le> lo y"
  shows "wf_ranges (coalesce xs ys s e)"
    and "addrs (coalesce xs ys s e) = addrs (xs @ ys) \<union> {unat s..<unat e}"
    and "bytes (coalesce xs ys s e) = bytes (xs @ ys) + (unat e - unat s)"
proof -
  obtain xs' s' where l: "merge_left xs s = (xs', s')" by fastforce
  obtain ys' e' where r: "merge_right ys e = (ys', e')" by fastforce
  have wfs: "wf_ranges xs" "wf_ranges ys" "\<forall>x\<in>set xs. \<forall>y\<in>set ys. hi x < lo y"
    using wf by (auto simp: wf_ranges_append)
  note L = merge_left_effect [OF l wfs(1) xs]
  note R = merge_right_effect [OF r wfs(2) ys]
  have eq: "coalesce xs ys s e = xs' @ \<lparr>r_start = s', r_end = e'\<rparr> # ys'"
    by (simp add: coalesce_def l r)
  have cross: "\<forall>x\<in>set xs'. \<forall>y\<in>set ys'. hi x < lo y"
    using L(2) R(2) wfs(3) by blast
  show "wf_ranges (coalesce xs ys s e)"
    using L(1,3,4) R(1,3,4) lt cross by (simp add: eq wf_ranges_append)
  have "{unat s'..<unat e'} = {unat s'..<unat s} \<union> {unat s..<unat e} \<union> {unat e..<unat e'}"
    using L(4) R(4) lt by auto
  then show "addrs (coalesce xs ys s e) = addrs (xs @ ys) \<union> {unat s..<unat e}"
    using L(5) R(5) unfolding eq by auto
  show "bytes (coalesce xs ys s e) = bytes (xs @ ys) + (unat e - unat s)"
    using L(4,6) R(4,6) lt unfolding eq by simp
qed

section \<open>Borders of the address set\<close>

lemma addrs_edges:
  "x \<in> addrs rs \<Longrightarrow> Suc x \<notin> addrs rs \<Longrightarrow> Suc x \<in> hi ` set rs"
  "Suc x \<in> addrs rs \<Longrightarrow> x \<notin> addrs rs \<Longrightarrow> Suc x \<in> lo ` set rs"
proof -
  assume "x \<in> addrs rs" "Suc x \<notin> addrs rs"
  then obtain r where "r \<in> set rs" "lo r \<le> x" "x < hi r" "\<not> Suc x < hi r"
    by (auto simp: addrs_def)
  then show "Suc x \<in> hi ` set rs" by (intro image_eqI [of _ _ r]) simp_all
next
  assume "Suc x \<in> addrs rs" "x \<notin> addrs rs"
  then obtain r where "r \<in> set rs" "lo r \<le> Suc x" "Suc x < hi r" "\<not> lo r \<le> x"
    by (auto simp: addrs_def)
  then show "Suc x \<in> lo ` set rs" by (intro image_eqI [of _ _ r]) simp_all
qed

lemma whole_range_removed:
  assumes "wf_ranges rs" and "i < length rs" and "wf_ranges qs"
    and "addrs qs = addrs rs - {lo (rs ! i)..<hi (rs ! i)}"
  shows "length qs < length rs"
proof -
  have "fits (rs ! i) (r_start (rs ! i)) (r_end (rs ! i))"
    using wf_ranges_less [OF assms(1) nth_mem [OF assms(2)]] by (simp add: fits_def)
  note c = carve_correct [OF assms(1,2) this]
  have "qs = carve rs i (r_start (rs ! i)) (r_end (rs ! i))"
    using wf_ranges_unique [OF assms(3) c(1)] assms(4) c(2) by simp
  then show ?thesis using assms(2) by (simp add: carve_def left_piece_def right_piece_def)
qed

text \<open>
  When neither border of a carved block touches what is left, the block was a whole range,
  so that the list got shorter and there is room to take the block back.
\<close>

lemma carved_room:
  assumes wf: "wf_ranges rs" "wf_ranges qs" and ab: "{a..<b} \<subseteq> addrs rs" "a < b"
    and F: "addrs qs = addrs rs - {a..<b}"
    and edge: "a \<notin> hi ` set qs" "b \<notin> lo ` set qs"
  shows "length qs < length rs"
proof -
  obtain i where i: "i < length rs" "lo (rs ! i) \<le> a" "b \<le> hi (rs ! i)"
    using interval_in_one_range [OF wf(1) ab] by blast
  have in_range: "x \<in> addrs rs" if "lo (rs ! i) \<le> x" "x < hi (rs ! i)" for x
    using that i(1) by (auto simp: addrs_def intro!: bexI [of _ "rs ! i"])
  have "lo (rs ! i) = a"
  proof (rule ccontr)
    assume "lo (rs ! i) \<noteq> a"
    then obtain x where x: "a = Suc x" "lo (rs ! i) \<le> x"
      using i(2) by (cases a) auto
    have "x \<in> addrs qs" "Suc x \<notin> addrs qs"
      using in_range [of x] x i(3) ab(2) by (simp_all add: F)
    then show False using addrs_edges(1) [of x qs] edge(1) x(1) by simp
  qed
  moreover have "hi (rs ! i) = b"
  proof (rule ccontr)
    assume "hi (rs ! i) \<noteq> b"
    then have "b < hi (rs ! i)" using i(3) by simp
    moreover obtain x where x: "b = Suc x" using ab(2) by (cases b) auto
    ultimately have "Suc x \<in> addrs qs" "x \<notin> addrs qs"
      using in_range [of "Suc x"] i(2) ab(2) by (auto simp: F)
    then show False using addrs_edges(2) [of x qs] edge(2) x by simp
  qed
  ultimately show ?thesis
    using whole_range_removed [OF wf(1) i(1) wf(2)] F by simp
qed

end
