(* ===== verification/Block_Pool.thy ===== *)
theory Block_Pool
  imports Main
begin

text \<open>
  The contract that the allocators of the kernel share: a pool of addresses from which
  blocks are taken and to which they are given back. A request \<open>q\<close> asks for a block, a
  granted block is named by its start \<open>a\<close>, and \<open>extent q a\<close> are its addresses. The clients'
  lemmas are about any sequence of requests and releases of live blocks.
\<close>

datatype 'q pool_cmd = Get 'q | Put nat

definition pool_step ::
  "('s \<Rightarrow> 'q \<Rightarrow> 's \<times> 'a option) \<Rightarrow> ('s \<Rightarrow> 'q \<Rightarrow> 'a \<Rightarrow> 's \<times> bool) \<Rightarrow>
   's \<times> ('q \<times> 'a) list \<Rightarrow> 'q pool_cmd \<Rightarrow> 's \<times> ('q \<times> 'a) list" where
  "pool_step alloc release st cmd =
     (case st of (s, live) \<Rightarrow>
        (case cmd of
           Get q \<Rightarrow>
             (case alloc s q of
                (s', None) \<Rightarrow> (s', live)
              | (s', Some a) \<Rightarrow> (s', (q, a) # live))
         | Put i \<Rightarrow>
             (if i < length live then
                (case release s (fst (live ! i)) (snd (live ! i)) of
                   (s', True) \<Rightarrow> (s', take i live @ drop (Suc i) live)
                 | (s', False) \<Rightarrow> (s', live))
              else (s, live))))"

definition pool_run ::
  "('s \<Rightarrow> 'q \<Rightarrow> 's \<times> 'a option) \<Rightarrow> ('s \<Rightarrow> 'q \<Rightarrow> 'a \<Rightarrow> 's \<times> bool) \<Rightarrow>
   's \<times> ('q \<times> 'a) list \<Rightarrow> 'q pool_cmd list \<Rightarrow> 's \<times> ('q \<times> 'a) list" where
  "pool_run alloc release = foldl (pool_step alloc release)"

text \<open>The addresses of the live blocks, and that no two of them overlap.\<close>

definition held :: "('q \<Rightarrow> 'a \<Rightarrow> nat set) \<Rightarrow> ('q \<times> 'a) list \<Rightarrow> nat set" where
  "held extent live = (\<Union>(q, a)\<in>set live. extent q a)"

definition separate :: "('q \<Rightarrow> 'a \<Rightarrow> nat set) \<Rightarrow> ('q \<times> 'a) list \<Rightarrow> bool" where
  "separate extent live \<longleftrightarrow>
     sorted_wrt (\<lambda>(q, a) (q', a'). extent q a \<inter> extent q' a' = {}) live"

locale block_pool =
  fixes inv :: "'s \<Rightarrow> bool"
    and avail :: "'s \<Rightarrow> nat set"
    and extent :: "'q \<Rightarrow> 'a \<Rightarrow> nat set"
    and alloc :: "'s \<Rightarrow> 'q \<Rightarrow> 's \<times> 'a option"
    and release :: "'s \<Rightarrow> 'q \<Rightarrow> 'a \<Rightarrow> 's \<times> bool"
  assumes alloc_some: "\<lbrakk>inv s; alloc s q = (s', Some a)\<rbrakk> \<Longrightarrow>
      inv s' \<and> extent q a \<noteq> {} \<and> extent q a \<subseteq> avail s \<and> avail s' = avail s - extent q a"
    and alloc_none: "\<lbrakk>inv s; alloc s q = (s', None)\<rbrakk> \<Longrightarrow> s' = s"
    and release_ok: "\<lbrakk>inv s; release s q a = (s', True)\<rbrakk> \<Longrightarrow>
      inv s' \<and> extent q a \<inter> avail s = {} \<and> avail s' = avail s \<union> extent q a"
    and release_fail: "\<lbrakk>inv s; release s q a = (s', False)\<rbrakk> \<Longrightarrow> s' = s"
begin

definition pool_inv :: "nat set \<Rightarrow> 's \<times> ('q \<times> 'a) list \<Rightarrow> bool" where
  "pool_inv all st \<longleftrightarrow>
     (case st of (s, live) \<Rightarrow>
        inv s \<and> separate extent live \<and> held extent live \<inter> avail s = {} \<and> held extent live \<union> avail s = all)"

lemma separate_remove:
  assumes "separate extent live" and "i < length live"
  shows "separate extent (take i live @ drop (Suc i) live)"
    and "held extent (take i live @ drop (Suc i) live) =
      held extent live - extent (fst (live ! i)) (snd (live ! i))"
    and "extent (fst (live ! i)) (snd (live ! i)) \<subseteq> held extent live"
proof -
  let ?x = "live ! i"
  have split: "live = take i live @ ?x # drop (Suc i) live"
    using assms(2) by (simp add: id_take_nth_drop)
  have s: "separate extent (take i live @ ?x # drop (Suc i) live)" using assms(1) split by simp
  then show "separate extent (take i live @ drop (Suc i) live)"
    by (simp add: separate_def sorted_wrt_append)
  have h: "held extent live = held extent (take i live) \<union> extent (fst ?x) (snd ?x) \<union> held extent (drop (Suc i) live)"
    by (subst split) (auto simp: held_def split: prod.splits)
  have d: "held extent (take i live @ drop (Suc i) live) \<inter> extent (fst ?x) (snd ?x) = {}"
    using s by (fastforce simp: separate_def sorted_wrt_append held_def split: prod.splits)
  have "held extent (take i live @ drop (Suc i) live) = held extent (take i live) \<union> held extent (drop (Suc i) live)"
    by (auto simp: held_def)
  with h d show "held extent (take i live @ drop (Suc i) live) = held extent live - extent (fst ?x) (snd ?x)"
    and "extent (fst ?x) (snd ?x) \<subseteq> held extent live"
    by auto
qed

lemma step_inv:
  assumes "pool_inv all st"
  shows "pool_inv all (pool_step alloc release st cmd)"
proof -
  obtain s live where st: "st = (s, live)" by fastforce
  have P: "inv s" "separate extent live" "held extent live \<inter> avail s = {}" "held extent live \<union> avail s = all"
    using assms by (simp_all add: pool_inv_def st)
  show ?thesis
  proof (cases cmd)
    case (Get q)
    obtain s' r where a: "alloc s q = (s', r)" by fastforce
    show ?thesis
    proof (cases r)
      case None
      then show ?thesis
        using a alloc_none [OF P(1)] P by (auto simp: st Get pool_step_def pool_inv_def)
    next
      case (Some b)
      have A: "inv s'" "extent q b \<subseteq> avail s" "avail s' = avail s - extent q b"
        using alloc_some [OF P(1)] a Some by blast+
      have "held extent ((q, b) # live) = extent q b \<union> held extent live" by (simp add: held_def)
      moreover have "separate extent ((q, b) # live)"
        using P(2,3) A(2) by (fastforce simp: separate_def held_def)
      ultimately show ?thesis
        using A P a Some by (auto simp: st Get pool_step_def pool_inv_def)
    qed
  next
    case (Put i)
    show ?thesis
    proof (cases "i < length live")
      case True
      obtain q a where qa: "live ! i = (q, a)" by fastforce
      obtain s' r where rel: "release s q a = (s', r)" by fastforce
      note R = separate_remove [OF P(2) True, unfolded qa fst_conv snd_conv]
      show ?thesis
      proof (cases r)
        case True
        then have "inv s'" "avail s' = avail s \<union> extent q a"
          using rel release_ok [OF P(1), of q a s'] by simp_all
        then show ?thesis
          using True \<open>i < length live\<close> P R rel
          by (auto simp: st Put pool_step_def pool_inv_def qa)
      next
        case False
        then show ?thesis
          using release_fail [OF P(1)] rel P True
          by (auto simp: st Put pool_step_def pool_inv_def qa)
      qed
    qed (use P in \<open>simp add: st Put pool_step_def pool_inv_def\<close>)
  qed
qed

text \<open>
  Whatever the clients do, the blocks they hold never overlap one another or the free
  addresses, and no address is ever lost.
\<close>

lemma run_inv: "pool_inv all st \<Longrightarrow> pool_inv all (pool_run alloc release st cmds)"
  by (induction cmds arbitrary: st) (simp_all add: pool_run_def step_inv)

lemma run_from_start:
  assumes "inv s" and "pool_run alloc release (s, []) cmds = (s', live)"
  shows "inv s'" and "separate extent live" and "held extent live \<inter> avail s' = {}"
    and "held extent live \<union> avail s' = avail s"
proof -
  have "pool_inv (avail s) (s, [])"
    using assms(1) by (simp add: pool_inv_def separate_def held_def)
  from run_inv [OF this, of cmds] assms(2)
  show "inv s'" and "separate extent live" and "held extent live \<inter> avail s' = {}"
    and "held extent live \<union> avail s' = avail s"
    by (simp_all add: pool_inv_def)
qed

text \<open>Two grants in a row are disjoint, and a block cannot be given back twice.\<close>

lemma two_grants_disjoint:
  assumes "inv s" and "alloc s q = (s1, Some a)" and "alloc s1 q' = (s2, Some a')"
  shows "extent q a \<inter> extent q' a' = {}"
  using alloc_some [OF assms(1,2)] alloc_some [of s1 q' s2 a'] assms(3) by blast

lemma no_double_release:
  assumes "inv s" and "release s q a = (s1, True)" and "extent q a \<noteq> {}"
  shows "\<not> snd (release s1 q a)"
  using release_ok [OF assms(1,2)] release_ok [of s1 q a] assms(3)
  by (metis Int_absorb2 Un_upper2 prod.collapse)

lemma alloc_release:
  assumes "inv s" and "alloc s q = (s1, Some a)" and "release s1 q a = (s2, True)"
  shows "inv s2 \<and> avail s2 = avail s"
  using alloc_some [OF assms(1,2)] release_ok [of s1 q a s2] assms(3) by blast

end

end
