(* ===== verification/Physical_Memory.thy ===== *)
theory Physical_Memory
  imports Free_Ranges Block_Pool
begin

text \<open>
  The permanent physical-memory manager of \<open>crates/kernel-core/src/physical.rs\<close>. The
  struct is a record whose two arrays are lists of the constant length \<open>N\<close>; the methods
  pass the record explicitly and return it also when they fail, because the Rust code
  keeps whatever it changed before an error.
\<close>

datatype pm_error =
  ReversedRange | OverlapOrUnsorted | Capacity | InvalidRequest | InvalidFree | Overflow

definition PAGE_SIZE :: u64 where
  "PAGE_SIZE = 4096"

record physical_memory =
  pm_managed :: "region list"
  pm_managed_len :: nat
  pm_free :: "region list"
  pm_free_len :: nat
  pm_total_bytes :: u64
  pm_free_bytes :: u64

section \<open>Array updates\<close>

definition insert_free ::
  "physical_memory \<Rightarrow> nat \<Rightarrow> region \<Rightarrow> physical_memory \<times> (pm_error + unit)" where
  "insert_free m index r =
     (if pm_free_len m = length (pm_free m) then (m, Inl Capacity)
      else (m\<lparr>pm_free := (shift_up (pm_free m) index (pm_free_len m))[index := r],
              pm_free_len := pm_free_len m + 1\<rparr>, Inr ()))"

definition remove_free :: "physical_memory \<Rightarrow> nat \<Rightarrow> physical_memory" where
  "remove_free m index =
     (let arr = shift_down (pm_free m) index (pm_free_len m);
          len = pm_free_len m - 1
      in m\<lparr>pm_free := (if len < length arr then arr[len := default_region] else arr),
           pm_free_len := len\<rparr>)"

definition set_free_start :: "physical_memory \<Rightarrow> nat \<Rightarrow> u64 \<Rightarrow> physical_memory" where
  "set_free_start m i v = m\<lparr>pm_free := (pm_free m)[i := (pm_free m ! i)\<lparr>r_start := v\<rparr>]\<rparr>"

definition set_free_end :: "physical_memory \<Rightarrow> nat \<Rightarrow> u64 \<Rightarrow> physical_memory" where
  "set_free_end m i v = m\<lparr>pm_free := (pm_free m)[i := (pm_free m ! i)\<lparr>r_end := v\<rparr>]\<rparr>"

section \<open>Construction\<close>

text \<open>The checked counter updates that end \<open>push_initial\<close>.\<close>

definition count_initial ::
  "physical_memory \<Rightarrow> u64 \<Rightarrow> physical_memory \<times> (pm_error + unit)" where
  "count_initial m bsize =
     (case checked_add (pm_total_bytes m) bsize of
        None \<Rightarrow> (m, Inl Overflow)
      | Some new_total \<Rightarrow>
          (case checked_add (pm_free_bytes m) bsize of
             None \<Rightarrow> (m\<lparr>pm_total_bytes := new_total\<rparr>, Inl Overflow)
           | Some new_free \<Rightarrow>
               (m\<lparr>pm_total_bytes := new_total, pm_free_bytes := new_free\<rparr>, Inr ())))"

definition push_initial ::
  "physical_memory \<Rightarrow> region \<Rightarrow> physical_memory \<times> (pm_error + unit)" where
  "push_initial m r =
     (let previous = pm_managed_len m - 1;
          bsize = r_end r - r_start r
      in if 0 < pm_managed_len m \<and> r_end (pm_managed m ! previous) = r_start r then
           count_initial
             (m\<lparr>pm_managed := (pm_managed m)[previous := (pm_managed m ! previous)\<lparr>r_end := r_end r\<rparr>],
                pm_free := (pm_free m)[pm_free_len m - 1 :=
                  (pm_free m ! (pm_free_len m - 1))\<lparr>r_end := r_end r\<rparr>]\<rparr>) bsize
         else if pm_managed_len m = length (pm_managed m) \<or> pm_free_len m = length (pm_free m)
         then (m, Inl Capacity)
         else
           count_initial
             (m\<lparr>pm_managed := (pm_managed m)[pm_managed_len m := r],
                pm_managed_len := pm_managed_len m + 1,
                pm_free := (pm_free m)[pm_free_len m := r],
                pm_free_len := pm_free_len m + 1\<rparr>) bsize)"

fun new_loop :: "region list \<Rightarrow> u64 \<Rightarrow> physical_memory \<Rightarrow> pm_error + physical_memory" where
  "new_loop [] previous_end m = Inr m"
| "new_loop (r # rs) previous_end m =
     (if r_end r < r_start r then Inl ReversedRange
      else if r_start r < previous_end then Inl OverlapOrUnsorted
      else case align_up (max (r_start r) PAGE_SIZE) PAGE_SIZE of
             None \<Rightarrow> Inl Overflow
           | Some s \<Rightarrow>
               (let e = align_down (r_end r) PAGE_SIZE
                in if e \<le> s then new_loop rs (r_end r) m
                   else case push_initial m \<lparr>r_start = s, r_end = e\<rparr> of
                          (m', Inl err) \<Rightarrow> Inl err
                        | (m', Inr _) \<Rightarrow> new_loop rs (r_end r) m'))"

definition pm_empty :: "nat \<Rightarrow> physical_memory" where
  "pm_empty N = \<lparr>pm_managed = replicate N default_region, pm_managed_len = 0,
     pm_free = replicate N default_region, pm_free_len = 0,
     pm_total_bytes = 0, pm_free_bytes = 0\<rparr>"

definition pm_new :: "nat \<Rightarrow> region list \<Rightarrow> pm_error + physical_memory" where
  "pm_new N regions = new_loop regions 0 (pm_empty N)"

section \<open>Accounting queries\<close>

definition used_bytes :: "physical_memory \<Rightarrow> u64" where
  "used_bytes m = pm_total_bytes m - pm_free_bytes m"

definition is_managed :: "physical_memory \<Rightarrow> u64 \<Rightarrow> u64 \<Rightarrow> bool" where
  "is_managed m s e =
     list_ex (\<lambda>r. r_start r \<le> s \<and> e \<le> r_end r) (take (pm_managed_len m) (pm_managed m))"

section \<open>Allocation\<close>

text \<open>The \<open>match (has_prefix, has_suffix)\<close> of \<open>allocate_pages\<close>.\<close>

definition split_free ::
  "physical_memory \<Rightarrow> nat \<Rightarrow> region \<Rightarrow> u64 \<Rightarrow> u64 \<Rightarrow> physical_memory \<times> (pm_error + unit)" where
  "split_free m index r s e =
     (case (r_start r < s, e < r_end r) of
        (False, False) \<Rightarrow> (remove_free m index, Inr ())
      | (False, True) \<Rightarrow> (set_free_start m index e, Inr ())
      | (True, False) \<Rightarrow> (set_free_end m index s, Inr ())
      | (True, True) \<Rightarrow>
          insert_free (set_free_end m index s) (index + 1) \<lparr>r_start = e, r_end = r_end r\<rparr>)"

fun alloc_scan ::
  "physical_memory \<Rightarrow> u64 \<Rightarrow> u64 \<Rightarrow> nat list \<Rightarrow> physical_memory \<times> (pm_error + u64 option)" where
  "alloc_scan m bsize alignment [] = (m, Inr None)"
| "alloc_scan m bsize alignment (index # rest) =
     (let r = pm_free m ! index
      in case align_up (r_start r) alignment of
           None \<Rightarrow> alloc_scan m bsize alignment rest
         | Some s \<Rightarrow>
             (case checked_add s bsize of
                None \<Rightarrow> alloc_scan m bsize alignment rest
              | Some e \<Rightarrow>
                  (if r_end r < e then alloc_scan m bsize alignment rest
                   else if r_start r < s \<and> e < r_end r \<and> pm_free_len m = length (pm_free m)
                   then (m, Inl Capacity)
                   else case split_free m index r s e of
                          (m', Inl err) \<Rightarrow> (m', Inl err)
                        | (m', Inr _) \<Rightarrow>
                            (m'\<lparr>pm_free_bytes := pm_free_bytes m' - bsize\<rparr>, Inr (Some s)))))"

definition allocate_pages ::
  "physical_memory \<Rightarrow> u64 \<Rightarrow> u64 \<Rightarrow> physical_memory \<times> (pm_error + u64 option)" where
  "allocate_pages m pages align_pages =
     (if pages = 0 \<or> align_pages = 0 \<or> \<not> is_power_of_two align_pages
      then (m, Inl InvalidRequest)
      else case checked_mul pages PAGE_SIZE of
             None \<Rightarrow> (m, Inl Overflow)
           | Some bsize \<Rightarrow>
               (case checked_mul align_pages PAGE_SIZE of
                  None \<Rightarrow> (m, Inl Overflow)
                | Some alignment \<Rightarrow> alloc_scan m bsize alignment [0..<pm_free_len m]))"

definition allocate_frame :: "physical_memory \<Rightarrow> physical_memory \<times> (pm_error + u64 option)" where
  "allocate_frame m = allocate_pages m 1 1"

section \<open>Freeing\<close>

text \<open>The \<open>match (merge_left, merge_right)\<close> of \<open>free_pages\<close>.\<close>

definition merge_free ::
  "physical_memory \<Rightarrow> nat \<Rightarrow> u64 \<Rightarrow> u64 \<Rightarrow> physical_memory \<times> (pm_error + unit)" where
  "merge_free m index s e =
     (case (0 < index \<and> r_end (pm_free m ! (index - 1)) = s,
            index < pm_free_len m \<and> r_start (pm_free m ! index) = e) of
        (True, True) \<Rightarrow>
          (remove_free (set_free_end m (index - 1) (r_end (pm_free m ! index))) index, Inr ())
      | (True, False) \<Rightarrow> (set_free_end m (index - 1) e, Inr ())
      | (False, True) \<Rightarrow> (set_free_start m index s, Inr ())
      | (False, False) \<Rightarrow> insert_free m index \<lparr>r_start = s, r_end = e\<rparr>)"

definition free_pages ::
  "physical_memory \<Rightarrow> u64 \<Rightarrow> u64 \<Rightarrow> physical_memory \<times> (pm_error + unit)" where
  "free_pages m s pages =
     (if pages = 0 \<or> s < PAGE_SIZE \<or> s mod PAGE_SIZE \<noteq> 0 then (m, Inl InvalidFree)
      else case checked_mul pages PAGE_SIZE of
        None \<Rightarrow> (m, Inl Overflow)
      | Some bsize \<Rightarrow>
        (case checked_add s bsize of
           None \<Rightarrow> (m, Inl Overflow)
         | Some e \<Rightarrow>
           (if e mod PAGE_SIZE \<noteq> 0 \<or> \<not> is_managed m s e then (m, Inl InvalidFree)
            else
              (let index = find_slot (pm_free m) (pm_free_len m) s 0
               in if 0 < index \<and> s < r_end (pm_free m ! (index - 1)) then (m, Inl InvalidFree)
                  else if index < pm_free_len m \<and> r_start (pm_free m ! index) < e
                  then (m, Inl InvalidFree)
                  else case merge_free m index s e of
                    (m', Inl err) \<Rightarrow> (m', Inl err)
                  | (m', Inr _) \<Rightarrow>
                      (case checked_add (pm_free_bytes m') bsize of
                         None \<Rightarrow> (m', Inl Overflow)
                       | Some new_bytes \<Rightarrow>
                           (let m'' = m'\<lparr>pm_free_bytes := new_bytes\<rparr>
                            in if pm_total_bytes m'' < pm_free_bytes m''
                               then (m'', Inl InvalidFree) else (m'', Inr ())))))))"

section \<open>The invariant\<close>

definition free_list :: "physical_memory \<Rightarrow> region list" where
  "free_list m = take (pm_free_len m) (pm_free m)"

definition managed_list :: "physical_memory \<Rightarrow> region list" where
  "managed_list m = take (pm_managed_len m) (pm_managed m)"

definition page_aligned :: "region list \<Rightarrow> bool" where
  "page_aligned rs \<longleftrightarrow> (\<forall>r\<in>set rs. 4096 dvd lo r \<and> 4096 dvd hi r)"

definition pm_inv :: "physical_memory \<Rightarrow> bool" where
  "pm_inv m \<longleftrightarrow>
     length (pm_managed m) = length (pm_free m) \<and>
     pm_managed_len m \<le> length (pm_managed m) \<and> pm_free_len m \<le> length (pm_free m) \<and>
     wf_ranges (managed_list m) \<and> wf_ranges (free_list m) \<and>
     page_aligned (managed_list m) \<and> page_aligned (free_list m) \<and>
     addrs (free_list m) \<subseteq> addrs (managed_list m) \<and>
     addrs (managed_list m) \<inter> {0..<4096} = {} \<and>
     unat (pm_total_bytes m) = bytes (managed_list m) \<and>
     unat (pm_free_bytes m) = bytes (free_list m)"

text \<open>The free addresses: what the manager promises its clients.\<close>

definition free_addrs :: "physical_memory \<Rightarrow> nat set" where
  "free_addrs m = addrs (free_list m)"

text \<open>Everything but the free array and its length.\<close>

definition same_rest :: "physical_memory \<Rightarrow> physical_memory \<Rightarrow> bool" where
  "same_rest m m' \<longleftrightarrow>
     pm_managed m' = pm_managed m \<and> pm_managed_len m' = pm_managed_len m \<and>
     pm_total_bytes m' = pm_total_bytes m \<and> pm_free_bytes m' = pm_free_bytes m \<and>
     length (pm_free m') = length (pm_free m)"

section \<open>The array updates on the list of free ranges\<close>

lemma insert_free_spec:
  assumes "pm_free_len m < length (pm_free m)" and "index \<le> pm_free_len m"
  obtains m' where "insert_free m index r = (m', Inr ())" and "same_rest m m'"
    and "pm_free_len m' = Suc (pm_free_len m)"
    and "free_list m' = take index (free_list m) @ r # drop index (free_list m)"
  using assms take_insert_shift_up [OF assms(2,1), of r]
  by (auto simp: insert_free_def same_rest_def free_list_def)

lemma remove_free_spec:
  assumes "index < pm_free_len m" and "pm_free_len m \<le> length (pm_free m)"
  shows "same_rest m (remove_free m index)"
    and "pm_free_len (remove_free m index) = pm_free_len m - 1"
    and "free_list (remove_free m index) = take index (free_list m) @ drop (Suc index) (free_list m)"
  using take_remove_shift_down [OF assms]
  by (simp_all add: remove_free_def same_rest_def free_list_def Let_def)

lemma set_free_spec:
  assumes "i < pm_free_len m" and "pm_free_len m \<le> length (pm_free m)"
  shows "same_rest m (set_free_start m i v)" and "same_rest m (set_free_end m i v)"
    and "pm_free_len (set_free_start m i v) = pm_free_len m"
    and "pm_free_len (set_free_end m i v) = pm_free_len m"
    and "free_list (set_free_start m i v) =
      take i (free_list m) @ (free_list m ! i)\<lparr>r_start := v\<rparr> # drop (Suc i) (free_list m)"
    and "free_list (set_free_end m i v) =
      take i (free_list m) @ (free_list m ! i)\<lparr>r_end := v\<rparr> # drop (Suc i) (free_list m)"
  using assms
  by (simp_all add: set_free_start_def set_free_end_def same_rest_def free_list_def
      take_update_split del: take_take)

lemma same_rest_trans: "same_rest a b \<Longrightarrow> same_rest b c \<Longrightarrow> same_rest a c"
  by (simp add: same_rest_def)

lemma length_free_list [simp]:
  "pm_free_len m \<le> length (pm_free m) \<Longrightarrow> length (free_list m) = pm_free_len m"
  by (simp add: free_list_def)

lemma nth_free_list: "i < pm_free_len m \<Longrightarrow> free_list m ! i = pm_free m ! i"
  by (simp add: free_list_def)

text \<open>
  Splitting the array entry is carving the block out of the list. The only failure is a
  full array, which \<open>allocate_pages\<close> has excluded.
\<close>

lemma split_free_spec:
  assumes "index < pm_free_len m" and "pm_free_len m \<le> length (pm_free m)"
    and r: "r = pm_free m ! index"
    and room: "\<not> (r_start r < s \<and> e < r_end r \<and> pm_free_len m = length (pm_free m))"
  obtains m' where "split_free m index r s e = (m', Inr ())" and "same_rest m m'"
    and "pm_free_len m' \<le> length (pm_free m')" and "free_list m' = carve (free_list m) index s e"
proof -
  have nth: "free_list m ! index = r" using assms(1) r by (simp add: nth_free_list)
  note set_specs = set_free_spec [OF assms(1,2)]
  note rem = remove_free_spec [OF assms(1,2)]
  consider (none) "\<not> r_start r < s" "\<not> e < r_end r" | (suffix) "\<not> r_start r < s" "e < r_end r"
    | (prefix) "r_start r < s" "\<not> e < r_end r" | (both) "r_start r < s" "e < r_end r"
    by blast
  then show ?thesis
  proof cases
    case none
    with rem nth assms show ?thesis
      by (intro that [of "remove_free m index"])
        (auto simp: split_free_def carve_def left_piece_def right_piece_def same_rest_def)
  next
    case suffix
    with set_specs nth assms show ?thesis
      by (intro that [of "set_free_start m index e"])
        (auto simp: split_free_def carve_def left_piece_def right_piece_def same_rest_def)
  next
    case prefix
    with set_specs nth assms show ?thesis
      by (intro that [of "set_free_end m index s"])
        (auto simp: split_free_def carve_def left_piece_def right_piece_def same_rest_def)
  next
    case both
    let ?m1 = "set_free_end m index s"
    have "pm_free_len ?m1 < length (pm_free ?m1)" "index + 1 \<le> pm_free_len ?m1"
      using both room assms set_specs by (auto simp: same_rest_def)
    then obtain m' where m': "insert_free ?m1 (index + 1) \<lparr>r_start = e, r_end = r_end r\<rparr> = (m', Inr ())"
      "same_rest ?m1 m'" "pm_free_len m' = Suc (pm_free_len ?m1)"
      "free_list m' = take (index + 1) (free_list ?m1) @ \<lparr>r_start = e, r_end = r_end r\<rparr> #
         drop (index + 1) (free_list ?m1)"
      by (rule insert_free_spec)
    have rec: "\<lparr>r_start = e, r_end = r_end r\<rparr> = r\<lparr>r_start := e\<rparr>" by (cases r) simp
    have "free_list m' = carve (free_list m) index s e"
      using m'(4) set_specs(6) nth both assms(1,2)
      by (simp add: carve_def left_piece_def right_piece_def rec)
    with m' both set_specs(2,4) assms room show ?thesis
      by (intro that [of m']) (auto simp: split_free_def same_rest_def)
  qed
qed

text \<open>
  Merging into the array is coalescing on the list. The only failure is an array with no
  room for a range that touches no other.
\<close>

definition touches :: "region list \<Rightarrow> region list \<Rightarrow> u64 \<Rightarrow> u64 \<Rightarrow> bool" where
  "touches xs ys s e \<longleftrightarrow>
     (xs \<noteq> [] \<and> r_end (last xs) = s) \<or> (ys \<noteq> [] \<and> r_start (hd ys) = e)"

lemma free_list_neighbours:
  assumes "index \<le> pm_free_len m" and "pm_free_len m \<le> length (pm_free m)"
  shows "0 < index \<Longrightarrow> last (take index (free_list m)) = pm_free m ! (index - 1)"
    and "index < pm_free_len m \<Longrightarrow> hd (drop index (free_list m)) = pm_free m ! index"
    and "take index (free_list m) \<noteq> [] \<longleftrightarrow> 0 < index"
    and "drop index (free_list m) \<noteq> [] \<longleftrightarrow> index < pm_free_len m"
  using assms length_free_list [OF assms(2)]
  by (auto simp: last_take_nth hd_drop_conv_nth nth_free_list simp del: length_free_list)

lemma merge_free_spec:
  assumes "index \<le> pm_free_len m" and "pm_free_len m \<le> length (pm_free m)"
    and "touches (take index (free_list m)) (drop index (free_list m)) s e \<or>
      pm_free_len m < length (pm_free m)"
  obtains m' where "merge_free m index s e = (m', Inr ())" and "same_rest m m'"
    and "pm_free_len m' \<le> length (pm_free m')"
    and "free_list m' = coalesce (take index (free_list m)) (drop index (free_list m)) s e"
proof -
  let ?F = "free_list m" and ?xs = "take index (free_list m)" and ?ys = "drop index (free_list m)"
  let ?left = "0 < index \<and> r_end (pm_free m ! (index - 1)) = s"
  let ?right = "index < pm_free_len m \<and> r_start (pm_free m ! index) = e"
  have lenF: "length ?F = pm_free_len m" using assms(2) by simp
  note nb = free_list_neighbours [OF assms(1,2)]
  have last: "last ?xs = pm_free m ! (index - 1)" if "0 < index" using nb(1) that .
  have hd: "hd ?ys = pm_free m ! index" if "index < pm_free_len m" using nb(2) that .
  have left: "?xs \<noteq> [] \<and> r_end (last ?xs) = s \<longleftrightarrow> ?left" using nb(1,3) by auto
  have right: "?ys \<noteq> [] \<and> r_start (hd ?ys) = e \<longleftrightarrow> ?right" using nb(2,4) by auto
  consider (both) ?left ?right | (l) ?left "\<not> ?right" | (r) "\<not> ?left" ?right
    | (neither) "\<not> ?left" "\<not> ?right" by blast
  then show ?thesis
  proof cases
    case both
    have ix: "index - 1 < pm_free_len m" using both by linarith
    let ?m1 = "set_free_end m (index - 1) (r_end (pm_free m ! index))"
    note sp = set_free_spec [OF ix assms(2)]
    have rm: "index < pm_free_len ?m1" "pm_free_len ?m1 \<le> length (pm_free ?m1)"
      using both(2) assms(2) sp by (simp_all add: same_rest_def)
    note rs = remove_free_spec [OF rm]
    have F1: "free_list ?m1 = take (index - 1) ?F @
        (pm_free m ! (index - 1))\<lparr>r_end := r_end (pm_free m ! index)\<rparr> # ?ys"
      using sp(6) both nth_free_list [OF ix] by simp
    have "free_list (remove_free ?m1 index) = take (index - 1) ?F @
        (pm_free m ! (index - 1))\<lparr>r_end := r_end (pm_free m ! index)\<rparr> # tl ?ys"
      using both lenF unfolding rs(3) F1 by (cases index) (simp_all add: drop_Suc tl_drop)
    also have "\<dots> = coalesce ?xs ?ys s e"
      using left right both last hd lenF
      by (simp add: coalesce_def merge_left_def merge_right_def butlast_take)
    finally show ?thesis
      using both rs sp assms(2)
      by (intro that [of "remove_free ?m1 index"]) (auto simp: merge_free_def same_rest_def)
  next
    case l
    then have ix: "index - 1 < pm_free_len m" using assms(1) by linarith
    note sp = set_free_spec [OF ix assms(2)]
    have "free_list (set_free_end m (index - 1) e) = coalesce ?xs ?ys s e"
      using sp(6) left right l last lenF ix
      by (auto simp: coalesce_def merge_left_def merge_right_def butlast_take nth_free_list)
    with l sp assms(2) show ?thesis
      by (intro that [of "set_free_end m (index - 1) e"]) (auto simp: merge_free_def same_rest_def)
  next
    case r
    then have ix: "index < pm_free_len m" by simp
    note sp = set_free_spec [OF ix assms(2)]
    have "free_list (set_free_start m index s) = coalesce ?xs ?ys s e"
      using sp(5) left right r hd lenF ix
      by (auto simp: coalesce_def merge_left_def merge_right_def nth_free_list drop_Suc tl_drop)
    with r sp assms(2) show ?thesis
      by (intro that [of "set_free_start m index s"]) (auto simp: merge_free_def same_rest_def)
  next
    case neither
    then have "pm_free_len m < length (pm_free m)"
      using assms(3) left right by (auto simp: touches_def)
    then obtain m' where m': "insert_free m index \<lparr>r_start = s, r_end = e\<rparr> = (m', Inr ())"
      "same_rest m m'" "pm_free_len m' = Suc (pm_free_len m)"
      "free_list m' = ?xs @ \<lparr>r_start = s, r_end = e\<rparr> # ?ys"
      using assms(1) by (rule insert_free_spec)
    moreover have "coalesce ?xs ?ys s e = ?xs @ \<lparr>r_start = s, r_end = e\<rparr> # ?ys"
      using left right neither by (auto simp: coalesce_def merge_left_def merge_right_def)
    ultimately show ?thesis
      using neither \<open>pm_free_len m < length (pm_free m)\<close>
      by (intro that [of m']) (auto simp: merge_free_def same_rest_def)
  qed
qed

lemma untouched:
  assumes "wf_ranges (xs @ ys)" and "\<forall>x\<in>set xs. hi x \<le> unat s" and "\<forall>y\<in>set ys. unat e \<le> lo y"
    and "unat s < unat e" and "\<not> touches xs ys s e"
  shows "unat s \<notin> hi ` set (xs @ ys) \<and> unat e \<notin> lo ` set (xs @ ys)"
proof -
  have less: "lo r < hi r" if "r \<in> set (xs @ ys)" for r
    using wf_ranges_less [OF assms(1) that] .
  have 1: "hi x \<noteq> unat s" if x: "x \<in> set xs" for x
  proof -
    obtain zs z where z: "xs = zs @ [z]" using x by (cases xs rule: rev_cases) auto
    have "hi z \<noteq> unat s" using assms(5) by (simp add: touches_def z word_unat_eq_iff)
    moreover have "hi x < hi z" if "x \<noteq> z"
      using assms(1) x that less [of z] by (auto simp: wf_ranges_append z)
    ultimately show ?thesis using assms(2) by (cases "x = z") (auto simp: z)
  qed
  have 2: "lo y \<noteq> unat e" if y: "y \<in> set ys" for y
  proof -
    obtain zs z where z: "ys = z # zs" using y by (cases ys) auto
    have "lo z \<noteq> unat e" using assms(5) by (simp add: touches_def z word_unat_eq_iff)
    moreover have "lo z < lo y" if "y \<noteq> z"
      using assms(1) y that less [of z] by (auto simp: wf_ranges_append z)
    ultimately show ?thesis using assms(3) by (cases "y = z") (auto simp: z)
  qed
  have 3: "lo x < unat e" if x: "x \<in> set xs" for x
    using bspec [OF assms(2) x] less [of x] x assms(4) by simp
  have 4: "unat s < hi y" if y: "y \<in> set ys" for y
    using bspec [OF assms(3) y] less [of y] y assms(4) by simp
  show ?thesis
  proof (intro conjI notI)
    assume "unat s \<in> hi ` set (xs @ ys)"
    then obtain r where "r \<in> set xs \<or> r \<in> set ys" "unat s = hi r"
      by (elim imageE) simp
    then show False using 1 [of r] 4 [of r] by (elim disjE) simp_all
  next
    assume "unat e \<in> lo ` set (xs @ ys)"
    then obtain r where "r \<in> set xs \<or> r \<in> set ys" "unat e = lo r"
      by (elim imageE) simp
    then show False using 2 [of r] 3 [of r] by (elim disjE) simp_all
  qed
qed

lemma merge_free_full:
  assumes "index \<le> pm_free_len m" and "pm_free_len m \<le> length (pm_free m)"
    and "\<not> touches (take index (free_list m)) (drop index (free_list m)) s e"
    and "pm_free_len m = length (pm_free m)"
  shows "merge_free m index s e = (m, Inl Capacity)"
  using free_list_neighbours [OF assms(1,2)] assms(3,4)
  by (auto simp: touches_def merge_free_def insert_free_def)

section \<open>Allocation\<close>

lemma is_power_of_two_page: "is_power_of_two PAGE_SIZE"
  unfolding is_power_of_two_iff PAGE_SIZE_def by (intro exI [of _ 12]) simp

lemma unat_PAGE_SIZE [simp]: "unat PAGE_SIZE = 4096"
  by (simp add: PAGE_SIZE_def)

text \<open>The first range that holds an aligned block of the requested size.\<close>

definition candidate :: "region \<Rightarrow> u64 \<Rightarrow> u64 \<Rightarrow> (u64 \<times> u64) option" where
  "candidate r bsize alignment =
     (case align_up (r_start r) alignment of
        None \<Rightarrow> None
      | Some s \<Rightarrow> (case checked_add s bsize of
                     None \<Rightarrow> None
                   | Some e \<Rightarrow> if r_end r < e then None else Some (s, e)))"

lemma alloc_scan_step:
  "alloc_scan m bsize alignment (index # rest) =
     (case candidate (pm_free m ! index) bsize alignment of
        None \<Rightarrow> alloc_scan m bsize alignment rest
      | Some (s, e) \<Rightarrow>
          (if r_start (pm_free m ! index) < s \<and> e < r_end (pm_free m ! index) \<and>
              pm_free_len m = length (pm_free m) then (m, Inl Capacity)
           else case split_free m index (pm_free m ! index) s e of
                  (m', Inl err) \<Rightarrow> (m', Inl err)
                | (m', Inr _) \<Rightarrow>
                    (m'\<lparr>pm_free_bytes := pm_free_bytes m' - bsize\<rparr>, Inr (Some s))))"
  by (simp add: candidate_def Let_def split: option.split)

lemma candidate_Some:
  assumes "candidate r bsize alignment = Some (s, e)" and "is_power_of_two alignment"
    and "0 < unat bsize"
  shows "fits r s e" and "unat alignment dvd unat s" and "unat e = unat s + unat bsize"
proof -
  have pos: "0 < unat alignment" using assms(2) by (rule is_power_of_two_pos)
  from assms(1) have a: "align_up (r_start r) alignment = Some s" "checked_add s bsize = Some e"
      "unat e \<le> hi r"
    by (auto simp: candidate_def word_nat split: option.splits if_splits)
  then have s: "unat s = round_up (lo r) (unat alignment)"
    using assms(2) by (simp add: align_up_eq_Some)
  show e: "unat e = unat s + unat bsize" using a(2) by (simp add: word_nat)
  show "unat alignment dvd unat s" using s round_up_dvd by simp
  show "fits r s e" using s e a(3) round_up_ge [OF pos, of "lo r"] assms(3) by (simp add: fits_def)
qed

lemma candidate_None:
  assumes "candidate r bsize alignment = None" and "is_power_of_two alignment"
    and "lo r \<le> a" and "a + unat bsize \<le> hi r" and "unat alignment dvd a"
  shows "False"
proof -
  have pos: "0 < unat alignment" using assms(2) by (rule is_power_of_two_pos)
  have ru: "round_up (lo r) (unat alignment) \<le> a"
    using assms(3,5) pos by (intro round_up_least)
  have bound: "hi r < 2 ^ 64" using unsigned_less [of "r_end r"] by simp
  show False
  proof (cases "align_up (r_start r) alignment")
    case None
    then have big: "2 ^ 64 \<le> lo r + (unat alignment - 1)"
      using assms(2) by (simp add: align_up_eq_None)
    obtain k where k: "k < 64" "unat alignment = 2 ^ k"
      using assms(2) by (auto simp: is_power_of_two_iff unat_two_power)
    have "(2::nat) ^ k dvd 2 ^ 64" using k(1) by (intro le_imp_power_dvd) simp
    then have "unat alignment dvd 2 ^ 64 - a"
      using assms(5) k(2) by (intro dvd_diff_nat) simp_all
    moreover have "0 < 2 ^ 64 - a" using bound assms(4) by simp
    ultimately have "unat alignment \<le> 2 ^ 64 - a" by (intro dvd_imp_le)
    with big assms(3) pos show False by linarith
  next
    case (Some s)
    then have s: "unat s = round_up (lo r) (unat alignment)"
      using assms(2) by (simp add: align_up_eq_Some)
    have "unat s + unat bsize < 2 ^ 64" using s ru assms(4) bound by linarith
    then obtain e where e: "checked_add s bsize = Some e"
      by (cases "checked_add s bsize") (auto simp: checked_add_eq_None)
    then have "unat e \<le> hi r" using s ru assms(4) by (simp add: word_nat)
    with Some e assms(1) show False
      by (simp add: candidate_def word_le_nat_alt word_less_nat_alt)
  qed
qed

lemma alloc_scan_cases:
  assumes "alloc_scan m bsize alignment is = (m', res)"
    and "\<forall>i\<in>set is. i < pm_free_len m" and "pm_free_len m \<le> length (pm_free m)"
  obtains (none) "res = Inr None" "m' = m"
      "\<forall>i\<in>set is. candidate (pm_free m ! i) bsize alignment = None"
  | (full) "res = Inl Capacity" "m' = m" "pm_free_len m = length (pm_free m)"
  | (some) i s e m1 where "i < pm_free_len m" "candidate (pm_free m ! i) bsize alignment = Some (s, e)"
      "split_free m i (pm_free m ! i) s e = (m1, Inr ())" "same_rest m m1"
      "pm_free_len m1 \<le> length (pm_free m1)" "free_list m1 = carve (free_list m) i s e"
      "res = Inr (Some s)" "m' = m1\<lparr>pm_free_bytes := pm_free_bytes m1 - bsize\<rparr>"
  using assms
proof (induction "is" arbitrary: thesis)
  case Nil
  then show ?case by simp
next
  case (Cons i rest)
  show ?case
  proof (cases "candidate (pm_free m ! i) bsize alignment")
    case None
    with Cons.prems(4) have "alloc_scan m bsize alignment rest = (m', res)"
      by (simp only: alloc_scan_step option.case)
    then show ?thesis
      using Cons.prems None by (elim Cons.IH [rotated 3]) auto
  next
    case (Some se)
    obtain s e where se: "se = (s, e)" by fastforce
    have i: "i < pm_free_len m" using Cons.prems(5) by simp
    show ?thesis
    proof (cases "r_start (pm_free m ! i) < s \<and> e < r_end (pm_free m ! i) \<and>
        pm_free_len m = length (pm_free m)")
      case True
      with Cons.prems(4) Some se show ?thesis
        by (intro Cons.prems(2)) (simp_all add: alloc_scan_step del: alloc_scan.simps)
    next
      case False
      obtain m1 where m1: "split_free m i (pm_free m ! i) s e = (m1, Inr ())" "same_rest m m1"
        "pm_free_len m1 \<le> length (pm_free m1)" "free_list m1 = carve (free_list m) i s e"
        using split_free_spec [OF i Cons.prems(6) refl False] .
      with False Cons.prems(4) Some se
      have "res = Inr (Some s)" "m' = m1\<lparr>pm_free_bytes := pm_free_bytes m1 - bsize\<rparr>"
        by (auto simp add: alloc_scan_step simp del: alloc_scan.simps)
      with i Some se m1 show ?thesis by (intro Cons.prems(3)) simp_all
    qed
  qed
qed

lemma page_multiple:
  assumes "checked_mul a PAGE_SIZE = Some b"
  shows "unat b = unat a * 4096" and "is_power_of_two a \<Longrightarrow> is_power_of_two b"
proof -
  show b: "unat b = unat a * 4096" using assms by (simp add: word_nat)
  show "is_power_of_two a \<Longrightarrow> is_power_of_two b"
    using b by (intro is_power_of_two_scale [of a b 12]) simp_all
qed

lemma page_aligned_carve:
  assumes "page_aligned rs" and "i < length rs" and "4096 dvd unat s" and "4096 dvd unat e"
  shows "page_aligned (carve rs i s e)"
proof -
  have "rs ! i \<in> set rs" using assms(2) by simp
  then show ?thesis
    using assms
    by (auto simp: page_aligned_def carve_def left_piece_def right_piece_def
        dest: in_set_takeD in_set_dropD)
qed

lemma page_aligned_coalesce:
  assumes "page_aligned (xs @ ys)" and "4096 dvd unat s" and "4096 dvd unat e"
  shows "page_aligned (coalesce xs ys s e)"
  using assms
  by (auto simp: page_aligned_def coalesce_def merge_left_def merge_right_def
      dest: in_set_butlastD list.set_sel(2))

definition block :: "u64 \<Rightarrow> u64 \<Rightarrow> nat set" where
  "block s pages = {unat s..<unat s + unat pages * 4096}"

text \<open>Every outcome of \<open>allocate_pages\<close>, with the state it leaves.\<close>

lemma allocate_pages_cases:
  assumes inv: "pm_inv m" and alloc: "allocate_pages m pages align_pages = (m', res)"
  obtains (invalid) "res = Inl InvalidRequest" "m' = m"
      "pages = 0 \<or> \<not> is_power_of_two align_pages"
  | (overflow) "res = Inl Overflow" "m' = m"
      "2 ^ 64 \<le> unat pages * 4096 \<or> 2 ^ 64 \<le> unat align_pages * 4096"
  | (full) "res = Inl Capacity" "m' = m" "pm_free_len m = length (pm_free m)"
  | (none) "res = Inr None" "m' = m"
      "\<forall>a. unat align_pages * 4096 dvd a \<longrightarrow> \<not> {a..<a + unat pages * 4096} \<subseteq> free_addrs m"
  | (some) s where "res = Inr (Some s)" "unat align_pages * 4096 dvd unat s"
      "block s pages \<subseteq> free_addrs m" "free_addrs m' = free_addrs m - block s pages"
      "pages \<noteq> 0" "unat (pm_free_bytes m') + unat pages * 4096 = unat (pm_free_bytes m)"
      "managed_list m' = managed_list m" "pm_total_bytes m' = pm_total_bytes m" "pm_inv m'"
      "length (pm_free m') = length (pm_free m)"
proof (cases "pages = 0 \<or> \<not> is_power_of_two align_pages")
  case True
  then show ?thesis
    using alloc by (intro invalid) (auto simp: allocate_pages_def)
next
  case False
  then have pow: "is_power_of_two align_pages" "align_pages \<noteq> 0" "0 < unat pages"
    using is_power_of_two_pos [of align_pages] by (auto simp: unat_gt_0)
  show ?thesis
  proof (cases "checked_mul pages PAGE_SIZE = None \<or> checked_mul align_pages PAGE_SIZE = None")
    case True
    with False pow alloc have "res = Inl Overflow" "m' = m"
      by (auto simp: allocate_pages_def split: option.splits)
    with True show ?thesis by (intro overflow) (auto simp: checked_mul_eq_None)
  next
    case nowrap: False
    then obtain bsize alignment where sz: "checked_mul pages PAGE_SIZE = Some bsize"
      "checked_mul align_pages PAGE_SIZE = Some alignment" by auto
    note ub = page_multiple(1) [OF sz(1)] and ua = page_multiple(1) [OF sz(2)]
    have pa: "is_power_of_two alignment" using page_multiple(2) [OF sz(2)] pow by simp
    have scan: "alloc_scan m bsize alignment [0..<pm_free_len m] = (m', res)"
      using alloc False pow sz by (simp add: allocate_pages_def)
    have len: "pm_free_len m \<le> length (pm_free m)" and wf: "wf_ranges (free_list m)"
      using inv by (simp_all add: pm_inv_def)
    show ?thesis
    proof (rule alloc_scan_cases [OF scan _ len])
      show "\<forall>i\<in>set [0..<pm_free_len m]. i < pm_free_len m" by simp
    next
      assume "res = Inr None" "m' = m"
        and c: "\<forall>i\<in>set [0..<pm_free_len m]. candidate (pm_free m ! i) bsize alignment = None"
      then show ?thesis
      proof (intro none allI impI notI)
        fix a assume a: "unat align_pages * 4096 dvd a" "{a..<a + unat pages * 4096} \<subseteq> free_addrs m"
        then obtain i where "i < length (free_list m)" "lo (free_list m ! i) \<le> a"
          "a + unat pages * 4096 \<le> hi (free_list m ! i)"
          using interval_in_one_range [OF wf, of a "a + unat pages * 4096"] pow(3)
          by (auto simp: free_addrs_def)
        then show False
          using candidate_None [OF _ pa, of "pm_free m ! i" bsize a] c a(1) ua ub len
          by (simp add: nth_free_list)
      qed
    next
      assume "res = Inl Capacity" "m' = m" "pm_free_len m = length (pm_free m)"
      then show ?thesis by (rule full)
    next
      fix i s e m1
      assume i: "i < pm_free_len m" and cand: "candidate (pm_free m ! i) bsize alignment = Some (s, e)"
        and rest: "same_rest m m1" and len1: "pm_free_len m1 \<le> length (pm_free m1)"
        and F1: "free_list m1 = carve (free_list m) i s e"
        and res: "res = Inr (Some s)" and m': "m' = m1\<lparr>pm_free_bytes := pm_free_bytes m1 - bsize\<rparr>"
      have iF: "i < length (free_list m)" "free_list m ! i = pm_free m ! i"
        using i len by (simp_all add: nth_free_list)
      have "0 < unat bsize" using ub pow(3) by simp
      note C = candidate_Some [OF cand pa this]
      have fits: "fits (free_list m ! i) s e" using C(1) iF by simp
      note carve = carve_correct [OF wf iF(1) fits]
      have blk: "block s pages = {unat s..<unat e}" using C(3) ub by (simp add: block_def)
      have F': "free_list m' = carve (free_list m) i s e"
        using F1 m' by (simp add: free_list_def)
      have M': "managed_list m' = managed_list m"
        using rest m' by (simp add: managed_list_def same_rest_def)
      have sub: "block s pages \<subseteq> free_addrs m"
        using fits_subset [OF iF(1) fits] blk by (simp add: free_addrs_def)
      have aligned: "4096 dvd unat s" "4096 dvd unat e"
        using C(2,3) ua ub by (auto intro: dvd_trans [of 4096 "unat align_pages * 4096"])
      have le: "unat bsize \<le> unat (pm_free_bytes m)"
        using carve(3) C(3) inv by (simp add: pm_inv_def)
      have fb: "unat (pm_free_bytes m') = unat (pm_free_bytes m) - unat bsize"
        using le rest m' by (simp add: same_rest_def unat_sub word_le_nat_alt)
      have inv': "pm_inv m'"
        using inv rest len1 m' carve page_aligned_carve [OF _ iF(1) aligned] fb C(3)
        unfolding pm_inv_def F' M' by (auto simp: same_rest_def)
      show ?thesis
        using carve(2) C(2) ua ub le fb res sub inv' M' blk F' m' rest pow(3) inv
        by (intro some) (auto simp: free_addrs_def same_rest_def)
    qed
  qed
qed

section \<open>Freeing\<close>

lemma is_managed_iff:
  assumes "pm_inv m" and "unat s < unat e"
  shows "is_managed m s e \<longleftrightarrow> {unat s..<unat e} \<subseteq> addrs (managed_list m)"
proof
  assume "is_managed m s e"
  then show "{unat s..<unat e} \<subseteq> addrs (managed_list m)"
    unfolding is_managed_def managed_list_def addrs_def list_ex_iff
    by (auto simp: word_nat intro: rev_bexI)
next
  assume sub: "{unat s..<unat e} \<subseteq> addrs (managed_list m)"
  have "wf_ranges (managed_list m)" using assms(1) by (simp add: pm_inv_def)
  from interval_in_one_range [OF this sub assms(2)] obtain i
    where "i < length (managed_list m)" "lo (managed_list m ! i) \<le> unat s"
      "unat e \<le> hi (managed_list m ! i)" by blast
  then show "is_managed m s e"
    unfolding is_managed_def managed_list_def [symmetric] list_ex_iff
    by (intro bexI [of _ "managed_list m ! i"]) (simp_all add: word_nat)
qed

lemma dvd_page_iff: "w mod PAGE_SIZE = 0 \<longleftrightarrow> 4096 dvd unat w"
  by (simp add: word_unat_eq_iff unat_mod dvd_eq_mod_eq_0)

lemma free_slot:
  assumes inv: "pm_inv m" and se: "unat s < unat e"
  defines "index \<equiv> find_slot (pm_free m) (pm_free_len m) s 0"
  shows "(0 < index \<and> s < r_end (pm_free m ! (index - 1)) \<or>
      index < pm_free_len m \<and> r_start (pm_free m ! index) < e) \<longleftrightarrow>
      {unat s..<unat e} \<inter> free_addrs m \<noteq> {}"
    and "index \<le> pm_free_len m"
    and "{unat s..<unat e} \<inter> free_addrs m = {} \<Longrightarrow>
      (\<forall>x\<in>set (take index (free_list m)). hi x \<le> unat s) \<and>
      (\<forall>y\<in>set (drop index (free_list m)). unat e \<le> lo y)"
proof -
  have wf: "wf_ranges (take (pm_free_len m) (pm_free m))" and len: "pm_free_len m \<le> length (pm_free m)"
    using inv by (simp_all add: pm_inv_def free_list_def)
  note split = find_slot_split [OF wf len index_def [THEN meta_eq_to_obj_eq] se]
  show "(0 < index \<and> s < r_end (pm_free m ! (index - 1)) \<or>
      index < pm_free_len m \<and> r_start (pm_free m ! index) < e) \<longleftrightarrow>
      {unat s..<unat e} \<inter> free_addrs m \<noteq> {}"
    using split(2) by (simp only: free_addrs_def free_list_def)
  show "index \<le> pm_free_len m"
    using find_slot_sides(1) [OF wf len index_def [THEN meta_eq_to_obj_eq]] .
  show "{unat s..<unat e} \<inter> free_addrs m = {} \<Longrightarrow>
      (\<forall>x\<in>set (take index (free_list m)). hi x \<le> unat s) \<and>
      (\<forall>y\<in>set (drop index (free_list m)). unat e \<le> lo y)"
    unfolding free_addrs_def free_list_def by (rule split(1))
qed

text \<open>The end of \<open>free_pages\<close>, once all its checks have passed.\<close>

definition free_insert ::
  "physical_memory \<Rightarrow> nat \<Rightarrow> u64 \<Rightarrow> u64 \<Rightarrow> u64 \<Rightarrow> physical_memory \<times> (pm_error + unit)" where
  "free_insert m index s e bsize =
     (case merge_free m index s e of
        (m', Inl err) \<Rightarrow> (m', Inl err)
      | (m', Inr _) \<Rightarrow>
          (case checked_add (pm_free_bytes m') bsize of
             None \<Rightarrow> (m', Inl Overflow)
           | Some new_bytes \<Rightarrow>
               (let m'' = m'\<lparr>pm_free_bytes := new_bytes\<rparr>
                in if pm_total_bytes m'' < pm_free_bytes m''
                   then (m'', Inl InvalidFree) else (m'', Inr ()))))"

lemma free_insert_cases:
  assumes inv: "pm_inv m" and se: "unat s < unat e"
    and sub: "{unat s..<unat e} \<subseteq> addrs (managed_list m)"
    and disj: "{unat s..<unat e} \<inter> free_addrs m = {}"
    and aligned: "4096 dvd unat s" "4096 dvd unat e" and ub: "unat bsize = unat e - unat s"
    and run: "(m', res) = free_insert m (find_slot (pm_free m) (pm_free_len m) s 0) s e bsize"
  obtains (full) "res = Inl Capacity" "m' = m" "pm_free_len m = length (pm_free m)"
      "unat s \<notin> hi ` set (free_list m)" "unat e \<notin> lo ` set (free_list m)"
  | (ok) "res = Inr ()" "free_addrs m' = free_addrs m \<union> {unat s..<unat e}"
      "unat (pm_free_bytes m') = unat (pm_free_bytes m) + unat bsize"
      "managed_list m' = managed_list m" "pm_total_bytes m' = pm_total_bytes m" "pm_inv m'"
proof -
  define index where "index = find_slot (pm_free m) (pm_free_len m) s 0"
  let ?xs = "take index (free_list m)" and ?ys = "drop index (free_list m)"
  have len: "pm_free_len m \<le> length (pm_free m)" and wf: "wf_ranges (?xs @ ?ys)"
    and al: "page_aligned (?xs @ ?ys)"
    using inv by (simp_all add: pm_inv_def)
  have il: "index \<le> pm_free_len m" using free_slot(2) [OF inv se] by (simp add: index_def)
  have sep: "\<forall>x\<in>set ?xs. hi x \<le> unat s" "\<forall>y\<in>set ?ys. unat e \<le> lo y"
    using free_slot(3) [OF inv se disj] by (simp_all add: index_def)
  show ?thesis
  proof (cases "touches ?xs ?ys s e \<or> pm_free_len m < length (pm_free m)")
    case False
    then have "free_insert m index s e bsize = (m, Inl Capacity)"
      using merge_free_full [OF il len] len by (simp add: free_insert_def)
    moreover have "unat s \<notin> hi ` set (?xs @ ?ys) \<and> unat e \<notin> lo ` set (?xs @ ?ys)"
      using False untouched [OF wf sep se] by blast
    ultimately show ?thesis
      using run False len by (intro full) (auto simp: index_def)
  next
    case True
    obtain m1 where m1: "merge_free m index s e = (m1, Inr ())" "same_rest m m1"
      "pm_free_len m1 \<le> length (pm_free m1)" "free_list m1 = coalesce ?xs ?ys s e"
      using merge_free_spec [OF il len True] .
    note co = coalesce_correct [OF wf se sep]
    have F1: "addrs (free_list m1) = free_addrs m \<union> {unat s..<unat e}"
      "bytes (free_list m1) = bytes (free_list m) + unat bsize"
      using co(2,3) m1(4) ub by (simp_all add: free_addrs_def)
    have M1: "managed_list m1 = managed_list m" using m1(2) by (simp add: same_rest_def managed_list_def)
    have le: "bytes (free_list m1) \<le> unat (pm_total_bytes m)"
      using bytes_mono [of "free_list m1" "managed_list m"] co(1) F1(1) m1(4) sub inv
      by (auto simp: pm_inv_def free_addrs_def)
    have fb: "unat (pm_free_bytes m1) + unat bsize = bytes (free_list m1)"
      using F1(2) m1(2) inv by (simp add: pm_inv_def same_rest_def)
    then obtain nb where nb: "checked_add (pm_free_bytes m1) bsize = Some nb"
      using le unat_below [of "pm_total_bytes m"] by (cases "checked_add (pm_free_bytes m1) bsize")
        (auto simp: checked_add_eq_None)
    then have unb: "unat nb = bytes (free_list m1)" using fb by (simp add: word_nat)
    have fin: "m' = m1\<lparr>pm_free_bytes := nb\<rparr>" "res = Inr ()"
      using run m1(1,2) nb le unb
      by (auto simp: free_insert_def index_def [symmetric] same_rest_def word_less_nat_alt Let_def)
    have F': "free_list m' = free_list m1" "managed_list m' = managed_list m"
      using fin M1 by (simp_all add: free_list_def managed_list_def)
    have "page_aligned (free_list m1)" using page_aligned_coalesce [OF al aligned] m1(4) by simp
    then have "pm_inv m'"
      using inv m1(2,3) co(1) F1 sub unb fin(1) m1(4) unfolding pm_inv_def F'
      by (auto simp: same_rest_def free_addrs_def)
    with fin F1 F' fb unb m1(2) show ?thesis
      by (intro ok) (auto simp: free_addrs_def same_rest_def)
  qed
qed

lemma free_pages_checked:
  assumes inv: "pm_inv m" and ok: "pages \<noteq> 0" "\<not> s < PAGE_SIZE" "s mod PAGE_SIZE = 0"
    and sz: "checked_mul pages PAGE_SIZE = Some bsize" and e: "checked_add s bsize = Some e"
    and ae: "e mod PAGE_SIZE = 0" and se: "unat s < unat e"
  shows "free_pages m s pages =
    (if {unat s..<unat e} \<subseteq> addrs (managed_list m) \<and> {unat s..<unat e} \<inter> free_addrs m = {}
     then free_insert m (find_slot (pm_free m) (pm_free_len m) s 0) s e bsize
     else (m, Inl InvalidFree))"
proof -
  let ?i = "find_slot (pm_free m) (pm_free_len m) s 0"
  have "free_pages m s pages =
    (if \<not> is_managed m s e then (m, Inl InvalidFree)
     else if 0 < ?i \<and> s < r_end (pm_free m ! (?i - 1)) \<or>
       ?i < pm_free_len m \<and> r_start (pm_free m ! ?i) < e then (m, Inl InvalidFree)
     else free_insert m ?i s e bsize)"
    using ok sz e ae by (simp add: free_pages_def free_insert_def Let_def)
  then show ?thesis
    unfolding is_managed_iff [OF inv se] free_slot(1) [OF inv se] by simp
qed

lemma free_pages_cases:
  assumes inv: "pm_inv m" and "free": "free_pages m s pages = (m', res)"
  obtains (invalid) "res = Inl InvalidFree" "m' = m"
      "pages = 0 \<or> \<not> 4096 dvd unat s \<or> \<not> block s pages \<subseteq> addrs (managed_list m) \<or>
       block s pages \<inter> free_addrs m \<noteq> {}"
  | (overflow) "res = Inl Overflow" "m' = m" "2 ^ 64 \<le> unat s + unat pages * 4096"
  | (full) "res = Inl Capacity" "m' = m" "pm_free_len m = length (pm_free m)"
      "unat s \<notin> hi ` set (free_list m)" "unat s + unat pages * 4096 \<notin> lo ` set (free_list m)"
  | (ok) "res = Inr ()" "pages \<noteq> 0" "4096 dvd unat s" "block s pages \<subseteq> addrs (managed_list m)"
      "block s pages \<inter> free_addrs m = {}" "free_addrs m' = free_addrs m \<union> block s pages"
      "unat (pm_free_bytes m') = unat (pm_free_bytes m) + unat pages * 4096"
      "managed_list m' = managed_list m" "pm_total_bytes m' = pm_total_bytes m" "pm_inv m'"
proof (cases "pages = 0 \<or> s < PAGE_SIZE \<or> s mod PAGE_SIZE \<noteq> 0")
  case True
  have "\<not> block s pages \<subseteq> addrs (managed_list m)" if "s < PAGE_SIZE" "pages \<noteq> 0"
  proof -
    have "0 < unat pages" using that(2) by (simp add: unat_gt_0)
    then have "unat s \<in> block s pages" by (simp add: block_def)
    moreover have "unat s \<in> {0..<4096}" using that(1) by (simp add: word_less_nat_alt)
    moreover have "addrs (managed_list m) \<inter> {0..<4096} = {}" using inv by (simp add: pm_inv_def)
    ultimately show ?thesis by blast
  qed
  moreover have "free_pages m s pages = (m, Inl InvalidFree)"
    using True by (simp add: free_pages_def)
  ultimately show ?thesis
    using True "free" by (intro invalid) (auto simp: dvd_page_iff)
next
  case False
  then have p: "0 < unat pages" "4096 dvd unat s" by (auto simp: dvd_page_iff unat_gt_0)
  show ?thesis
  proof (cases "checked_mul pages PAGE_SIZE")
    case None
    then have "free_pages m s pages = (m, Inl Overflow)" using False by (simp add: free_pages_def)
    with None "free" show ?thesis by (intro overflow) (simp_all add: checked_mul_eq_None)
  next
    case sz: (Some bsize)
    note ub = page_multiple(1) [OF sz]
    show ?thesis
    proof (cases "checked_add s bsize")
      case None
      then have "free_pages m s pages = (m, Inl Overflow)"
        using False sz by (simp add: free_pages_def)
      with None "free" ub show ?thesis by (intro overflow) (simp_all add: checked_add_eq_None)
    next
      case e: (Some e)
      then have ue: "unat e = unat s + unat pages * 4096" using ub by (simp add: word_nat)
      then have se: "unat s < unat e" and blk: "block s pages = {unat s..<unat e}"
        and ae: "e mod PAGE_SIZE = 0"
        using p by (auto simp: block_def dvd_page_iff)
      have run: "(m', res) =
        (if block s pages \<subseteq> addrs (managed_list m) \<and> block s pages \<inter> free_addrs m = {}
         then free_insert m (find_slot (pm_free m) (pm_free_len m) s 0) s e bsize
         else (m, Inl InvalidFree))"
        using "free" free_pages_checked [OF inv _ _ _ sz e ae se] False unfolding blk by simp
      show ?thesis
      proof (cases "block s pages \<subseteq> addrs (managed_list m) \<and> block s pages \<inter> free_addrs m = {}")
        case bad: False
        with run have "m' = m" "res = Inl InvalidFree" by simp_all
        with bad show ?thesis by (intro invalid) simp_all
      next
        case good: True
        have al: "4096 dvd unat e" and bs: "unat bsize = unat e - unat s"
          using ae ub ue by (simp_all add: dvd_page_iff)
        from good have sub: "{unat s..<unat e} \<subseteq> addrs (managed_list m)"
          and disj: "{unat s..<unat e} \<inter> free_addrs m = {}" unfolding blk by simp_all
        have "(m', res) = free_insert m (find_slot (pm_free m) (pm_free_len m) s 0) s e bsize"
          using run good by simp
        then show ?thesis
        proof (cases rule: free_insert_cases [OF inv se sub disj p(2) al bs, consumes 1])
          case 1
          then show ?thesis using ue by (intro full) simp_all
        next
          case 2
          then show ?thesis using good False p ub blk by (intro ok) simp_all
        qed
      qed
    qed
  qed
qed

section \<open>Construction\<close>

text \<open>While the map is read, the managed and the free ranges are the same.\<close>

definition fresh :: "physical_memory \<Rightarrow> bool" where
  "fresh m \<longleftrightarrow> pm_inv m \<and> pm_free m = pm_managed m \<and> pm_free_len m = pm_managed_len m"

definition page_span :: "region \<Rightarrow> nat set" where
  "page_span r = {round_up (max (lo r) 4096) 4096..<hi r div 4096 * 4096}"

text \<open>A map that is well formed: no reversed range, sorted and without overlap.\<close>

fun map_ok :: "nat \<Rightarrow> region list \<Rightarrow> bool" where
  "map_ok previous_end [] = True"
| "map_ok previous_end (r # rs) =
     (previous_end \<le> lo r \<and> lo r \<le> hi r \<and> map_ok (hi r) rs)"

lemma freshD:
  assumes "fresh m"
  shows "pm_inv m" and "pm_free m = pm_managed m" and "pm_free_len m = pm_managed_len m"
    and "pm_managed_len m \<le> length (pm_managed m)"
    and "free_list m = managed_list m" and "wf_ranges (managed_list m)"
    and "page_aligned (managed_list m)" and "addrs (managed_list m) \<inter> {0..<4096} = {}"
    and "unat (pm_total_bytes m) = bytes (managed_list m)"
    and "unat (pm_free_bytes m) = bytes (managed_list m)"
proof -
  show inv: "pm_inv m" and eq: "pm_free m = pm_managed m" "pm_free_len m = pm_managed_len m"
    using assms unfolding fresh_def by blast+
  show same: "free_list m = managed_list m" unfolding free_list_def managed_list_def eq ..
  show "pm_managed_len m \<le> length (pm_managed m)" "wf_ranges (managed_list m)"
    "page_aligned (managed_list m)" "addrs (managed_list m) \<inter> {0..<4096} = {}"
    "unat (pm_total_bytes m) = bytes (managed_list m)"
    "unat (pm_free_bytes m) = bytes (managed_list m)"
    using inv unfolding pm_inv_def same by blast+
qed

lemma fresh_empty: "fresh (pm_empty N)"
  by (simp add: fresh_def pm_empty_def pm_inv_def free_list_def managed_list_def page_aligned_def)

lemma push_initial_lists:
  assumes len: "pm_managed_len m \<le> length (pm_managed m)"
    and same: "pm_free m = pm_managed m" "pm_free_len m = pm_managed_len m"
    and room: "touches (managed_list m) [] (r_start r) (r_end r) \<or>
      pm_managed_len m < length (pm_managed m)"
  obtains m1 where "pm_free m1 = pm_managed m1" "pm_free_len m1 = pm_managed_len m1"
    "length (pm_managed m1) = length (pm_managed m)" "pm_managed_len m1 \<le> length (pm_managed m1)"
    "pm_managed_len m1 \<le> Suc (pm_managed_len m)"
    "managed_list m1 = coalesce (managed_list m) [] (r_start r) (r_end r)"
    "pm_total_bytes m1 = pm_total_bytes m" "pm_free_bytes m1 = pm_free_bytes m"
    "push_initial m r = count_initial m1 (r_end r - r_start r)"
proof (cases "0 < pm_managed_len m \<and> r_end (pm_managed m ! (pm_managed_len m - 1)) = r_start r")
  case True
  let ?k = "pm_managed_len m - 1"
  let ?a = "(pm_managed m)[?k := (pm_managed m ! ?k)\<lparr>r_end := r_end r\<rparr>]"
  let ?m1 = "m\<lparr>pm_managed := ?a, pm_free := ?a\<rparr>"
  have k: "?k < pm_managed_len m" using True by simp
  have last: "managed_list m \<noteq> []" "last (managed_list m) = pm_managed m ! ?k"
    "butlast (managed_list m) = take ?k (pm_managed m)"
    using True len by (auto simp: managed_list_def last_take_nth butlast_take)
  have "managed_list ?m1 = take ?k (pm_managed m) @ [(pm_managed m ! ?k)\<lparr>r_end := r_end r\<rparr>]"
    using True len take_update_split [OF k len] by (simp add: managed_list_def)
  also have "\<dots> = coalesce (managed_list m) [] (r_start r) (r_end r)"
    using True last by (simp add: coalesce_def merge_left_def merge_right_def)
  finally show ?thesis
    using True len same
    by (intro that [of ?m1]) (simp_all add: push_initial_def Let_def)
next
  case False
  let ?a = "(pm_managed m)[pm_managed_len m := r]"
  let ?m1 = "m\<lparr>pm_managed := ?a, pm_managed_len := pm_managed_len m + 1,
      pm_free := ?a, pm_free_len := pm_managed_len m + 1\<rparr>"
  have nl: "\<not> (managed_list m \<noteq> [] \<and> r_end (last (managed_list m)) = r_start r)"
    using False len by (auto simp: managed_list_def last_take_nth)
  then have less: "pm_managed_len m < length (pm_managed m)"
    using room by (auto simp: touches_def)
  have "managed_list ?m1 = managed_list m @ [r]"
    using less by (simp add: managed_list_def take_Suc_conv_app_nth)
  also have "\<dots> = coalesce (managed_list m) [] (r_start r) (r_end r)"
    using nl by (auto simp: coalesce_def merge_left_def merge_right_def)
  finally show ?thesis
    using False less same
    by (intro that [of ?m1]) (auto simp: push_initial_def Let_def)
qed

lemma push_initial_cases:
  assumes fresh: "fresh m" and r: "lo r < hi r" "4096 dvd lo r" "4096 dvd hi r" "4096 \<le> lo r"
    and above: "\<forall>x\<in>set (managed_list m). hi x \<le> lo r"
    and run: "push_initial m r = (m', res)"
  obtains (full) "res = Inl Capacity" "pm_managed_len m = length (pm_managed m)"
  | (ok) "res = Inr ()" "fresh m'" "length (pm_managed m') = length (pm_managed m)"
      "pm_managed_len m' \<le> Suc (pm_managed_len m)"
      "addrs (managed_list m') = addrs (managed_list m) \<union> {lo r..<hi r}"
      "\<forall>x\<in>set (managed_list m'). hi x \<le> hi r"
proof (cases "touches (managed_list m) [] (r_start r) (r_end r) \<or>
    pm_managed_len m < length (pm_managed m)")
  case False
  note inv = freshD(4) [OF fresh]
  have last: "managed_list m \<noteq> [] \<and> last (managed_list m) = pm_managed m ! (pm_managed_len m - 1)"
    if "0 < pm_managed_len m"
    using inv(1) that last_take_nth [OF that inv(1)] by (auto simp: managed_list_def)
  have "\<not> (0 < pm_managed_len m \<and> r_end (pm_managed m ! (pm_managed_len m - 1)) = r_start r)"
  proof
    assume a: "0 < pm_managed_len m \<and> r_end (pm_managed m ! (pm_managed_len m - 1)) = r_start r"
    then show False using False last unfolding touches_def by simp
  qed
  moreover from False have "pm_managed_len m = length (pm_managed m)" using inv(1) by simp
  ultimately have "push_initial m r = (m, Inl Capacity)"
    unfolding push_initial_def Let_def by auto
  with run \<open>pm_managed_len m = _\<close> show ?thesis by (intro full) simp_all
next
  case True
  let ?L = "managed_list m"
  note F = freshD(1-3) [OF fresh] and len = freshD(4) [OF fresh]
  obtain m1 where m1: "pm_free m1 = pm_managed m1" "pm_free_len m1 = pm_managed_len m1"
    "length (pm_managed m1) = length (pm_managed m)" "pm_managed_len m1 \<le> length (pm_managed m1)"
    "pm_managed_len m1 \<le> Suc (pm_managed_len m)"
    "managed_list m1 = coalesce ?L [] (r_start r) (r_end r)"
    "pm_total_bytes m1 = pm_total_bytes m" "pm_free_bytes m1 = pm_free_bytes m"
    and push: "push_initial m r = count_initial m1 (r_end r - r_start r)"
    using push_initial_lists [OF len F(2,3) True] .
  note low = freshD(8) [OF fresh] and bytes = freshD(9,10) [OF fresh]
  have wf: "wf_ranges (?L @ [])" and al: "page_aligned (?L @ [])"
    using freshD(6,7) [OF fresh] by simp_all
  have "\<forall>y\<in>set []. hi r \<le> lo y" by simp
  note co = coalesce_correct [OF wf r(1) above this]
  have "{lo r..<hi r} \<inter> {0..<4096} = {}" using r(4) by auto
  with low have low1: "addrs (managed_list m1) \<inter> {0..<4096} = {}"
    unfolding m1(6) co(2) append_Nil2 Int_Un_distrib2 by simp
  have "0 \<in> {0..<4096::nat}" by simp
  with low1 have "0 \<notin> addrs (managed_list m1)" by blast
  then have lt: "bytes (managed_list m1) < 2 ^ 64"
    using co(1) unfolding m1(6) by (intro bytes_less)
  have sz: "unat (r_end r - r_start r) = hi r - lo r" using r(1) by (simp add: unat_sub word_le_nat_alt)
  then have sum: "bytes ?L + unat (r_end r - r_start r) = bytes (managed_list m1)"
    using co(3) m1(6) by simp
  obtain nt where nt: "checked_add (pm_total_bytes m) (r_end r - r_start r) = Some nt"
    using lt sum bytes by (cases "checked_add (pm_total_bytes m) (r_end r - r_start r)")
      (simp_all add: checked_add_eq_None)
  have eq: "pm_free_bytes m = pm_total_bytes m" using bytes by (simp add: word_unat_eq_iff)
  have unt: "unat nt = bytes (managed_list m1)" using nt bytes sum by (simp add: word_nat)
  have m': "m' = m1\<lparr>pm_total_bytes := nt, pm_free_bytes := nt\<rparr>" and res: "res = Inr ()"
    using run push nt eq m1(7,8) by (simp_all add: count_initial_def)
  have L': "managed_list m' = managed_list m1" "free_list m' = managed_list m1"
    using m' m1(1,2) by (simp_all add: managed_list_def free_list_def)
  have al1: "page_aligned (managed_list m1)"
    using page_aligned_coalesce [OF al r(2,3)] m1(6) by simp
  have "pm_inv m'"
    using m1(1-4) co(1) al1 low1 unt unfolding pm_inv_def L' by (simp add: m' m1(6))
  then have "fresh m'" using m1(1,2) m' by (simp add: fresh_def)
  moreover have "\<forall>x\<in>set ?L. hi x \<le> hi r" using above r(1) by fastforce
  then have "\<forall>x\<in>set (managed_list m1). hi x \<le> hi r"
    using r(1) m1(6)
    by (auto simp: coalesce_def merge_left_def merge_right_def dest: in_set_butlastD)
  ultimately show ?thesis
    using res m1 co(2) L' m' by (intro ok) simp_all
qed

text \<open>Rounding a range of the map inwards to pages.\<close>

lemma page_span_words:
  assumes "align_up (max (r_start r) PAGE_SIZE) PAGE_SIZE = Some s"
  shows "4096 dvd unat s" and "4096 \<le> unat s" and "lo r \<le> unat s"
    and "4096 dvd unat (align_down (r_end r) PAGE_SIZE)"
    and "unat (align_down (r_end r) PAGE_SIZE) \<le> hi r"
    and "page_span r = {unat s..<unat (align_down (r_end r) PAGE_SIZE)}"
proof -
  have m: "unat (max (r_start r) PAGE_SIZE) = max (lo r) 4096"
    by (simp add: max_def word_le_nat_alt)
  have s: "unat s = round_up (max (lo r) 4096) 4096"
    using assms m by (simp add: align_up_eq_Some is_power_of_two_page)
  have e: "unat (align_down (r_end r) PAGE_SIZE) = hi r div 4096 * 4096"
    by (simp add: unat_align_down is_power_of_two_page)
  have ge: "max (lo r) 4096 \<le> unat s" unfolding s by (rule round_up_ge) simp
  show "4096 dvd unat s" unfolding s by (rule round_up_dvd)
  show "4096 \<le> unat s" and "lo r \<le> unat s" using ge by simp_all
  show "4096 dvd unat (align_down (r_end r) PAGE_SIZE)"
    and "unat (align_down (r_end r) PAGE_SIZE) \<le> hi r"
    unfolding e by simp_all
  show "page_span r = {unat s..<unat (align_down (r_end r) PAGE_SIZE)}"
    unfolding page_span_def s e ..
qed

lemma new_loop_ok:
  assumes "new_loop regions previous_end m = Inr m'" and "fresh m"
    and "\<forall>x\<in>set (managed_list m). hi x \<le> unat previous_end"
  shows "fresh m' \<and> length (pm_managed m') = length (pm_managed m) \<and>
    addrs (managed_list m') = addrs (managed_list m) \<union> (\<Union>r\<in>set regions. page_span r)"
  using assms
proof (induction regions previous_end m rule: new_loop.induct)
  case (1 previous_end m)
  then show ?case by simp
next
  case (2 r rs previous_end m)
  obtain s where ord: "\<not> r_end r < r_start r" "\<not> r_start r < previous_end"
    and s: "align_up (max (r_start r) PAGE_SIZE) PAGE_SIZE = Some s"
    using "2.prems"(1) by (auto split: if_splits option.splits)
  let ?e = "align_down (r_end r) PAGE_SIZE"
  note sp = page_span_words [OF s]
  have below: "\<forall>x\<in>set (managed_list m). hi x \<le> lo r" "\<forall>x\<in>set (managed_list m). hi x \<le> hi r"
    using "2.prems"(3) ord by (auto simp: word_less_nat_alt)
  show ?case
  proof (cases "?e \<le> s")
    case True
    then have "page_span r = {}" using sp(6) by (simp add: word_le_nat_alt)
    moreover have "new_loop rs (r_end r) m = Inr m'" using "2.prems"(1) ord s True by simp
    ultimately show ?thesis using "2.IH"(1) [OF ord s refl True] "2.prems"(2) below(2) by simp
  next
    case False
    let ?r = "\<lparr>r_start = s, r_end = ?e\<rparr>"
    obtain m1 res where push: "push_initial m ?r = (m1, res)" by fastforce
    have r: "lo ?r < hi ?r" "4096 dvd lo ?r" "4096 dvd hi ?r" "4096 \<le> lo ?r"
      using False sp by (simp_all add: word_le_nat_alt)
    have above: "\<forall>x\<in>set (managed_list m). hi x \<le> lo ?r" using below(1) sp(3) by fastforce
    from "2.prems"(2) r above push show ?thesis
    proof (cases rule: push_initial_cases)
      case full
      then show ?thesis using "2.prems"(1) ord s False push by simp
    next
      case ok
      have rest: "new_loop rs (r_end r) m1 = Inr m'"
        using "2.prems"(1) ord s False push ok(1) by simp
      have "\<forall>x\<in>set (managed_list m1). hi x \<le> hi r" using ok(6) sp(5) by fastforce
      from "2.IH"(2) [OF ord s refl False push [symmetric] ok(1) rest ok(2) this]
      show ?thesis using ok(3,5) sp(6) by auto
    qed
  qed
qed

lemma new_loop_succeeds:
  assumes "map_ok (unat previous_end) regions" and "\<forall>r\<in>set regions. lo r \<le> 2 ^ 64 - 4096"
    and "fresh m" and "\<forall>x\<in>set (managed_list m). hi x \<le> unat previous_end"
    and "pm_managed_len m + length regions \<le> length (pm_managed m)"
  shows "\<exists>m'. new_loop regions previous_end m = Inr m'"
  using assms
proof (induction regions previous_end m rule: new_loop.induct)
  case (1 previous_end m)
  then show ?case by simp
next
  case (2 r rs previous_end m)
  have ord: "\<not> r_end r < r_start r" "\<not> r_start r < previous_end" "map_ok (hi r) rs"
    using "2.prems"(1) by (simp_all add: word_less_nat_alt)
  have "unat (max (r_start r) PAGE_SIZE) \<le> 2 ^ 64 - 4096"
    using "2.prems"(2) by (simp add: max_def word_le_nat_alt)
  then obtain s where s: "align_up (max (r_start r) PAGE_SIZE) PAGE_SIZE = Some s"
    by (cases "align_up (max (r_start r) PAGE_SIZE) PAGE_SIZE")
      (simp_all add: align_up_eq_None is_power_of_two_page)
  let ?e = "align_down (r_end r) PAGE_SIZE"
  note sp = page_span_words [OF s]
  have below: "\<forall>x\<in>set (managed_list m). hi x \<le> lo r" "\<forall>x\<in>set (managed_list m). hi x \<le> hi r"
    using "2.prems"(4) ord by (auto simp: word_less_nat_alt)
  show ?case
  proof (cases "?e \<le> s")
    case True
    have "\<exists>m'. new_loop rs (r_end r) m = Inr m'"
      using "2.IH"(1) [OF ord(1,2) s refl True ord(3)] "2.prems" below(2) by simp
    then show ?thesis using ord(1,2) s True by simp
  next
    case False
    let ?r = "\<lparr>r_start = s, r_end = ?e\<rparr>"
    obtain m1 res where push: "push_initial m ?r = (m1, res)" by fastforce
    have r: "lo ?r < hi ?r" "4096 dvd lo ?r" "4096 dvd hi ?r" "4096 \<le> lo ?r"
      using False sp by (simp_all add: word_le_nat_alt)
    have above: "\<forall>x\<in>set (managed_list m). hi x \<le> lo ?r" using below(1) sp(3) by fastforce
    from "2.prems"(3) r above push show ?thesis
    proof (cases rule: push_initial_cases)
      case full
      then show ?thesis using "2.prems"(5) by simp
    next
      case ok
      have "\<forall>x\<in>set (managed_list m1). hi x \<le> hi r" using ok(6) sp(5) by fastforce
      then have "\<exists>m'. new_loop rs (r_end r) m1 = Inr m'"
        using "2.IH"(2) [OF ord(1,2) s refl False push [symmetric] ok(1) ord(3)] "2.prems"(2,5) ok(2-4)
        by simp
      then show ?thesis using ord(1,2) s False push ok(1) by simp
    qed
  qed
qed

section \<open>The manager as a pool of blocks\<close>

definition pm_alloc :: "physical_memory \<Rightarrow> u64 \<times> u64 \<Rightarrow> physical_memory \<times> u64 option" where
  "pm_alloc m q =
     (case allocate_pages m (fst q) (snd q) of
        (m', Inr r) \<Rightarrow> (m', r)
      | (m', Inl _) \<Rightarrow> (m', None))"

definition pm_release :: "physical_memory \<Rightarrow> u64 \<times> u64 \<Rightarrow> u64 \<Rightarrow> physical_memory \<times> bool" where
  "pm_release m q a =
     (case free_pages m a (fst q) of (m', Inr _) \<Rightarrow> (m', True) | (m', Inl _) \<Rightarrow> (m', False))"

definition pm_extent :: "u64 \<times> u64 \<Rightarrow> u64 \<Rightarrow> nat set" where
  "pm_extent q a = block a (fst q)"

lemma block_nonempty: "pages \<noteq> 0 \<Longrightarrow> block s pages \<noteq> {}"
  by (simp add: block_def unat_gt_0)

interpretation pm_pool: block_pool pm_inv free_addrs pm_extent pm_alloc pm_release
proof
  fix m q m' a
  assume inv: "pm_inv m" and run: "pm_alloc m q = (m', Some a)"
  obtain m1 res where r: "allocate_pages m (fst q) (snd q) = (m1, res)" by fastforce
  from inv r show "pm_inv m' \<and> pm_extent q a \<noteq> {} \<and> pm_extent q a \<subseteq> free_addrs m \<and>
      free_addrs m' = free_addrs m - pm_extent q a"
    using run r by (cases rule: allocate_pages_cases)
      (simp_all add: pm_alloc_def pm_extent_def block_nonempty)
next
  fix m q m'
  assume inv: "pm_inv m" and run: "pm_alloc m q = (m', None)"
  obtain m1 res where r: "allocate_pages m (fst q) (snd q) = (m1, res)" by fastforce
  from inv r show "m' = m"
    using run r by (cases rule: allocate_pages_cases) (simp_all add: pm_alloc_def)
next
  fix m q a m'
  assume inv: "pm_inv m" and run: "pm_release m q a = (m', True)"
  obtain m1 res where r: "free_pages m a (fst q) = (m1, res)" by fastforce
  from inv r show "pm_inv m' \<and> pm_extent q a \<inter> free_addrs m = {} \<and>
      free_addrs m' = free_addrs m \<union> pm_extent q a"
    using run r by (cases rule: free_pages_cases) (simp_all add: pm_release_def pm_extent_def)
next
  fix m q a m'
  assume inv: "pm_inv m" and run: "pm_release m q a = (m', False)"
  obtain m1 res where r: "free_pages m a (fst q) = (m1, res)" by fastforce
  from inv r show "m' = m"
    using run r by (cases rule: free_pages_cases) (simp_all add: pm_release_def)
qed

section \<open>What the manager promises\<close>

text \<open>A small memory for the witnesses: the pages 1 to 7, with room for two ranges.\<close>

definition pm_example :: physical_memory where
  "pm_example =
     \<lparr>pm_managed = [\<lparr>r_start = 0x1000, r_end = 0x8000\<rparr>, default_region], pm_managed_len = 1,
      pm_free = [\<lparr>r_start = 0x1000, r_end = 0x8000\<rparr>, default_region], pm_free_len = 1,
      pm_total_bytes = 0x7000, pm_free_bytes = 0x7000\<rparr>"

lemma pm_example_inv: "pm_inv pm_example"
proof -
  have "{4096..<32768::nat} \<inter> {0..<4096} = {}" by auto
  then show ?thesis
    by (simp add: pm_inv_def pm_example_def free_list_def managed_list_def page_aligned_def)
qed

definition pm_example_split :: physical_memory where
  "pm_example_split =
     pm_example\<lparr>pm_free := [\<lparr>r_start = 0x1000, r_end = 0x2000\<rparr>, \<lparr>r_start = 0x4000, r_end = 0x8000\<rparr>],
       pm_free_len := 2, pm_free_bytes := 0x5000\<rparr>"

lemma pm_example_alloc:
  "allocate_pages pm_example 2 2 = (pm_example_split, Inr (Some 0x2000))"
proof -
  have "align_up (0x1000 :: u64) 0x2000 = Some 0x2000"
    by (simp add: align_up_def checked_add_def)
  then show ?thesis
    by (simp add: allocate_pages_def pm_example_def pm_example_split_def checked_mul_def
        checked_add_def PAGE_SIZE_def split_free_def set_free_end_def insert_free_def shift_up_def)
qed


text \<open>A granted block ends below the top of the address space.\<close>

lemma block_in_range:
  assumes "pm_inv m" and "block s pages \<subseteq> free_addrs m" and "pages \<noteq> 0"
  obtains i where "i < length (free_list m)" and "lo (free_list m ! i) \<le> unat s"
    and "unat s + unat pages * 4096 \<le> hi (free_list m ! i)"
  using interval_in_one_range [of "free_list m" "unat s" "unat s + unat pages * 4096"] assms
  by (auto simp: pm_inv_def block_def free_addrs_def unat_gt_0)

lemma block_below:
  assumes "pm_inv m" and "block s pages \<subseteq> free_addrs m"
  shows "unat s + unat pages * 4096 < 2 ^ 64"
proof (cases "pages = 0")
  case True
  then show ?thesis using unat_below [of s] by simp
next
  case False
  obtain i where "unat s + unat pages * 4096 \<le> hi (free_list m ! i)"
    using block_in_range [OF assms False] .
  then show ?thesis using unat_below [of "r_end (free_list m ! i)"] by linarith
qed

text \<open>After a grant there is always room to take the block back.\<close>

lemma granted_block_room:
  assumes "pm_inv m" and "block s pages \<subseteq> free_addrs m" and "pages \<noteq> 0"
    and "pm_inv m1" and F: "free_addrs m1 = free_addrs m - block s pages"
    and len: "length (pm_free m1) = length (pm_free m)"
    and edge: "unat s \<notin> hi ` set (free_list m1)"
      "unat s + unat pages * 4096 \<notin> lo ` set (free_list m1)"
  shows "pm_free_len m1 < length (pm_free m1)"
proof -
  have "length (free_list m1) < length (free_list m)"
    using carved_room [of "free_list m" "free_list m1" "unat s" "unat s + unat pages * 4096"]
      assms by (simp add: pm_inv_def free_addrs_def block_def unat_gt_0)
  then show ?thesis using assms(1,4) len by (simp add: pm_inv_def)
qed

text \<open>
  C1: \<open>allocate_pages\<close> on a well-formed manager, on every branch. A granted block is aligned
  as requested, was free, and exactly its addresses and bytes leave the free memory; \<open>Ok(None)\<close>
  means that no aligned block of the size is free; an error leaves the manager unchanged and
  is \<open>InvalidRequest\<close> only for a bad request, \<open>Overflow\<close> only when the byte count overflows and
  \<open>Capacity\<close> only when the range array is full. The managed ranges and the invariant are kept.
\<close>

theorem allocate_pages_correct:
  assumes "pm_inv m" and "allocate_pages m pages align_pages = (m', res)"
  shows "pm_inv m' \<and> managed_list m' = managed_list m \<and>
    (case res of
       Inr (Some s) \<Rightarrow>
         unat align_pages * 4096 dvd unat s \<and> block s pages \<subseteq> free_addrs m \<and>
         free_addrs m' = free_addrs m - block s pages \<and>
         unat (pm_free_bytes m') + unat pages * 4096 = unat (pm_free_bytes m)
     | Inr None \<Rightarrow>
         m' = m \<and> (\<forall>a. \<not> (unat align_pages * 4096 dvd a \<and>
           {a..<a + unat pages * 4096} \<subseteq> free_addrs m))
     | Inl InvalidRequest \<Rightarrow> m' = m \<and> (pages = 0 \<or> \<not> is_power_of_two align_pages)
     | Inl Overflow \<Rightarrow>
         m' = m \<and> 2 ^ 64 \<le> max (unat pages) (unat align_pages) * 4096
     | Inl Capacity \<Rightarrow> m' = m \<and> pm_free_len m = length (pm_free m)
     | Inl _ \<Rightarrow> False)"
  using assms
proof (cases rule: allocate_pages_cases)
  case overflow
  moreover have "2 ^ 64 \<le> max (unat pages) (unat align_pages) * 4096"
    using overflow(3) by (simp add: max_def) linarith
  ultimately show ?thesis using assms(1) by simp
qed (use assms(1) in simp_all)

theorem allocate_pages_correct_witness:
  "pm_inv pm_example \<and> allocate_pages pm_example 2 2 = (pm_example_split, Inr (Some 0x2000)) \<and>
   pm_inv pm_example_split \<and> block 0x2000 2 \<subseteq> free_addrs pm_example \<and>
   free_addrs pm_example_split = free_addrs pm_example - block 0x2000 2"
  using allocate_pages_correct [OF pm_example_inv pm_example_alloc] pm_example_inv pm_example_alloc
  by simp



text \<open>
  C3: Giving a block back right after it was granted always succeeds, and restores the very
  same array of free ranges (coalescing is exact) and the same free byte count, although
  freeing can fail with \<open>Capacity\<close> in general.
\<close>

theorem free_after_allocate:
  assumes "pm_inv m" and "allocate_pages m pages align_pages = (m1, Inr (Some s))"
  shows "\<exists>m2. free_pages m1 s pages = (m2, Inr ()) \<and> free_list m2 = free_list m \<and>
    pm_free_bytes m2 = pm_free_bytes m \<and> pm_inv m2"
  using assms
proof (cases rule: allocate_pages_cases)
  case (some t)
  then have [simp]: "t = s" by simp
  obtain m2 res where "free": "free_pages m1 s pages = (m2, res)" by fastforce
  have "pm_inv m1" using some by simp
  from this "free" have "res = Inr () \<and> free_addrs m2 = free_addrs m \<and> pm_inv m2 \<and>
    pm_free_bytes m2 = pm_free_bytes m"
  proof (cases rule: free_pages_cases)
    case invalid
    have "block s pages \<subseteq> addrs (managed_list m)"
      using some(3) assms(1) by (auto simp: pm_inv_def free_addrs_def)
    moreover have "4096 dvd unat s" using some(2) by (auto intro: dvd_mult_left dvd_trans)
    ultimately show ?thesis using invalid some by auto
  next
    case overflow
    then show ?thesis using block_below [OF assms(1) some(3)] by simp
  next
    case full
    then show ?thesis
      using granted_block_room [of m s pages m1] assms(1) some by simp
  next
    case ok
    then show ?thesis using some by (auto simp: word_unat_eq_iff)
  qed
  with "free" show ?thesis
    using wf_ranges_unique [of "free_list m2" "free_list m"] assms(1)
    by (auto simp: pm_inv_def free_addrs_def)
qed simp_all

theorem free_after_allocate_witness:
  "\<exists>m2. free_pages pm_example_split 0x2000 2 = (m2, Inr ()) \<and> free_list m2 = free_list pm_example"
  using free_after_allocate [OF pm_example_inv pm_example_alloc] by blast

text \<open>
  C4: Building the manager from a boot map that is sorted, has no overlap and no reversed
  range, does not start a range in the last page of the address space and fits in the
  arrays, succeeds. The result satisfies the invariant, and its managed and its free memory
  are exactly the whole pages inside the ranges, page 0 excluded.
\<close>

theorem pm_new_correct:
  assumes "map_ok 0 regions" and "\<forall>r\<in>set regions. lo r \<le> 2 ^ 64 - 4096" and "length regions \<le> N"
  shows "\<exists>m. pm_new N regions = Inr m \<and> pm_inv m \<and> length (pm_free m) = N \<and>
    free_addrs m = (\<Union>r\<in>set regions. page_span r) \<and>
    addrs (managed_list m) = (\<Union>r\<in>set regions. page_span r)"
proof -
  have e: "managed_list (pm_empty N) = []" "pm_managed_len (pm_empty N) = 0"
    "length (pm_managed (pm_empty N)) = N"
    by (simp_all add: pm_empty_def managed_list_def)
  obtain m where m: "new_loop regions 0 (pm_empty N) = Inr m"
    using new_loop_succeeds [of 0 regions "pm_empty N"] assms fresh_empty by (auto simp: e)
  from new_loop_ok [OF m fresh_empty] show ?thesis
    using m freshD(1,2,5) [of m] by (auto simp: pm_new_def e free_addrs_def)
qed

theorem pm_new_correct_witness:
  "\<exists>m. pm_new 2 [\<lparr>r_start = 0, r_end = 0x8000\<rparr>] = Inr m \<and> pm_inv m \<and>
     free_addrs m = {0x1000..<0x8000}"
  using pm_new_correct [of "[\<lparr>r_start = 0, r_end = 0x8000\<rparr>]" 2]
  by (simp add: page_span_def round_up_def) blast

text \<open>
  C5: Over any sequence of page requests and releases of granted blocks, starting from a
  well-formed manager, the granted blocks never overlap one another or free memory, and no
  address is lost: live blocks and free memory together are the memory that was free at
  the start. Once everything is released the array of free ranges is the initial one.
\<close>

theorem pm_blocks_disjoint:
  assumes "pm_inv m" and "pool_run pm_alloc pm_release (m, []) cmds = (m', live)"
  shows "pm_inv m' \<and> separate pm_extent live \<and> held pm_extent live \<inter> free_addrs m' = {} \<and>
    held pm_extent live \<union> free_addrs m' = free_addrs m \<and>
    (live = [] \<longrightarrow> free_list m' = free_list m)"
proof -
  note run = pm_pool.run_from_start [OF assms]
  have "free_list m' = free_list m" if "live = []"
    using run(1,4) assms(1) that wf_ranges_unique [of "free_list m'" "free_list m"]
    by (simp add: held_def pm_inv_def free_addrs_def)
  with run show ?thesis by blast
qed

theorem pm_blocks_disjoint_witness:
  "pool_run pm_alloc pm_release (pm_example, []) [Get (2, 2)] =
     (pm_example_split, [((2, 2), 0x2000)]) \<and>
   held pm_extent [((2, 2), 0x2000)] \<inter> free_addrs pm_example_split = {}"
proof -
  have run: "pool_run pm_alloc pm_release (pm_example, []) [Get (2, 2)] =
      (pm_example_split, [((2, 2), 0x2000)])"
    by (simp add: pool_run_def pool_step_def pm_alloc_def pm_example_alloc)
  with pm_blocks_disjoint [OF pm_example_inv run] show ?thesis by simp
qed

end
