(* ===== verification/Frame_Allocator.thy ===== *)
theory Frame_Allocator
  imports Physical_Memory
begin

text \<open>
  The bootstrap frame allocator of \<open>crates/kernel-core/src/lib.rs\<close>, which hands out the
  frames of a boot map in increasing order and never takes one back.
\<close>

datatype map_error = Map_ReversedRange | Map_OverlapOrUnsorted

record frame_allocator =
  fa_regions :: "region list"
  fa_index :: nat
  fa_next :: u64

fun fa_check :: "region list \<Rightarrow> u64 \<Rightarrow> map_error + unit" where
  "fa_check [] previous_end = Inr ()"
| "fa_check (r # rs) previous_end =
     (if r_end r < r_start r then Inl Map_ReversedRange
      else if r_start r < previous_end then Inl Map_OverlapOrUnsorted
      else fa_check rs (r_end r))"

definition fa_new :: "region list \<Rightarrow> map_error + frame_allocator" where
  "fa_new regions =
     rbind (fa_check regions 0)
       (\<lambda>_. Inr \<lparr>fa_regions = regions, fa_index = 0, fa_next = PAGE_SIZE\<rparr>)"

text \<open>The frame a region offers: \<open>None\<close> when the region has no whole page left.\<close>

definition fa_frame :: "region \<Rightarrow> u64 \<Rightarrow> (u64 \<times> u64) option" where
  "fa_frame r next =
     (let s = max (max next (r_start r)) PAGE_SIZE
      in case map_option (\<lambda>v. v AND NOT (PAGE_SIZE - 1)) (checked_add s (PAGE_SIZE - 1)) of
           None \<Rightarrow> None
         | Some frame \<Rightarrow>
             (case checked_add frame PAGE_SIZE of
                None \<Rightarrow> None
              | Some e \<Rightarrow> if e \<le> r_end r then Some (frame, e) else None))"

function fa_allocate :: "frame_allocator \<Rightarrow> frame_allocator \<times> u64 option" where
  "fa_allocate a =
     (if fa_index a < length (fa_regions a) then
        (case fa_frame (fa_regions a ! fa_index a) (fa_next a) of
           Some (frame, e) \<Rightarrow> (a\<lparr>fa_next := e\<rparr>, Some frame)
         | None \<Rightarrow> fa_allocate (a\<lparr>fa_index := fa_index a + 1\<rparr>))
      else (a, None))"
  by pat_completeness auto
termination
  by (relation "measure (\<lambda>a. length (fa_regions a) - fa_index a)") auto

declare fa_allocate.simps [simp del]

section \<open>The frames of a map\<close>

definition page_in :: "nat \<Rightarrow> region \<Rightarrow> bool" where
  "page_in f r \<longleftrightarrow> 4096 dvd f \<and> 4096 \<le> f \<and> lo r \<le> f \<and> f + 4096 \<le> hi r"

definition usable_page :: "region list \<Rightarrow> nat \<Rightarrow> bool" where
  "usable_page regions f \<longleftrightarrow> (\<exists>r\<in>set regions. page_in f r)"

definition fa_inv :: "frame_allocator \<Rightarrow> bool" where
  "fa_inv a \<longleftrightarrow>
     map_ok 0 (fa_regions a) \<and>
     (\<forall>i<fa_index a. \<forall>f\<ge>unat (fa_next a).
        i < length (fa_regions a) \<longrightarrow> \<not> page_in f (fa_regions a ! i))"

lemma fa_check_ok: "fa_check regions previous_end = Inr () \<longleftrightarrow> map_ok (unat previous_end) regions"
  by (induction regions previous_end rule: fa_check.induct)
    (auto simp: word_less_nat_alt)

lemma fa_frame_Some:
  assumes "fa_frame r next = Some (frame, e)"
  shows "page_in (unat frame) r" and "unat next \<le> unat frame" and "unat e = unat frame + 4096"
    and "\<And>f. page_in f r \<Longrightarrow> unat next \<le> f \<Longrightarrow> unat frame \<le> f"
proof -
  let ?s = "max (max next (r_start r)) PAGE_SIZE"
  have up: "align_up ?s PAGE_SIZE = Some frame" and e: "checked_add frame PAGE_SIZE = Some e"
    and le: "e \<le> r_end r"
    using assms by (auto simp: fa_frame_def align_up_def Let_def split: option.splits if_splits)
  have s: "unat ?s = max (max (unat next) (lo r)) 4096"
    by (simp add: max_def word_le_nat_alt)
  have f: "unat frame = round_up (unat ?s) 4096"
    using up by (simp add: align_up_eq_Some is_power_of_two_page)
  show ue: "unat e = unat frame + 4096" using e by (simp add: word_nat)
  have ge: "unat ?s \<le> unat frame" unfolding f by (rule round_up_ge) simp
  have "4096 dvd unat frame" unfolding f by (rule round_up_dvd)
  then show "page_in (unat frame) r"
    using ge le ue s by (simp add: page_in_def word_le_nat_alt)
  show "unat next \<le> unat frame" using ge s by simp
  fix g assume "page_in g r" "unat next \<le> g"
  then show "unat frame \<le> g"
    unfolding f by (intro round_up_least) (simp_all add: page_in_def s)
qed

lemma fa_frame_None:
  assumes "fa_frame r next = None" and "unat next \<le> f"
  shows "\<not> page_in f r"
proof
  assume p: "page_in f r"
  let ?s = "max (max next (r_start r)) PAGE_SIZE"
  have s: "unat ?s = max (max (unat next) (lo r)) 4096"
    by (simp add: max_def word_le_nat_alt)
  have f: "unat ?s \<le> f" "4096 dvd f" "f + 4096 \<le> hi r" using p assms(2) s by (simp_all add: page_in_def)
  have hi: "hi r < 2 ^ 64" by (rule unat_below)
  obtain frame where up: "align_up ?s PAGE_SIZE = Some frame"
    using f hi by (cases "align_up ?s PAGE_SIZE")
      (simp_all add: align_up_eq_None is_power_of_two_page)
  have uf: "unat frame = round_up (unat ?s) 4096"
    using up by (simp add: align_up_eq_Some is_power_of_two_page)
  have "unat frame \<le> f" unfolding uf using f by (intro round_up_least) simp_all
  then have lt: "unat frame + 4096 \<le> hi r" using f(3) by simp
  obtain e where e: "checked_add frame PAGE_SIZE = Some e"
    using lt hi by (cases "checked_add frame PAGE_SIZE") (simp_all add: checked_add_eq_None)
  have "unat e = unat frame + 4096" using e by (simp add: word_nat)
  then have "e \<le> r_end r" using lt by (simp add: word_le_nat_alt)
  with up e assms(1) show False by (auto simp: fa_frame_def align_up_def Let_def)
qed

lemma map_ok_later: "map_ok p rs \<Longrightarrow> r \<in> set rs \<Longrightarrow> p \<le> lo r"
  by (induction rs arbitrary: p) fastforce+

lemma map_ok_order:
  assumes "map_ok p rs" and "i < j" and "j < length rs"
  shows "hi (rs ! i) \<le> lo (rs ! j)"
  using assms
proof (induction rs arbitrary: p i j)
  case (Cons r rs)
  then show ?case
    by (cases i) (auto simp: nth_Cons' intro: map_ok_later)
qed simp

text \<open>One call, by induction over the regions that are skipped.\<close>

lemma fa_allocate_spec:
  assumes "fa_inv a" and "fa_allocate a = (a', res)"
  shows "fa_regions a' = fa_regions a \<and> fa_inv a' \<and>
    (case res of
       Some frame \<Rightarrow> unat (fa_next a') = unat frame + 4096 \<and>
         usable_page (fa_regions a) (unat frame) \<and> unat (fa_next a) \<le> unat frame \<and>
         (\<forall>f. usable_page (fa_regions a) f \<and> unat (fa_next a) \<le> f \<longrightarrow> unat frame \<le> f)
     | None \<Rightarrow> \<not> (\<exists>f\<ge>unat (fa_next a). usable_page (fa_regions a) f))"
  using assms
proof (induction a arbitrary: a' res rule: fa_allocate.induct)
  case (1 a)
  let ?R = "fa_regions a" and ?i = "fa_index a" and ?n = "fa_next a"
  note inv = "1.prems"(1)
  show ?case
  proof (cases "?i < length ?R")
    case False
    then have "(a', res) = (a, None)" using "1.prems"(2) by (subst (asm) fa_allocate.simps) simp
    with inv False show ?thesis
      by (fastforce simp: fa_inv_def usable_page_def in_set_conv_nth)
  next
    case True
    show ?thesis
    proof (cases "fa_frame (?R ! ?i) ?n")
      case None
      then have run: "fa_allocate (a\<lparr>fa_index := ?i + 1\<rparr>) = (a', res)"
        using "1.prems"(2) True by (subst (asm) fa_allocate.simps) simp
      have "fa_inv (a\<lparr>fa_index := ?i + 1\<rparr>)"
        using inv fa_frame_None [OF None] by (auto simp: fa_inv_def less_Suc_eq)
      from "1.IH" [OF True None this run] show ?thesis by (cases res) simp_all
    next
      case (Some fe)
      obtain frame e where fe: "fe = (frame, e)" by fastforce
      note F = fa_frame_Some [OF Some [unfolded fe]]
      have run: "a' = a\<lparr>fa_next := e\<rparr>" "res = Some frame"
        using "1.prems"(2) True Some fe by (subst (asm) fa_allocate.simps, simp)+
      have least: "unat frame \<le> f" if u: "usable_page ?R f" and n: "unat ?n \<le> f" for f
      proof -
        obtain r where r: "r \<in> set ?R" "page_in f r" using u by (auto simp: usable_page_def)
        obtain j where j: "j < length ?R" "r = ?R ! j" using r(1) by (auto simp: in_set_conv_nth)
        consider "j < ?i" | "j = ?i" | "?i < j" by linarith
        then show ?thesis
        proof cases
          case 1 then show ?thesis using inv j r(2) n by (auto simp: fa_inv_def)
        next
          case 2 then show ?thesis using F(4) j(2) r(2) n by simp
        next
          case 3
          have "map_ok 0 ?R" using inv by (simp add: fa_inv_def)
          from map_ok_order [OF this 3 j(1)] show ?thesis using F(1) j(2) r(2) by (simp add: page_in_def)
        qed
      qed
      have "fa_inv a'" using inv F(2,3) by (auto simp: run fa_inv_def)
      moreover have "usable_page ?R (unat frame)"
        using F(1) True by (auto simp: usable_page_def)
      ultimately show ?thesis using run F(2,3) least by simp
    qed
  qed
qed

section \<open>What the bootstrap allocator promises\<close>

text \<open>
  C36: \<open>FrameAllocator::new\<close> accepts exactly the sorted maps without overlap or reversed range,
  and each \<open>allocate\<close> of an allocator it built returns the lowest whole page of the map at or
  above \<open>next\<close>, never page 0, and moves \<open>next\<close> past it; it returns \<open>None\<close> only when no page is left.
\<close>

theorem fa_allocate_correct:
  assumes "fa_inv a" and "fa_allocate a = (a', res)"
  shows "fa_inv a' \<and> fa_regions a' = fa_regions a \<and>
    (case res of
       Some frame \<Rightarrow>
         unat (fa_next a') = unat frame + 4096 \<and>
         usable_page (fa_regions a) (unat frame) \<and> unat (fa_next a) \<le> unat frame \<and>
         (\<forall>f. usable_page (fa_regions a) f \<and> unat (fa_next a) \<le> f \<longrightarrow> unat frame \<le> f)
     | None \<Rightarrow> \<not> (\<exists>f\<ge>unat (fa_next a). usable_page (fa_regions a) f)) \<and>
    (\<forall>regions. (\<exists>b. fa_new regions = Inr b) \<longleftrightarrow> map_ok 0 regions) \<and>
    (\<forall>regions b. fa_new regions = Inr b \<longrightarrow> fa_inv b)"
proof -
  have new: "(\<exists>b. fa_new regions = Inr b) \<longleftrightarrow> map_ok 0 regions" for regions
    using fa_check_ok [of regions 0]
    by (cases "fa_check regions 0") (auto simp: fa_new_def)
  have "fa_inv b" if "fa_new regions = Inr b" for regions b
    using that new [of regions] by (cases "fa_check regions 0") (auto simp: fa_new_def fa_inv_def)
  then show ?thesis using fa_allocate_spec [OF assms] new by blast
qed

theorem fa_allocate_correct_witness:
  "fa_inv \<lparr>fa_regions = [\<lparr>r_start = 0, r_end = 0x3000\<rparr>], fa_index = 0, fa_next = 0x1000\<rparr> \<and>
   fa_allocate \<lparr>fa_regions = [\<lparr>r_start = 0, r_end = 0x3000\<rparr>], fa_index = 0, fa_next = 0x1000\<rparr> =
     (\<lparr>fa_regions = [\<lparr>r_start = 0, r_end = 0x3000\<rparr>], fa_index = 0, fa_next = 0x2000\<rparr>, Some 0x1000) \<and>
   usable_page [\<lparr>r_start = 0, r_end = 0x3000\<rparr>] 0x1000"
proof -
  let ?a = "\<lparr>fa_regions = [\<lparr>r_start = 0, r_end = 0x3000\<rparr>], fa_index = 0, fa_next = 0x1000\<rparr>"
  have inv: "fa_inv ?a" by (simp add: fa_inv_def)
  have run: "fa_allocate ?a =
      (\<lparr>fa_regions = [\<lparr>r_start = 0, r_end = 0x3000\<rparr>], fa_index = 0, fa_next = 0x2000\<rparr>, Some 0x1000)"
    by (subst fa_allocate.simps) (simp add: fa_frame_def checked_add_def PAGE_SIZE_def max_def)
  from fa_allocate_correct [OF inv run] inv run show ?thesis by simp
qed

end
