(* ===== verification/Kernel_Heap.thy ===== *)
theory Kernel_Heap
  imports Physical_Memory
begin

text \<open>
  The kernel heap of \<open>kernel/src/mm/heap.rs\<close>. Its array of free ranges is handled as in the
  physical-memory manager, at byte granularity. The assertions and the \<open>expect\<close>s of the code
  are the values of \<open>heap_panic\<close>: a panic halts the kernel, so it carries no state.
\<close>

datatype heap_panic =
  InitializedTwice | AddressOverflow | EmptyHeap | DeallocationBeforeInit |
  DeallocationOverflow | OutsideHeap | DoubleFree | MetadataExhausted |
  CounterOverflow | CounterCorrupted | SmallAllocationFailed | PageAllocationFailed |
  Misaligned | SmokeNotCoalesced

definition MAX_FREE_RANGES :: nat where
  "MAX_FREE_RANGES = 256"

record heap_state =
  h_initialized :: bool
  h_start :: usize
  h_end :: usize
  h_free :: "region list"
  h_free_len :: nat
  h_free_bytes :: usize

text \<open>\<open>core::alloc::Layout\<close> and the check of \<open>Layout::from_size_align\<close>.\<close>

record layout =
  l_size :: usize
  l_align :: usize

definition layout_ok :: "layout \<Rightarrow> bool" where
  "layout_ok l \<longleftrightarrow> is_power_of_two (l_align l) \<and> unat (l_size l) + (unat (l_align l) - 1) < 2 ^ 63"

section \<open>Operations\<close>

definition heap_empty :: heap_state where
  "heap_empty = \<lparr>h_initialized = False, h_start = 0, h_end = 0,
     h_free = replicate MAX_FREE_RANGES default_region, h_free_len = 0, h_free_bytes = 0\<rparr>"

definition heap_init :: "heap_state \<Rightarrow> usize \<Rightarrow> usize \<Rightarrow> heap_panic + heap_state" where
  "heap_init h s bsize =
     (if h_initialized h then Inl InitializedTwice
      else case checked_add s bsize of
             None \<Rightarrow> Inl AddressOverflow
           | Some e \<Rightarrow>
               (if bsize = 0 then Inl EmptyHeap
                else Inr (h\<lparr>h_initialized := True, h_start := s, h_end := e,
                   h_free := (h_free h)[0 := \<lparr>r_start = s, r_end = e\<rparr>],
                   h_free_len := 1, h_free_bytes := bsize\<rparr>)))"

definition heap_insert :: "heap_state \<Rightarrow> nat \<Rightarrow> region \<Rightarrow> heap_state option" where
  "heap_insert h index r =
     (if h_free_len h = MAX_FREE_RANGES then None
      else Some (h\<lparr>h_free := (shift_up (h_free h) index (h_free_len h))[index := r],
                   h_free_len := h_free_len h + 1\<rparr>))"

definition heap_remove :: "heap_state \<Rightarrow> nat \<Rightarrow> heap_state" where
  "heap_remove h index =
     (let arr = shift_down (h_free h) index (h_free_len h);
          len = h_free_len h - 1
      in h\<lparr>h_free := arr[len := default_region], h_free_len := len\<rparr>)"

definition heap_set_start :: "heap_state \<Rightarrow> nat \<Rightarrow> usize \<Rightarrow> heap_state" where
  "heap_set_start h i v = h\<lparr>h_free := (h_free h)[i := (h_free h ! i)\<lparr>r_start := v\<rparr>]\<rparr>"

definition heap_set_end :: "heap_state \<Rightarrow> nat \<Rightarrow> usize \<Rightarrow> heap_state" where
  "heap_set_end h i v = h\<lparr>h_free := (h_free h)[i := (h_free h ! i)\<lparr>r_end := v\<rparr>]\<rparr>"

definition heap_split :: "heap_state \<Rightarrow> nat \<Rightarrow> region \<Rightarrow> usize \<Rightarrow> usize \<Rightarrow> heap_state option" where
  "heap_split h index r s e =
     (case (r_start r < s, e < r_end r) of
        (False, False) \<Rightarrow> Some (heap_remove h index)
      | (False, True) \<Rightarrow> Some (heap_set_start h index e)
      | (True, False) \<Rightarrow> Some (heap_set_end h index s)
      | (True, True) \<Rightarrow>
          heap_insert (heap_set_end h index s) (index + 1) \<lparr>r_start = e, r_end = r_end r\<rparr>)"

fun heap_scan ::
  "heap_state \<Rightarrow> usize \<Rightarrow> usize \<Rightarrow> nat list \<Rightarrow> heap_panic + heap_state \<times> usize option" where
  "heap_scan h bsize alignment [] = Inr (h, None)"
| "heap_scan h bsize alignment (index # rest) =
     (let r = h_free h ! index
      in case align_up (r_start r) alignment of
           None \<Rightarrow> Inr (h, None)
         | Some s \<Rightarrow>
             (case checked_add s bsize of
                None \<Rightarrow> Inr (h, None)
              | Some e \<Rightarrow>
                  (if r_end r < e then heap_scan h bsize alignment rest
                   else if r_start r < s \<and> e < r_end r \<and> h_free_len h = MAX_FREE_RANGES
                   then heap_scan h bsize alignment rest
                   else case heap_split h index r s e of
                          None \<Rightarrow> Inl MetadataExhausted
                        | Some h' \<Rightarrow>
                            Inr (h'\<lparr>h_free_bytes := h_free_bytes h' - bsize\<rparr>, Some s))))"

definition heap_allocate :: "heap_state \<Rightarrow> layout \<Rightarrow> heap_panic + heap_state \<times> usize option" where
  "heap_allocate h l =
     (if \<not> h_initialized h then Inr (h, None)
      else heap_scan h (max (l_size l) 1) (l_align l) [0..<h_free_len h])"

definition heap_merge :: "heap_state \<Rightarrow> nat \<Rightarrow> usize \<Rightarrow> usize \<Rightarrow> heap_state option" where
  "heap_merge h index s e =
     (case (0 < index \<and> r_end (h_free h ! (index - 1)) = s,
            index < h_free_len h \<and> r_start (h_free h ! index) = e) of
        (True, True) \<Rightarrow>
          Some (heap_remove (heap_set_end h (index - 1) (r_end (h_free h ! index))) index)
      | (True, False) \<Rightarrow> Some (heap_set_end h (index - 1) e)
      | (False, True) \<Rightarrow> Some (heap_set_start h index s)
      | (False, False) \<Rightarrow> heap_insert h index \<lparr>r_start = s, r_end = e\<rparr>)"

definition heap_count :: "heap_state \<Rightarrow> usize \<Rightarrow> heap_panic + heap_state" where
  "heap_count h bsize =
     (case checked_add (h_free_bytes h) bsize of
        None \<Rightarrow> Inl CounterOverflow
      | Some n \<Rightarrow>
          (if n \<le> h_end h - h_start h then Inr (h\<lparr>h_free_bytes := n\<rparr>) else Inl CounterCorrupted))"

definition heap_deallocate :: "heap_state \<Rightarrow> usize \<Rightarrow> layout \<Rightarrow> heap_panic + heap_state" where
  "heap_deallocate h s l =
     (if \<not> h_initialized h then Inl DeallocationBeforeInit
      else
        (let bsize = max (l_size l) 1
         in case checked_add s bsize of
              None \<Rightarrow> Inl DeallocationOverflow
            | Some e \<Rightarrow>
                (if \<not> (h_start h \<le> s \<and> e \<le> h_end h) then Inl OutsideHeap
                 else
                   (let index = find_slot (h_free h) (h_free_len h) s 0
                    in if 0 < index \<and> \<not> r_end (h_free h ! (index - 1)) \<le> s then Inl DoubleFree
                       else if index < h_free_len h \<and> \<not> e \<le> r_start (h_free h ! index)
                       then Inl DoubleFree
                       else case heap_merge h index s e of
                              None \<Rightarrow> Inl MetadataExhausted
                            | Some h' \<Rightarrow> heap_count h' bsize))))"

section \<open>The global allocator\<close>

definition heap_total_bytes :: "heap_state \<Rightarrow> usize" where
  "heap_total_bytes h = (if h_initialized h then h_end h - h_start h else 0)"

text \<open>\<open>GlobalAlloc::alloc\<close>: the null pointer stands for a failure.\<close>

definition global_alloc :: "heap_state \<Rightarrow> layout \<Rightarrow> heap_panic + heap_state \<times> usize" where
  "global_alloc h l =
     rbind (heap_allocate h l)
       (\<lambda>(h', r). Inr (h', case r of None \<Rightarrow> 0 | Some a \<Rightarrow> a))"

text \<open>The smoke test that runs at boot; the bytes it writes to the blocks are not modelled.\<close>

definition heap_verify :: "heap_state \<Rightarrow> heap_panic + heap_state" where
  "heap_verify h =
     (let before = h_free_bytes h;
          small = \<lparr>l_size = 37, l_align = 8\<rparr>;
          page_aligned = \<lparr>l_size = 4096, l_align = 4096\<rparr>
      in rbind (global_alloc h small) (\<lambda>(h1, first).
         if first = 0 then Inl SmallAllocationFailed
         else rbind (global_alloc h1 page_aligned) (\<lambda>(h2, second).
         if second = 0 then Inl PageAllocationFailed
         else if second mod 4096 \<noteq> 0 then Inl Misaligned
         else rbind (heap_deallocate h2 second page_aligned) (\<lambda>h3.
         rbind (heap_deallocate h3 first small) (\<lambda>h4.
         if h_free_bytes h4 = before then Inr h4 else Inl SmokeNotCoalesced)))))"

section \<open>The invariant\<close>

definition heap_list :: "heap_state \<Rightarrow> region list" where
  "heap_list h = take (h_free_len h) (h_free h)"

definition heap_addrs :: "heap_state \<Rightarrow> nat set" where
  "heap_addrs h = addrs (heap_list h)"

definition heap_inv :: "heap_state \<Rightarrow> bool" where
  "heap_inv h \<longleftrightarrow>
     h_initialized h \<and> length (h_free h) = MAX_FREE_RANGES \<and> h_free_len h \<le> MAX_FREE_RANGES \<and>
     wf_ranges (heap_list h) \<and> h_start h < h_end h \<and>
     addrs (heap_list h) \<subseteq> {unat (h_start h)..<unat (h_end h)} \<and>
     unat (h_free_bytes h) = bytes (heap_list h)"

definition heap_extent :: "layout \<Rightarrow> usize \<Rightarrow> nat set" where
  "heap_extent l a = {unat a..<unat a + max (unat (l_size l)) 1}"

section \<open>The range array as that of the physical-memory manager\<close>

text \<open>
  The updates of the array are the ones proved correct for the physical-memory manager:
  \<open>free_array\<close> is the heap's array seen as a manager with nothing else in it.
\<close>

definition free_array :: "heap_state \<Rightarrow> physical_memory" where
  "free_array h = \<lparr>pm_managed = [], pm_managed_len = 0, pm_free = h_free h,
     pm_free_len = h_free_len h, pm_total_bytes = 0, pm_free_bytes = 0\<rparr>"

definition put_array :: "heap_state \<Rightarrow> physical_memory \<Rightarrow> heap_state" where
  "put_array h m = h\<lparr>h_free := pm_free m, h_free_len := pm_free_len m\<rparr>"

definition put_result ::
  "heap_state \<Rightarrow> physical_memory \<times> (pm_error + unit) \<Rightarrow> heap_state option" where
  "put_result h r = (case r of (m, Inr _) \<Rightarrow> Some (put_array h m) | (m, Inl _) \<Rightarrow> None)"

lemmas array_defs = free_array_def put_array_def put_result_def

lemma array_sim:
  "heap_remove h index = put_array h (remove_free (free_array h) index)"
  "heap_set_start h i v = put_array h (set_free_start (free_array h) i v)"
  "heap_set_end h i v = put_array h (set_free_end (free_array h) i v)"
  "length (h_free h) = MAX_FREE_RANGES \<Longrightarrow>
     heap_insert h index r = put_result h (insert_free (free_array h) index r)"
  by (simp_all add: array_defs heap_remove_def remove_free_def heap_set_start_def set_free_start_def
      heap_set_end_def set_free_end_def heap_insert_def insert_free_def Let_def list_update_beyond)

lemma put_array_sim [simp]:
  "put_array (put_array h m) m' = put_array h m'"
  "put_result (put_array h m) r = put_result h r"
  "h_free (put_array h m) = pm_free m" "h_free_len (put_array h m) = pm_free_len m"
  "h_initialized (put_array h m) = h_initialized h" "h_start (put_array h m) = h_start h"
  "h_end (put_array h m) = h_end h" "h_free_bytes (put_array h m) = h_free_bytes h"
  "pm_free (free_array h) = h_free h" "pm_free_len (free_array h) = h_free_len h"
  "heap_list (put_array h m) = free_list m" "free_list (free_array h) = heap_list h"
  by (simp_all add: array_defs heap_list_def free_list_def split: prod.split sum.split)

lemma free_array_set [simp]:
  "free_array (put_array h (set_free_end (free_array h) i v)) = set_free_end (free_array h) i v"
  by (simp add: array_defs set_free_end_def)

lemma length_set_free [simp]: "length (pm_free (set_free_end m i v)) = length (pm_free m)"
  by (simp add: set_free_end_def)

lemma result_pure: "put_result h (m, Inr ()) = Some (put_array h m)"
  by (simp add: put_result_def)

lemma heap_split_sim:
  assumes "length (h_free h) = MAX_FREE_RANGES"
  shows "heap_split h index r s e = put_result h (split_free (free_array h) index r s e)"
proof -
  define P Q where "P = (r_start r < s)" and "Q = (e < r_end r)"
  show ?thesis
    unfolding heap_split_def split_free_def P_def [symmetric] Q_def [symmetric]
    using assms by (cases P; cases Q) (simp_all add: array_sim result_pure)
qed

lemma heap_merge_sim:
  assumes "length (h_free h) = MAX_FREE_RANGES"
  shows "heap_merge h index s e = put_result h (merge_free (free_array h) index s e)"
proof -
  define P Q where "P = (0 < index \<and> r_end (h_free h ! (index - 1)) = s)"
    and "Q = (index < h_free_len h \<and> r_start (h_free h ! index) = e)"
  show ?thesis
    unfolding heap_merge_def merge_free_def put_array_sim P_def [symmetric] Q_def [symmetric]
    using assms by (cases P; cases Q) (simp_all add: array_sim result_pure)
qed

section \<open>Allocation\<close>

lemma heap_list_sorted:
  assumes "heap_inv h" and "i \<le> j" and "j < h_free_len h"
  shows "lo (h_free h ! i) \<le> lo (h_free h ! j)"
proof -
  have wf: "wf_ranges (heap_list h)" and len: "h_free_len h \<le> length (h_free h)"
    using assms(1) by (simp_all add: heap_inv_def)
  have nth: "heap_list h ! k = h_free h ! k" if "k < h_free_len h" for k
    using that by (simp add: heap_list_def)
  have "lo (heap_list h ! i) \<le> lo (heap_list h ! j)"
    using wf_ranges_sorted [OF wf, of i j] assms(2,3) len by (simp add: heap_list_def)
  then show ?thesis using assms(2,3) by (simp add: nth)
qed

text \<open>The block that a range offers, and whether the scan ends with it.\<close>

lemma heap_split_spec:
  assumes "heap_inv h" and i: "i < h_free_len h"
    and "\<not> (r_start (h_free h ! i) < s \<and> e < r_end (h_free h ! i) \<and> h_free_len h = MAX_FREE_RANGES)"
  obtains m where "heap_split h i (h_free h ! i) s e = Some (put_array h m)"
    and "length (pm_free m) = MAX_FREE_RANGES" and "pm_free_len m \<le> MAX_FREE_RANGES"
    and "free_list m = carve (heap_list h) i s e"
proof -
  have len: "length (h_free h) = MAX_FREE_RANGES" "h_free_len h \<le> MAX_FREE_RANGES"
    using assms(1) by (simp_all add: heap_inv_def)
  obtain m where m: "split_free (free_array h) i (h_free h ! i) s e = (m, Inr ())"
    "same_rest (free_array h) m" "pm_free_len m \<le> length (pm_free m)"
    "free_list m = carve (free_list (free_array h)) i s e"
    using split_free_spec [of i "free_array h" "h_free h ! i" s e] i len assms(3) by auto
  then show ?thesis
    using len that [of m] by (simp add: heap_split_sim result_pure same_rest_def)
qed

text \<open>
  The early returns lose nothing: when the aligned block of a range is above the top of the
  address space, so is that of every later range.
\<close>

lemma candidate_monotone:
  assumes pow: "is_power_of_two alignment" and le: "lo q \<le> lo r"
    and none: "align_up (r_start q) alignment = None \<or>
      (\<exists>s. align_up (r_start q) alignment = Some s \<and> checked_add s bsize = None)"
  shows "candidate r bsize alignment = None"
proof (cases "align_up (r_start r) alignment")
  case None
  then show ?thesis by (simp add: candidate_def)
next
  case (Some t)
  have pos: "0 < unat alignment" using is_power_of_two_pos [OF pow] .
  have t: "unat t = round_up (lo r) (unat alignment)" "lo r + (unat alignment - 1) < 2 ^ 64"
    using Some pow by (simp_all add: align_up_eq_Some)
  then obtain s where s: "align_up (r_start q) alignment = Some s"
    using le pow by (cases "align_up (r_start q) alignment") (simp_all add: align_up_eq_None)
  then have us: "unat s = round_up (lo q) (unat alignment)" using pow by (simp add: align_up_eq_Some)
  have "unat s \<le> unat t"
    unfolding us t(1) using le round_up_ge [OF pos, of "lo r"]
    by (intro round_up_least) (simp_all add: round_up_dvd pos)
  moreover have "checked_add s bsize = None" using none s by simp
  ultimately have "checked_add t bsize = None" by (simp add: checked_add_eq_None)
  then show ?thesis using Some by (simp add: candidate_def)
qed

lemma heap_scan_cases:
  assumes inv: "heap_inv h" and pow: "is_power_of_two alignment"
    and run: "heap_scan h bsize alignment [i..<h_free_len h] = res" and i: "i \<le> h_free_len h"
  obtains (none) "res = Inr (h, None)"
      "\<And>j. h_free_len h < MAX_FREE_RANGES \<Longrightarrow> i \<le> j \<Longrightarrow> j < h_free_len h \<Longrightarrow>
         candidate (h_free h ! j) bsize alignment = None"
  | (some) j s e m where "j < h_free_len h" "candidate (h_free h ! j) bsize alignment = Some (s, e)"
      "length (pm_free m) = MAX_FREE_RANGES" "pm_free_len m \<le> MAX_FREE_RANGES"
      "free_list m = carve (heap_list h) j s e"
      "res = Inr ((put_array h m)\<lparr>h_free_bytes := h_free_bytes h - bsize\<rparr>, Some s)"
  using i run
proof (induction "h_free_len h - i" arbitrary: i thesis)
  case 0
  then show ?case by (intro "0.prems"(1)) simp_all
next
  case (Suc n)
  let ?r = "h_free h ! i"
  have il: "i < h_free_len h" using Suc.hyps(2) by simp
  then have upt: "[i..<h_free_len h] = i # [Suc i..<h_free_len h]" by (rule upt_conv_Cons)
  have lo: "lo ?r \<le> lo (h_free h ! j)" if "i \<le> j" "j < h_free_len h" for j
    using heap_list_sorted [OF inv that] .
  consider (early) "align_up (r_start ?r) alignment = None \<or>
      (\<exists>s. align_up (r_start ?r) alignment = Some s \<and> checked_add s bsize = None)"
    | (fits) s e where "align_up (r_start ?r) alignment = Some s" "checked_add s bsize = Some e"
    by (cases "align_up (r_start ?r) alignment"; cases "checked_add (the (align_up (r_start ?r) alignment)) bsize") auto
  then show ?case
  proof cases
    case early
    then have "res = Inr (h, None)" using Suc.prems(4) upt by auto
    then show ?thesis
      using candidate_monotone [OF pow _ early] lo by (intro Suc.prems(1)) auto
  next
    case fits
    have cand: "candidate ?r bsize alignment = (if r_end ?r < e then None else Some (s, e))"
      using fits by (simp add: candidate_def)
    show ?thesis
    proof (cases "r_end ?r < e \<or> r_start ?r < s \<and> e < r_end ?r \<and> h_free_len h = MAX_FREE_RANGES")
      case True
      then have rest: "heap_scan h bsize alignment [Suc i..<h_free_len h] = res"
        using Suc.prems(4) unfolding upt heap_scan.simps Let_def fits option.case by argo
      have c: "candidate ?r bsize alignment = None" if "h_free_len h < MAX_FREE_RANGES"
        using True cand that by auto
      show ?thesis
      proof (rule Suc.hyps(1) [of "Suc i"])
        show "n = h_free_len h - Suc i" "Suc i \<le> h_free_len h" using Suc.hyps(2) il by simp_all
        show "heap_scan h bsize alignment [Suc i..<h_free_len h] = res" by (rule rest)
      next
        assume "res = Inr (h, None)" and "\<And>j. h_free_len h < MAX_FREE_RANGES \<Longrightarrow> Suc i \<le> j \<Longrightarrow>
          j < h_free_len h \<Longrightarrow> candidate (h_free h ! j) bsize alignment = None"
        then show ?thesis
          using c by (intro Suc.prems(1), simp) (metis Suc_leI le_neq_implies_less)
      qed (rule Suc.prems(2))
    next
      case False
      obtain m where m: "heap_split h i ?r s e = Some (put_array h m)"
        "length (pm_free m) = MAX_FREE_RANGES" "pm_free_len m \<le> MAX_FREE_RANGES"
        "free_list m = carve (heap_list h) i s e"
        using heap_split_spec [OF inv il, of s e] False by auto
      have "res = Inr ((put_array h m)\<lparr>h_free_bytes := h_free_bytes h - bsize\<rparr>, Some s)"
        using Suc.prems(4) False unfolding upt heap_scan.simps Let_def fits option.case m(1) by auto
      then show ?thesis using Suc.prems(2) [OF il _ m(2-4)] cand False by auto
    qed
  qed
qed

lemma unat_size: "unat (max (l_size l) 1) = max (unat (l_size l)) 1"
  by (simp add: max_def word_le_nat_alt)

lemma heap_allocate_cases:
  assumes inv: "heap_inv h" and lay: "layout_ok l" and run: "heap_allocate h l = res"
  obtains (none) "res = Inr (h, None)"
      "h_free_len h < MAX_FREE_RANGES \<Longrightarrow>
        \<not> (\<exists>a. unat (l_align l) dvd a \<and> {a..<a + max (unat (l_size l)) 1} \<subseteq> heap_addrs h)"
  | (some) h' s where "res = Inr (h', Some s)" "unat (l_align l) dvd unat s"
      "heap_extent l s \<subseteq> heap_addrs h" "heap_addrs h' = heap_addrs h - heap_extent l s"
      "unat (h_free_bytes h') + max (unat (l_size l)) 1 = unat (h_free_bytes h)"
      "h_start h' = h_start h" "h_end h' = h_end h" "heap_inv h'"
proof -
  let ?b = "max (l_size l) 1" and ?F = "heap_list h"
  have wf: "wf_ranges ?F" and init: "h_initialized h" and len: "h_free_len h \<le> length (h_free h)"
    and fb: "unat (h_free_bytes h) = bytes ?F"
    using inv by (simp_all add: heap_inv_def)
  have pow: "is_power_of_two (l_align l)" using lay by (simp add: layout_ok_def)
  have scan: "heap_scan h ?b (l_align l) [0..<h_free_len h] = res"
    using run init by (simp add: heap_allocate_def)
  show ?thesis
  proof (rule heap_scan_cases [OF inv pow scan])
    show "0 \<le> h_free_len h" by simp
  next
    assume "res = Inr (h, None)" and c: "\<And>j. h_free_len h < MAX_FREE_RANGES \<Longrightarrow> 0 \<le> j \<Longrightarrow>
      j < h_free_len h \<Longrightarrow> candidate (h_free h ! j) ?b (l_align l) = None"
    then show ?thesis
    proof (intro none notI)
      assume room: "h_free_len h < MAX_FREE_RANGES"
        and "\<exists>a. unat (l_align l) dvd a \<and> {a..<a + max (unat (l_size l)) 1} \<subseteq> heap_addrs h"
      then obtain a where a: "unat (l_align l) dvd a" "{a..<a + unat ?b} \<subseteq> addrs ?F"
        by (auto simp: heap_addrs_def unat_size)
      obtain i where i: "i < length ?F" "lo (?F ! i) \<le> a" "a + unat ?b \<le> hi (?F ! i)"
        using interval_in_one_range [OF wf a(2)] less_add_same_cancel1 [of a "unat ?b"]
        by (auto simp: unat_size less_max_iff_disj)
      then have "i < h_free_len h" "?F ! i = h_free h ! i" by (simp_all add: heap_list_def)
      with candidate_None [OF _ pow, of "h_free h ! i" ?b a] c [OF room] a(1) i show False by simp
    qed
  next
    fix j s e m
    assume j: "j < h_free_len h" and cand: "candidate (h_free h ! j) ?b (l_align l) = Some (s, e)"
      and m: "length (pm_free m) = MAX_FREE_RANGES" "pm_free_len m \<le> MAX_FREE_RANGES"
        "free_list m = carve ?F j s e"
      and res: "res = Inr ((put_array h m)\<lparr>h_free_bytes := h_free_bytes h - ?b\<rparr>, Some s)"
    let ?h = "(put_array h m)\<lparr>h_free_bytes := h_free_bytes h - ?b\<rparr>"
    have jF: "j < length ?F" "?F ! j = h_free h ! j" using j len by (simp_all add: heap_list_def)
    have "0 < unat ?b" by (simp add: unat_size)
    note C = candidate_Some [OF cand pow this]
    have fits: "fits (?F ! j) s e" using C(1) jF by simp
    note carve = carve_correct [OF wf jF(1) fits]
    have ext: "heap_extent l s = {unat s..<unat e}" using C(3) by (simp add: heap_extent_def unat_size)
    have L: "heap_list ?h = carve ?F j s e" using m(3) by (simp add: heap_list_def free_list_def)
    have le: "unat ?b \<le> unat (h_free_bytes h)" using carve(3) C(3) fb by simp
    then have fb': "unat (h_free_bytes ?h) = unat (h_free_bytes h) - unat ?b"
      by (simp add: unat_sub word_le_nat_alt)
    have "heap_inv ?h"
      using inv m(1,2) carve fb fb' C(3) unfolding heap_inv_def L by auto
    moreover have "unat (l_align l) dvd unat s" using C(2) .
    moreover have "heap_extent l s \<subseteq> heap_addrs h"
      unfolding ext heap_addrs_def by (rule fits_subset [OF jF(1) fits])
    moreover have "heap_addrs ?h = heap_addrs h - heap_extent l s"
      unfolding ext heap_addrs_def L by (rule carve(2))
    moreover have "unat (h_free_bytes ?h) + max (unat (l_size l)) 1 = unat (h_free_bytes h)"
      using fb' le by (simp only: unat_size)
    ultimately show ?thesis using res by (intro some) simp_all
  qed
qed

section \<open>Deallocation\<close>

lemma heap_slot:
  assumes inv: "heap_inv h" and se: "unat s < unat e"
  defines "index \<equiv> find_slot (h_free h) (h_free_len h) s 0"
  shows "(0 < index \<and> s < r_end (h_free h ! (index - 1)) \<or>
      index < h_free_len h \<and> r_start (h_free h ! index) < e) \<longleftrightarrow>
      {unat s..<unat e} \<inter> heap_addrs h \<noteq> {}"
    and "index \<le> h_free_len h"
    and "{unat s..<unat e} \<inter> heap_addrs h = {} \<Longrightarrow>
      (\<forall>x\<in>set (take index (heap_list h)). hi x \<le> unat s) \<and>
      (\<forall>y\<in>set (drop index (heap_list h)). unat e \<le> lo y)"
proof -
  have wf: "wf_ranges (take (h_free_len h) (h_free h))" and len: "h_free_len h \<le> length (h_free h)"
    using inv by (simp_all add: heap_inv_def heap_list_def)
  note split = find_slot_split [OF wf len index_def [THEN meta_eq_to_obj_eq] se]
  show "(0 < index \<and> s < r_end (h_free h ! (index - 1)) \<or>
      index < h_free_len h \<and> r_start (h_free h ! index) < e) \<longleftrightarrow>
      {unat s..<unat e} \<inter> heap_addrs h \<noteq> {}"
    using split(2) by (simp only: heap_addrs_def heap_list_def)
  show "index \<le> h_free_len h"
    using find_slot_sides(1) [OF wf len index_def [THEN meta_eq_to_obj_eq]] .
  show "{unat s..<unat e} \<inter> heap_addrs h = {} \<Longrightarrow>
      (\<forall>x\<in>set (take index (heap_list h)). hi x \<le> unat s) \<and>
      (\<forall>y\<in>set (drop index (heap_list h)). unat e \<le> lo y)"
    unfolding heap_addrs_def heap_list_def by (rule split(1))
qed

lemma heap_merge_cases:
  assumes inv: "heap_inv h" and se: "unat s < unat e"
    and inside: "{unat s..<unat e} \<subseteq> {unat (h_start h)..<unat (h_end h)}"
    and disj: "{unat s..<unat e} \<inter> heap_addrs h = {}"
    and ub: "unat bsize = unat e - unat s"
    and run: "res = (case heap_merge h (find_slot (h_free h) (h_free_len h) s 0) s e of
      None \<Rightarrow> Inl MetadataExhausted | Some h' \<Rightarrow> heap_count h' bsize)"
  obtains (full) "res = Inl MetadataExhausted" "h_free_len h = MAX_FREE_RANGES"
      "unat s \<notin> hi ` set (heap_list h)" "unat e \<notin> lo ` set (heap_list h)"
  | (ok) h' where "res = Inr h'" "heap_addrs h' = heap_addrs h \<union> {unat s..<unat e}"
      "unat (h_free_bytes h') = unat (h_free_bytes h) + unat bsize"
      "h_start h' = h_start h" "h_end h' = h_end h" "heap_inv h'"
proof -
  define index where "index = find_slot (h_free h) (h_free_len h) s 0"
  let ?xs = "take index (heap_list h)" and ?ys = "drop index (heap_list h)" and ?m = "free_array h"
  have len: "length (h_free h) = MAX_FREE_RANGES" "h_free_len h \<le> MAX_FREE_RANGES"
    and wf: "wf_ranges (?xs @ ?ys)" and fb: "unat (h_free_bytes h) = bytes (heap_list h)"
    using inv by (simp_all add: heap_inv_def)
  have mlen: "pm_free_len ?m \<le> length (pm_free ?m)" using len by simp
  have il: "index \<le> pm_free_len ?m" using heap_slot(2) [OF inv se] by (simp add: index_def)
  have sep: "\<forall>x\<in>set ?xs. hi x \<le> unat s" "\<forall>y\<in>set ?ys. unat e \<le> lo y"
    using heap_slot(3) [OF inv se disj] by (simp_all add: index_def)
  note run' = run [folded index_def, unfolded heap_merge_sim [OF len(1)]]
  show ?thesis
  proof (cases "touches ?xs ?ys s e \<or> pm_free_len ?m < length (pm_free ?m)")
    case False
    then have "merge_free ?m index s e = (?m, Inl Capacity)"
      using merge_free_full [OF il mlen] len by simp
    then have "res = Inl MetadataExhausted" using run' by (simp add: put_result_def)
    moreover have "unat s \<notin> hi ` set (?xs @ ?ys) \<and> unat e \<notin> lo ` set (?xs @ ?ys)"
      using False untouched [OF wf sep se] by blast
    ultimately show ?thesis using False len by (intro full) simp_all
  next
    case True
    obtain m1 where m1: "merge_free ?m index s e = (m1, Inr ())" "same_rest ?m m1"
      "pm_free_len m1 \<le> length (pm_free m1)" "free_list m1 = coalesce ?xs ?ys s e"
      using merge_free_spec [OF il mlen] True by auto
    let ?h = "put_array h m1"
    note co = coalesce_correct [OF wf se sep]
    have F1: "addrs (free_list m1) = heap_addrs h \<union> {unat s..<unat e}"
      "bytes (free_list m1) = bytes (heap_list h) + unat bsize"
      using co(2,3) m1(4) ub by (simp_all add: heap_addrs_def)
    have sub: "addrs (free_list m1) \<subseteq> {unat (h_start h)..<unat (h_end h)}"
      using F1(1) inside inv by (auto simp: heap_inv_def heap_addrs_def)
    have wf1: "wf_ranges (free_list m1)" using co(1) m1(4) by simp
    have le: "bytes (free_list m1) \<le> unat (h_end h) - unat (h_start h)"
      using card_mono [OF _ sub] card_addrs [OF wf1] by simp
    have room: "unat (h_end h - h_start h) = unat (h_end h) - unat (h_start h)"
      using inv by (simp add: heap_inv_def unat_sub word_less_nat_alt word_le_nat_alt)
    obtain nb where nb: "checked_add (h_free_bytes h) bsize = Some nb"
      using le F1(2) fb unat_below [of "h_end h"]
      by (cases "checked_add (h_free_bytes h) bsize") (auto simp: checked_add_eq_None)
    then have unb: "unat nb = bytes (free_list m1)" using F1(2) fb by (simp add: word_nat)
    then have "nb \<le> h_end h - h_start h" using le room by (simp add: word_le_nat_alt)
    then have res: "res = Inr (?h\<lparr>h_free_bytes := nb\<rparr>)"
      using run' m1(1) nb by (simp add: result_pure heap_count_def)
    have L: "heap_list (?h\<lparr>h_free_bytes := nb\<rparr>) = free_list m1"
      by (simp add: heap_list_def free_list_def)
    have "length (pm_free m1) = MAX_FREE_RANGES" using m1(2) len by (simp add: same_rest_def)
    then have "heap_inv (?h\<lparr>h_free_bytes := nb\<rparr>)"
      using inv m1(3) wf1 sub unb unfolding heap_inv_def L by simp
    then show ?thesis
      using res F1 L fb unb by (intro ok [of "?h\<lparr>h_free_bytes := nb\<rparr>"]) (simp_all add: heap_addrs_def)
  qed
qed

lemma heap_extent_nonempty [simp]: "heap_extent l a \<noteq> {}"
  by (simp add: heap_extent_def less_max_iff_disj)

lemma heap_deallocate_cases:
  assumes inv: "heap_inv h" and run: "heap_deallocate h s l = res"
  obtains (overflow) "res = Inl DeallocationOverflow" "2 ^ 64 \<le> unat s + max (unat (l_size l)) 1"
  | (outside) "res = Inl OutsideHeap"
      "\<not> heap_extent l s \<subseteq> {unat (h_start h)..<unat (h_end h)}"
  | (double) "res = Inl DoubleFree" "heap_extent l s \<inter> heap_addrs h \<noteq> {}"
  | (full) "res = Inl MetadataExhausted" "h_free_len h = MAX_FREE_RANGES"
      "heap_extent l s \<subseteq> {unat (h_start h)..<unat (h_end h)}" "heap_extent l s \<inter> heap_addrs h = {}"
      "unat s \<notin> hi ` set (heap_list h)"
      "unat s + max (unat (l_size l)) 1 \<notin> lo ` set (heap_list h)"
  | (ok) h' where "res = Inr h'" "heap_extent l s \<subseteq> {unat (h_start h)..<unat (h_end h)}"
      "heap_extent l s \<inter> heap_addrs h = {}" "heap_addrs h' = heap_addrs h \<union> heap_extent l s"
      "unat (h_free_bytes h') = unat (h_free_bytes h) + max (unat (l_size l)) 1"
      "h_start h' = h_start h" "h_end h' = h_end h" "heap_inv h'"
proof -
  let ?b = "max (l_size l) 1" and ?i = "find_slot (h_free h) (h_free_len h) s 0"
  have init: "h_initialized h" using inv by (simp add: heap_inv_def)
  show ?thesis
  proof (cases "checked_add s ?b")
    case None
    then have "heap_deallocate h s l = Inl DeallocationOverflow"
      using init by (simp add: heap_deallocate_def)
    with None run show ?thesis by (intro overflow) (simp_all add: checked_add_eq_None unat_size)
  next
    case (Some e)
    then have ue: "unat e = unat s + max (unat (l_size l)) 1" by (simp add: checked_add_eq_Some unat_size)
    then have se: "unat s < unat e" and ext: "heap_extent l s = {unat s..<unat e}"
      by (simp_all add: heap_extent_def less_max_iff_disj)
    have body: "res =
      (if \<not> (h_start h \<le> s \<and> e \<le> h_end h) then Inl OutsideHeap
       else if 0 < ?i \<and> s < r_end (h_free h ! (?i - 1)) \<or>
         ?i < h_free_len h \<and> r_start (h_free h ! ?i) < e then Inl DoubleFree
       else case heap_merge h ?i s e of
         None \<Rightarrow> Inl MetadataExhausted | Some h' \<Rightarrow> heap_count h' ?b)"
      using run init Some by (auto simp: heap_deallocate_def Let_def not_le)
    have inside: "h_start h \<le> s \<and> e \<le> h_end h \<longleftrightarrow>
        heap_extent l s \<subseteq> {unat (h_start h)..<unat (h_end h)}"
      unfolding ext ivl_subset using se by (simp add: word_le_nat_alt) 
    note body = body [unfolded inside heap_slot(1) [OF inv se], folded ext]
    consider (out) "\<not> heap_extent l s \<subseteq> {unat (h_start h)..<unat (h_end h)}"
      | (dbl) "heap_extent l s \<subseteq> {unat (h_start h)..<unat (h_end h)}"
        "heap_extent l s \<inter> heap_addrs h \<noteq> {}"
      | (go) "heap_extent l s \<subseteq> {unat (h_start h)..<unat (h_end h)}"
        "heap_extent l s \<inter> heap_addrs h = {}" by blast
    then show ?thesis
    proof cases
      case out then show ?thesis using body by (intro outside) simp_all
    next
      case dbl then show ?thesis using body by (intro double) simp_all
    next
      case go
      have b: "unat ?b = unat e - unat s" using ue by (simp add: unat_size)
      have r: "res = (case heap_merge h ?i s e of
        None \<Rightarrow> Inl MetadataExhausted | Some h' \<Rightarrow> heap_count h' ?b)"
        using body go by simp
      show ?thesis
      proof (rule heap_merge_cases [OF inv se go [unfolded ext] b r])
        assume "res = Inl MetadataExhausted" "h_free_len h = MAX_FREE_RANGES"
          "unat s \<notin> hi ` set (heap_list h)" "unat e \<notin> lo ` set (heap_list h)"
        then show ?thesis using go ue by (intro full) simp_all
      next
        fix h' assume "res = Inr h'" "heap_addrs h' = heap_addrs h \<union> {unat s..<unat e}"
          "unat (h_free_bytes h') = unat (h_free_bytes h) + unat ?b"
          "h_start h' = h_start h" "h_end h' = h_end h" "heap_inv h'"
        then show ?thesis using go ext by (intro ok [of h']) (simp_all add: unat_size)
      qed
    qed
  qed
qed

text \<open>Two states with the same free ranges and counters, up to unused array slots.\<close>

definition same_heap :: "heap_state \<Rightarrow> heap_state \<Rightarrow> bool" where
  "same_heap g h \<longleftrightarrow>
     heap_inv g \<and> heap_list g = heap_list h \<and> h_free_bytes g = h_free_bytes h \<and>
     h_start g = h_start h \<and> h_end g = h_end h"

lemma same_heap_refl: "heap_inv h \<Longrightarrow> same_heap h h"
  by (simp add: same_heap_def)

lemma heap_release_granted:
  assumes inv: "heap_inv h" and lay: "layout_ok l" and run: "heap_allocate h l = Inr (h1, Some s)"
    and same: "same_heap g h1"
  shows "\<exists>h2. heap_deallocate g s l = Inr h2 \<and> same_heap h2 h"
  using inv lay run
proof (cases rule: heap_allocate_cases)
  case (some h' t)
  then have eq: "h' = h1" "t = s" using run by simp_all
  note S = some(2-)[unfolded eq]
  let ?n = "max (unat (l_size l)) 1"
  have g: "heap_inv g" "heap_addrs g = heap_addrs h1" "h_start g = h_start h" "h_end g = h_end h"
    "h_free_bytes g = h_free_bytes h1"
    using same S(5,6) by (simp_all add: same_heap_def heap_addrs_def)
  have wf: "wf_ranges (heap_list h)" "wf_ranges (heap_list g)"
    and within: "heap_addrs h \<subseteq> {unat (h_start h)..<unat (h_end h)}"
    using inv g(1) by (simp_all add: heap_inv_def heap_addrs_def)
  obtain r where r: "heap_deallocate g s l = r" by simp
  from \<open>heap_inv g\<close> r show ?thesis
  proof (cases rule: heap_deallocate_cases)
    case overflow
    have "unat s + ?n - 1 \<in> heap_extent l s" by (simp add: heap_extent_def less_max_iff_disj)
    then have "unat s + ?n - 1 < unat (h_end h)" using S(2) within by auto
    then show ?thesis using overflow(2) unat_below [of "h_end h"] by simp
  next
    case outside
    then show ?thesis using S(2) g(3,4) within by auto
  next
    case double
    then show ?thesis using S(3) g(2) by auto
  next
    case full
    have "length (heap_list g) < length (heap_list h)"
      using carved_room [OF wf, of "unat s" "unat s + ?n"] S(2,3) full(5,6) g(2)
      by (simp add: heap_addrs_def heap_extent_def less_max_iff_disj)
    moreover have "length (heap_list g) = MAX_FREE_RANGES" "length (heap_list h) \<le> MAX_FREE_RANGES"
      using full(2) g(1) inv by (simp_all add: heap_inv_def heap_list_def)
    ultimately show ?thesis by simp
  next
    case (ok h2)
    then have "heap_list h2 = heap_list h"
      using wf_ranges_unique [of "heap_list h2" "heap_list h"] wf(1) S(2,3) g(2)
      by (auto simp: heap_inv_def heap_addrs_def)
    moreover have "h_free_bytes h2 = h_free_bytes h"
      using ok(5) S(4) g(5) by (simp add: word_unat_eq_iff)
    ultimately show ?thesis using ok r g(3,4) by (auto simp: same_heap_def)
  qed
qed (use run in simp)

section \<open>The heap as a pool of blocks\<close>

text \<open>A \<open>Layout\<close> that \<open>from_size_align\<close> refuses cannot reach the allocator.\<close>

definition heap_get :: "heap_state \<Rightarrow> layout \<Rightarrow> heap_state \<times> usize option" where
  "heap_get h l =
     (if layout_ok l then
        (case heap_allocate h l of Inr (h', r) \<Rightarrow> (h', r) | Inl _ \<Rightarrow> (h, None))
      else (h, None))"

definition heap_put :: "heap_state \<Rightarrow> layout \<Rightarrow> usize \<Rightarrow> heap_state \<times> bool" where
  "heap_put h l a =
     (case heap_deallocate h a l of Inr h' \<Rightarrow> (h', True) | Inl _ \<Rightarrow> (h, False))"

interpretation heap_pool: block_pool heap_inv heap_addrs heap_extent heap_get heap_put
proof
  fix h l h' a
  assume inv: "heap_inv h" and run: "heap_get h l = (h', Some a)"
  then have lay: "layout_ok l" by (simp add: heap_get_def split: if_splits)
  obtain res where r: "heap_allocate h l = res" by simp
  from inv lay r show "heap_inv h' \<and> heap_extent l a \<noteq> {} \<and> heap_extent l a \<subseteq> heap_addrs h \<and>
      heap_addrs h' = heap_addrs h - heap_extent l a"
    using run lay r by (cases rule: heap_allocate_cases) (auto simp: heap_get_def)
next
  fix h l h'
  assume inv: "heap_inv h" and run: "heap_get h l = (h', None)"
  show "h' = h"
  proof (cases "layout_ok l")
    case lay: True
    obtain res where r: "heap_allocate h l = res" by simp
    from inv lay r show ?thesis
      using run lay r by (cases rule: heap_allocate_cases) (auto simp: heap_get_def)
  qed (use run in \<open>simp add: heap_get_def\<close>)
next
  fix h l a h'
  assume inv: "heap_inv h" and run: "heap_put h l a = (h', True)"
  obtain res where r: "heap_deallocate h a l = res" by simp
  from inv r show "heap_inv h' \<and> heap_extent l a \<inter> heap_addrs h = {} \<and>
      heap_addrs h' = heap_addrs h \<union> heap_extent l a"
    using run r by (cases rule: heap_deallocate_cases) (auto simp: heap_put_def)
next
  fix h l a h'
  assume "heap_inv h" and "heap_put h l a = (h', False)"
  then show "h' = h" by (simp add: heap_put_def split: sum.splits)
qed

lemma heap_init_inv:
  assumes "heap_init heap_empty s bsize = Inr h"
  shows "heap_inv h" and "heap_list h = [\<lparr>r_start = s, r_end = s + bsize\<rparr>]"
    and "unat (s + bsize) = unat s + unat bsize"
proof -
  obtain e where e: "checked_add s bsize = Some e" and z: "bsize \<noteq> 0"
    and h: "h = heap_empty\<lparr>h_initialized := True, h_start := s, h_end := e,
      h_free := (h_free heap_empty)[0 := \<lparr>r_start = s, r_end = e\<rparr>],
      h_free_len := 1, h_free_bytes := bsize\<rparr>"
    using assms by (auto simp: heap_init_def heap_empty_def split: option.splits if_splits)
  have ue: "unat e = unat s + unat bsize" using e by (simp add: checked_add_eq_Some)
  have es: "e = s + bsize" using e by (simp add: checked_add_def split: if_splits)
  have lt: "s < e" using ue z by (simp add: word_less_nat_alt unat_gt_0)
  have L: "heap_list h = [\<lparr>r_start = s, r_end = e\<rparr>]"
    by (simp add: h heap_list_def heap_empty_def MAX_FREE_RANGES_def take_Suc hd_conv_nth)
  show "heap_list h = [\<lparr>r_start = s, r_end = s + bsize\<rparr>]" using L es by simp
  show "unat (s + bsize) = unat s + unat bsize" using ue es by simp
  have "unat s < unat e" using lt by (simp add: word_less_nat_alt)
  then show "heap_inv h"
    using lt ue unfolding heap_inv_def L by (simp add: h heap_empty_def MAX_FREE_RANGES_def)
qed

section \<open>What the heap promises\<close>

definition HEAP_START :: usize where
  "HEAP_START = 0x0000444400000000"

definition HEAP_SIZE :: usize where
  "HEAP_SIZE = 2 * 1024 * 1024"

text \<open>The heap as the kernel initialises it.\<close>

definition boot_heap :: heap_state where
  "boot_heap = heap_empty\<lparr>h_initialized := True, h_start := HEAP_START, h_end := 0x0000444400200000,
     h_free := (h_free heap_empty)[0 := \<lparr>r_start = HEAP_START, r_end = 0x0000444400200000\<rparr>],
     h_free_len := 1, h_free_bytes := HEAP_SIZE\<rparr>"

lemma boot_heap_init: "heap_init heap_empty HEAP_START HEAP_SIZE = Inr boot_heap"
  by (simp add: heap_init_def boot_heap_def HEAP_START_def HEAP_SIZE_def checked_add_def
      heap_empty_def)

lemmas boot_heap_inv = heap_init_inv(1) [OF boot_heap_init]

definition small_layout :: layout where
  "small_layout = \<lparr>l_size = 37, l_align = 8\<rparr>"

lemma layouts_ok: "layout_ok small_layout" "layout_ok \<lparr>l_size = 37, l_align = 8\<rparr>"
  "layout_ok \<lparr>l_size = 4096, l_align = 4096\<rparr>"
proof -
  have "is_power_of_two (8 :: u64)" "is_power_of_two (4096 :: u64)"
    unfolding is_power_of_two_iff by (intro exI [of _ 3], simp) (intro exI [of _ 12], simp)
  then show "layout_ok small_layout" "layout_ok \<lparr>l_size = 37, l_align = 8\<rparr>"
    "layout_ok \<lparr>l_size = 4096, l_align = 4096\<rparr>"
    by (simp_all add: layout_ok_def small_layout_def)
qed

definition boot_heap_small :: heap_state where
  "boot_heap_small = boot_heap\<lparr>h_free := (h_free boot_heap)[0 :=
       \<lparr>r_start = HEAP_START + 37, r_end = 0x0000444400200000\<rparr>],
     h_free_bytes := HEAP_SIZE - 37\<rparr>"

lemma boot_heap_alloc: "heap_allocate boot_heap small_layout = Inr (boot_heap_small, Some HEAP_START)"
proof -
  have "align_up HEAP_START 8 = Some HEAP_START"
    by (simp add: align_up_def checked_add_def HEAP_START_def)
  moreover have "max 37 1 = (37 :: u64)" by (simp add: max_def word_le_nat_alt)
  ultimately show ?thesis
    by (simp add: heap_allocate_def boot_heap_def boot_heap_small_def small_layout_def heap_empty_def
        MAX_FREE_RANGES_def checked_add_def HEAP_START_def HEAP_SIZE_def heap_split_def
        heap_set_start_def)
qed



text \<open>
  C7: \<open>HeapState::deallocate\<close> on an initialised heap accepts exactly the blocks inside the heap
  that meet no free byte, and adds exactly that block. Every panic has its cause: the block
  leaves the heap, meets free memory (a double free), or the array of 256 ranges is full and
  the block touches no free range. The counter checks at the end cannot fail. In particular
  a block that was just granted can always be given back, which restores the same ranges.
\<close>

theorem heap_deallocate_correct:
  assumes "heap_inv h"
  shows "(case heap_deallocate h s l of
     Inr h' \<Rightarrow>
       heap_inv h' \<and> heap_extent l s \<subseteq> {unat (h_start h)..<unat (h_end h)} \<and>
       heap_extent l s \<inter> heap_addrs h = {} \<and> heap_addrs h' = heap_addrs h \<union> heap_extent l s \<and>
       unat (h_free_bytes h') = unat (h_free_bytes h) + max (unat (l_size l)) 1
   | Inl DeallocationOverflow \<Rightarrow> 2 ^ 64 \<le> unat s + max (unat (l_size l)) 1
   | Inl OutsideHeap \<Rightarrow> \<not> heap_extent l s \<subseteq> {unat (h_start h)..<unat (h_end h)}
   | Inl DoubleFree \<Rightarrow> heap_extent l s \<inter> heap_addrs h \<noteq> {}
   | Inl MetadataExhausted \<Rightarrow>
       h_free_len h = MAX_FREE_RANGES \<and> unat s \<notin> hi ` set (heap_list h) \<and>
       unat s + max (unat (l_size l)) 1 \<notin> lo ` set (heap_list h)
   | Inl _ \<Rightarrow> False) \<and>
   (\<forall>g a. layout_ok l \<and> heap_inv g \<and> heap_allocate g l = Inr (h, Some a) \<longrightarrow>
      (\<exists>h'. heap_deallocate h a l = Inr h' \<and> heap_list h' = heap_list g))"
proof -
  have returned: "\<exists>h'. heap_deallocate h a l = Inr h' \<and> heap_list h' = heap_list g"
    if "layout_ok l" "heap_inv g" "heap_allocate g l = Inr (h, Some a)" for g a
    using heap_release_granted [OF that(2,1,3) same_heap_refl [OF assms]]
    by (auto simp: same_heap_def)
  obtain res where r: "heap_deallocate h s l = res" by simp
  from assms r show ?thesis
    by (cases rule: heap_deallocate_cases) (use r returned in simp_all)
qed

theorem heap_deallocate_correct_witness:
  "\<exists>h'. heap_deallocate boot_heap_small HEAP_START small_layout = Inr h' \<and>
     heap_list h' = heap_list boot_heap"
proof -
  have "heap_inv boot_heap_small"
    using heap_pool.alloc_some [OF boot_heap_inv, of small_layout boot_heap_small HEAP_START]
    by (simp add: heap_get_def layouts_ok boot_heap_alloc)
  from heap_deallocate_correct [OF this, of HEAP_START small_layout] show ?thesis
    using boot_heap_inv layouts_ok(1) boot_heap_alloc by blast
qed

text \<open>
  The boot smoke test \<open>KernelAllocator::verify\<close> can only fail because one of its two
  allocations fails: the alignment check, the two deallocations and the final comparison of
  the byte counts never panic, and the free ranges are afterwards what they were.
\<close>

theorem heap_verify_restores:
  assumes "heap_inv h"
  shows "case heap_verify h of
     Inr h' \<Rightarrow> heap_inv h' \<and> heap_list h' = heap_list h \<and> h_free_bytes h' = h_free_bytes h
   | Inl p \<Rightarrow> p = SmallAllocationFailed \<or> p = PageAllocationFailed"
proof -
  let ?small = "\<lparr>l_size = 37, l_align = 8\<rparr> :: layout"
    and ?page = "\<lparr>l_size = 4096, l_align = 4096\<rparr> :: layout"
  have alloc: "\<exists>h1 r. heap_allocate g l = Inr (h1, r) \<and> (\<forall>s. r = Some s \<longrightarrow> heap_inv h1 \<and>
      unat (l_align l) dvd unat s)" if "heap_inv g" "layout_ok l" for g l
    using that by (cases rule: heap_allocate_cases [OF _ _ refl]) auto
  obtain h1 r1 where a1: "heap_allocate h ?small = Inr (h1, r1)"
    and i1: "\<And>s. r1 = Some s \<Longrightarrow> heap_inv h1"
    using alloc [OF assms layouts_ok(2)] by auto
  show ?thesis
  proof (cases "r1 = None \<or> r1 = Some 0")
    case True
    then show ?thesis using a1 by (auto simp: heap_verify_def global_alloc_def)
  next
    case False
    then obtain first where r1: "r1 = Some first" "first \<noteq> 0" by auto
    have inv1: "heap_inv h1" using i1 r1 by simp
    obtain h2 r2 where a2: "heap_allocate h1 ?page = Inr (h2, r2)"
      and d2: "\<And>s. r2 = Some s \<Longrightarrow> 4096 dvd unat s" and i2: "\<And>s. r2 = Some s \<Longrightarrow> heap_inv h2"
      using alloc [OF inv1 layouts_ok(3)] by auto
    show ?thesis
    proof (cases "r2 = None \<or> r2 = Some 0")
      case True
      then show ?thesis using a1 a2 r1 by (auto simp: heap_verify_def global_alloc_def)
    next
      case False
      then obtain second where r2: "r2 = Some second" "second \<noteq> 0" by auto
      have m: "second mod 4096 = 0"
        using d2 [OF r2(1)] dvd_page_iff [of second] by (simp add: PAGE_SIZE_def)
      obtain h3 where h3: "heap_deallocate h2 second ?page = Inr h3" "same_heap h3 h1"
        using heap_release_granted [OF inv1 layouts_ok(3) a2 [unfolded r2(1)]] i2 [OF r2(1)]
          same_heap_refl by blast
      obtain h4 where h4: "heap_deallocate h3 first ?small = Inr h4" "same_heap h4 h"
        using heap_release_granted [OF assms layouts_ok(2) a1 [unfolded r1(1)] h3(2)] by blast
      have "heap_verify h = Inr h4"
        using a1 a2 r1 r2 m h3(1) h4 by (simp add: heap_verify_def global_alloc_def same_heap_def)
      with h4(2) show ?thesis by (simp add: same_heap_def)
    qed
  qed
qed

theorem heap_verify_restores_witness:
  "heap_inv boot_heap \<and>
   (case heap_verify boot_heap of
      Inr h' \<Rightarrow> heap_inv h' \<and> heap_list h' = heap_list boot_heap
    | Inl p \<Rightarrow> p = SmallAllocationFailed \<or> p = PageAllocationFailed)"
  using heap_verify_restores [OF boot_heap_inv] boot_heap_inv
  by (cases "heap_verify boot_heap") simp_all

text \<open>
  C23: From the initialised heap \<open>[s, s + n)\<close> on, over any sequence of allocations and
  deallocations of live blocks, the live blocks never overlap one another or free memory,
  and together with the free memory they are exactly the heap: nothing leaks, nothing
  outside the heap is ever handed out. When all blocks are returned, one range is left.
\<close>

theorem heap_blocks_disjoint:
  assumes "heap_init heap_empty s n = Inr h"
    and "pool_run heap_get heap_put (h, []) cmds = (h', live)"
  shows "heap_inv h' \<and> separate heap_extent live \<and> held heap_extent live \<inter> heap_addrs h' = {} \<and>
    held heap_extent live \<union> heap_addrs h' = {unat s..<unat s + unat n} \<and>
    (live = [] \<longrightarrow> heap_list h' = [\<lparr>r_start = s, r_end = s + n\<rparr>])"
proof -
  note init = heap_init_inv [OF assms(1)]
  have "heap_addrs h = {unat s..<unat s + unat n}"
    by (simp add: heap_addrs_def init(2,3))
  note run = heap_pool.run_from_start [OF init(1) assms(2), unfolded this]
  have "heap_list h' = heap_list h" if "live = []"
    using run(1,4) init that wf_ranges_unique [of "heap_list h'" "heap_list h"]
    by (simp add: held_def heap_inv_def heap_addrs_def)
  with run init(2) show ?thesis by simp
qed

theorem heap_blocks_disjoint_witness:
  "heap_init heap_empty HEAP_START HEAP_SIZE = Inr boot_heap \<and>
   pool_run heap_get heap_put (boot_heap, []) [Get small_layout] =
     (boot_heap_small, [(small_layout, HEAP_START)]) \<and>
   held heap_extent [(small_layout, HEAP_START)] \<inter> heap_addrs boot_heap_small = {}"
proof -
  have run: "pool_run heap_get heap_put (boot_heap, []) [Get small_layout] =
     (boot_heap_small, [(small_layout, HEAP_START)])"
    by (simp add: pool_run_def pool_step_def heap_get_def layouts_ok boot_heap_alloc)
  from heap_blocks_disjoint [OF boot_heap_init run] boot_heap_init run show ?thesis by simp
qed

end
