(* ===== verification/Byte_Fields.thy ===== *)
theory Byte_Fields
  imports Kernel_Prelude
begin

text \<open>
  Byte slices and little-endian fields: \<open>slice::get\<close> with a range, \<open>from_le_bytes\<close> and
  \<open>to_le_bytes\<close> of the Rust standard library, shared by the parsers and the disk format.
\<close>

text \<open>\<open>data.get(s..e)\<close>: \<open>None\<close> when the range is reversed or leaves the slice.\<close>

definition slice_get :: "'a list \<Rightarrow> usize \<Rightarrow> usize \<Rightarrow> 'a list option" where
  "slice_get xs s e =
     (if s \<le> e \<and> unat e \<le> length xs then Some (take (unat e - unat s) (drop (unat s) xs)) else None)"

fun le_nat :: "byte list \<Rightarrow> nat" where
  "le_nat [] = 0"
| "le_nat (b # bs) = unat b + 256 * le_nat bs"

fun le_bytes :: "nat \<Rightarrow> nat \<Rightarrow> byte list" where
  "le_bytes 0 n = []"
| "le_bytes (Suc k) n = of_nat n # le_bytes k (n div 256)"

definition le_word :: "byte list \<Rightarrow> 'a::len word" where
  "le_word bs = of_nat (le_nat bs)"

text \<open>The field of \<open>n\<close> bytes at \<open>off\<close>.\<close>

definition field :: "byte list \<Rightarrow> nat \<Rightarrow> nat \<Rightarrow> nat" where
  "field xs off n = le_nat (take n (drop off xs))"

lemma unat_byte: "unat (b :: byte) < 256"
  using unsigned_less [of b] by simp

lemma le_nat_bound: "le_nat bs < 256 ^ length bs"
proof (induction bs)
  case (Cons b bs)
  have "256 * (le_nat bs + 1) \<le> 256 * 256 ^ length bs"
    using Cons by (intro mult_le_mono2) simp
  then show ?case using unat_byte [of b] by simp
qed simp

lemma length_le_bytes [simp]: "length (le_bytes k n) = k"
  by (induction k arbitrary: n) simp_all

lemma le_nat_le_bytes: "le_nat (le_bytes k n) = n mod 256 ^ k"
proof (induction k arbitrary: n)
  case (Suc k)
  have "unat (of_nat n :: byte) = n mod 256" by (simp add: unat_of_nat)
  moreover have "n mod 256 + 256 * (n div 256 mod 256 ^ k) = n mod (256 * 256 ^ k)"
    by (simp add: mod_mult2_eq)
  ultimately show ?case using Suc by simp
qed simp

lemma le_bytes_le_nat: "length bs = k \<Longrightarrow> le_bytes k (le_nat bs) = bs"
proof (induction bs arbitrary: k)
  case (Cons b bs)
  have "(of_nat (256 * le_nat bs) :: byte) = of_nat 0"
    by (subst word_of_nat_eq_iff) (simp add: take_bit_eq_mod)
  moreover have "(unat b + 256 * le_nat bs) div 256 = le_nat bs"
    using unat_byte [of b] by simp
  ultimately show ?case using Cons by (cases k) simp_all
qed simp

lemma unat_le_word:
  assumes "8 * length bs \<le> LENGTH('a)"
  shows "unat (le_word bs :: 'a::len word) = le_nat bs"
proof -
  have "(256 :: nat) ^ length bs = 2 ^ (8 * length bs)" by (simp add: power_mult)
  also have "\<dots> \<le> 2 ^ LENGTH('a)" using assms by (intro power_increasing) simp_all
  finally have "le_nat bs < 2 ^ LENGTH('a)" using le_nat_bound [of bs] by linarith
  then show ?thesis by (simp add: le_word_def unat_of_nat)
qed

lemma le_word_le_bytes:
  assumes "8 * k = LENGTH('a)"
  shows "le_word (le_bytes k (unat w)) = (w :: 'a::len word)"
proof -
  have "(256 :: nat) ^ k = 2 ^ LENGTH('a)" using assms by (simp add: power_mult flip: assms)
  then show ?thesis by (simp add: le_word_def le_nat_le_bytes)
qed

lemma field_bound: "field xs off n < 256 ^ n"
proof -
  have "le_nat (take n (drop off xs)) < 256 ^ length (take n (drop off xs))" by (rule le_nat_bound)
  also have "\<dots> \<le> 256 ^ n" by (intro power_increasing) simp_all
  finally show ?thesis by (simp add: field_def)
qed

lemma slice_get_nat:
  assumes "unat s + n < 2 ^ 64"
  shows "slice_get xs s (s + of_nat n) =
    (if unat s + n \<le> length xs then Some (take n (drop (unat s) xs)) else None)"
proof -
  have e: "unat (s + of_nat n) = unat s + n"
    using assms unat_below [of s] by (simp add: unat_word_ariths unat_of_nat)
  then show ?thesis by (simp add: slice_get_def word_le_nat_alt)
qed

end
