(* ===== verification/Elf_Loader.thy ===== *)
theory Elf_Loader
  imports Byte_Fields
begin

text \<open>
  The ELF64 parser of \<open>crates/kernel-core/src/elf.rs\<close>. \<open>usize::try_from\<close> of a \<open>u64\<close> cannot
  fail on the 64-bit target; the offsets are 64-bit words.
\<close>

definition ELF_HEADER_SIZE :: usize where "ELF_HEADER_SIZE = 64"

definition PROGRAM_HEADER_SIZE :: usize where "PROGRAM_HEADER_SIZE = 56"

definition PT_LOAD :: u32 where "PT_LOAD = 1"

datatype elf_error =
  Elf_TooSmall | Elf_BadMagic | Elf_UnsupportedClass | Elf_UnsupportedEndian |
  Elf_UnsupportedVersion | Elf_UnsupportedType | Elf_UnsupportedMachine | Elf_InvalidHeader |
  Elf_TruncatedProgramHeaders | Elf_InvalidSegment | Elf_TruncatedSegment

record load_segment =
  seg_virtual_address :: u64
  seg_memory_size :: u64
  seg_file_data :: "byte list"
  seg_readable :: bool
  seg_writable :: bool
  seg_executable :: bool
  seg_alignment :: u64

record elf_image =
  elf_entry :: u64
  elf_segments :: "load_segment list"

definition elf_read_u16 :: "byte list \<Rightarrow> usize \<Rightarrow> elf_error + u16" where
  "elf_read_u16 data off =
     rbind (ok_or (slice_get data off (off + 2)) Elf_InvalidHeader) (\<lambda>bs. Inr (le_word bs))"

definition elf_read_u32 :: "byte list \<Rightarrow> usize \<Rightarrow> elf_error + u32" where
  "elf_read_u32 data off =
     rbind (ok_or (slice_get data off (off + 4)) Elf_InvalidHeader) (\<lambda>bs. Inr (le_word bs))"

definition elf_read_u64 :: "byte list \<Rightarrow> usize \<Rightarrow> elf_error + u64" where
  "elf_read_u64 data off =
     rbind (ok_or (slice_get data off (off + 8)) Elf_InvalidHeader) (\<lambda>bs. Inr (le_word bs))"

text \<open>One round of the loop over the program headers: \<open>None\<close> when the header is skipped.\<close>

definition elf_segment :: "byte list \<Rightarrow> usize \<Rightarrow> elf_error + load_segment option" where
  "elf_segment data base =
     rbind (elf_read_u32 data base) (\<lambda>p_type.
     if p_type \<noteq> PT_LOAD then Inr None
     else
       rbind (elf_read_u32 data (base + 4)) (\<lambda>flags.
       rbind (elf_read_u64 data (base + 8)) (\<lambda>off.
       rbind (elf_read_u64 data (base + 16)) (\<lambda>virtual_address.
       rbind (elf_read_u64 data (base + 32)) (\<lambda>file_size.
       rbind (elf_read_u64 data (base + 40)) (\<lambda>memory_size.
       rbind (elf_read_u64 data (base + 48)) (\<lambda>alignment.
       if memory_size < file_size \<or>
          (alignment \<noteq> 0 \<and> \<not> is_power_of_two alignment) \<or>
          (1 < alignment \<and> virtual_address mod alignment \<noteq> off mod alignment)
       then Inl Elf_InvalidSegment
       else
         rbind (ok_or (checked_add off file_size) Elf_TruncatedSegment) (\<lambda>e.
         if length data < unat e then Inl Elf_TruncatedSegment
         else Inr (Some \<lparr>seg_virtual_address = virtual_address, seg_memory_size = memory_size,
           seg_file_data = take (unat e - unat off) (drop (unat off) data),
           seg_readable = (flags AND 4 \<noteq> 0), seg_writable = (flags AND 2 \<noteq> 0),
           seg_executable = (flags AND 1 \<noteq> 0), seg_alignment = alignment\<rparr>)))))))))"

fun elf_loop ::
  "byte list \<Rightarrow> usize \<Rightarrow> usize \<Rightarrow> nat list \<Rightarrow> load_segment list \<Rightarrow> elf_error + load_segment list" where
  "elf_loop data phoff phentsize [] segments = Inr segments"
| "elf_loop data phoff phentsize (index # rest) segments =
     rbind (elf_segment data (phoff + of_nat index * phentsize)) (\<lambda>r.
     case r of
       None \<Rightarrow> elf_loop data phoff phentsize rest segments
     | Some seg \<Rightarrow> elf_loop data phoff phentsize rest (segments @ [seg]))"

definition elf_parse :: "byte list \<Rightarrow> elf_error + elf_image" where
  "elf_parse data =
     (if length data < unat ELF_HEADER_SIZE then Inl Elf_TooSmall
      else if take 4 data \<noteq> [0x7f, 0x45, 0x4c, 0x46] then Inl Elf_BadMagic
      else if data ! 4 \<noteq> 2 then Inl Elf_UnsupportedClass
      else if data ! 5 \<noteq> 1 then Inl Elf_UnsupportedEndian
      else if data ! 6 \<noteq> 1 then Inl Elf_UnsupportedVersion
      else
        rbind (elf_read_u16 data 16) (\<lambda>e_type. if e_type \<noteq> 2 then Inl Elf_UnsupportedType else
        rbind (elf_read_u16 data 18) (\<lambda>machine. if machine \<noteq> 62 then Inl Elf_UnsupportedMachine else
        rbind (elf_read_u32 data 20) (\<lambda>version. if version \<noteq> 1 then Inl Elf_UnsupportedVersion else
        rbind (elf_read_u64 data 24) (\<lambda>entry.
        rbind (elf_read_u64 data 32) (\<lambda>phoff.
        rbind (elf_read_u16 data 52) (\<lambda>eh. let ehsize = ucast eh :: usize in
        rbind (elf_read_u16 data 54) (\<lambda>pe. let phentsize = ucast pe :: usize in
        rbind (elf_read_u16 data 56) (\<lambda>pn. let phnum = ucast pn :: usize in
        if ehsize < ELF_HEADER_SIZE \<or> phentsize \<noteq> PROGRAM_HEADER_SIZE then Inl Elf_InvalidHeader
        else
          rbind (ok_or
              (Option.bind (checked_mul phentsize phnum) (checked_add phoff))
              Elf_TruncatedProgramHeaders) (\<lambda>phbytes.
          if length data < unat phbytes then Inl Elf_TruncatedProgramHeaders
          else
            rbind (elf_loop data phoff phentsize [0..<unat phnum] []) (\<lambda>segments.
            if segments = [] then Inl Elf_InvalidSegment
            else Inr \<lparr>elf_entry = entry, elf_segments = segments\<rparr>)))))))))))"

section \<open>The file format\<close>

text \<open>What an accepted file looks like, over the fields of the ELF specification.\<close>

definition e_phoff :: "byte list \<Rightarrow> nat" where "e_phoff data = field data 32 8"

definition e_phnum :: "byte list \<Rightarrow> nat" where "e_phnum data = field data 56 2"

definition elf_header_ok :: "byte list \<Rightarrow> bool" where
  "elf_header_ok data \<longleftrightarrow>
     64 \<le> length data \<and> take 4 data = [0x7f, 0x45, 0x4c, 0x46] \<and>
     data ! 4 = 2 \<and> data ! 5 = 1 \<and> data ! 6 = 1 \<and>
     field data 16 2 = 2 \<and> field data 18 2 = 62 \<and> field data 20 4 = 1 \<and>
     64 \<le> field data 52 2 \<and> field data 54 2 = 56 \<and>
     e_phoff data + 56 * e_phnum data \<le> length data"

definition ph_base :: "byte list \<Rightarrow> nat \<Rightarrow> nat" where
  "ph_base data i = e_phoff data + i * 56"

definition ph_load :: "byte list \<Rightarrow> nat \<Rightarrow> bool" where
  "ph_load data i \<longleftrightarrow> field data (ph_base data i) 4 = 1"

text \<open>The condition on a loadable program header at \<open>b\<close>, and the segment it describes.\<close>

definition ph_consistent :: "byte list \<Rightarrow> nat \<Rightarrow> bool" where
  "ph_consistent data b \<longleftrightarrow>
     (let off = field data (b + 8) 8; va = field data (b + 16) 8;
          filesz = field data (b + 32) 8; memsz = field data (b + 40) 8;
          al = field data (b + 48) 8
      in filesz \<le> memsz \<and> (al = 0 \<or> (\<exists>k. al = 2 ^ k)) \<and>
         (1 < al \<longrightarrow> va mod al = off mod al))"

definition ph_in_file :: "byte list \<Rightarrow> nat \<Rightarrow> bool" where
  "ph_in_file data b \<longleftrightarrow> field data (b + 8) 8 + field data (b + 32) 8 \<le> length data"

definition ph_segment :: "byte list \<Rightarrow> nat \<Rightarrow> load_segment" where
  "ph_segment data b =
     \<lparr>seg_virtual_address = of_nat (field data (b + 16) 8),
      seg_memory_size = of_nat (field data (b + 40) 8),
      seg_file_data = take (field data (b + 32) 8) (drop (field data (b + 8) 8) data),
      seg_readable = odd (field data (b + 4) 4 div 4),
      seg_writable = odd (field data (b + 4) 4 div 2),
      seg_executable = odd (field data (b + 4) 4),
      seg_alignment = of_nat (field data (b + 48) 8)\<rparr>"

section \<open>Reading fields\<close>

lemma elf_read:
  assumes "length data < 2 ^ 64" and "unat off + n \<le> length data" and "n = 8"
  shows "elf_read_u64 data off = Inr (of_nat (field data (unat off) 8))"
  using assms slice_get_nat [of off 8 data]
  by (simp add: elf_read_u64_def field_def le_word_def)

lemma elf_read_small:
  assumes "length data < 2 ^ 64"
  shows "unat off + 4 \<le> length data \<Longrightarrow>
      elf_read_u32 data off = Inr (of_nat (field data (unat off) 4))"
    and "unat off + 2 \<le> length data \<Longrightarrow>
      elf_read_u16 data off = Inr (of_nat (field data (unat off) 2))"
  using assms slice_get_nat [of off 4 data] slice_get_nat [of off 2 data]
  by (simp_all add: elf_read_u32_def elf_read_u16_def field_def le_word_def)

lemma unat_field:
  "unat (of_nat (field data off 8) :: u64) = field data off 8"
  "unat (of_nat (field data off 4) :: u32) = field data off 4"
  "unat (of_nat (field data off 2) :: u16) = field data off 2"
  using field_bound [of data off 8] field_bound [of data off 4] field_bound [of data off 2]
  by (simp_all add: unat_of_nat)

lemma read_at:
  assumes "length data < 2 ^ 64" and "unat base + 56 \<le> length data"
  shows "elf_read_u32 data base = Inr (of_nat (field data (unat base) 4))"
    and "elf_read_u32 data (base + 4) = Inr (of_nat (field data (unat base + 4) 4))"
    and "elf_read_u64 data (base + 8) = Inr (of_nat (field data (unat base + 8) 8))"
    and "elf_read_u64 data (base + 16) = Inr (of_nat (field data (unat base + 16) 8))"
    and "elf_read_u64 data (base + 32) = Inr (of_nat (field data (unat base + 32) 8))"
    and "elf_read_u64 data (base + 40) = Inr (of_nat (field data (unat base + 40) 8))"
    and "elf_read_u64 data (base + 48) = Inr (of_nat (field data (unat base + 48) 8))"
proof -
  have off: "unat (base + w) = unat base + unat w" if "unat w < 56" for w
    using that assms by (intro unat_add_small) simp
  show "elf_read_u32 data base = Inr (of_nat (field data (unat base) 4))"
    using assms by (intro elf_read_small(1)) simp_all
  show "elf_read_u32 data (base + 4) = Inr (of_nat (field data (unat base + 4) 4))"
    using elf_read_small(1) [of data "base + 4"] off [of 4] assms by simp
  show "elf_read_u64 data (base + 8) = Inr (of_nat (field data (unat base + 8) 8))"
    using elf_read [of data "base + 8" 8] off [of 8] assms by simp
  show "elf_read_u64 data (base + 16) = Inr (of_nat (field data (unat base + 16) 8))"
    using elf_read [of data "base + 16" 8] off [of 16] assms by simp
  show "elf_read_u64 data (base + 32) = Inr (of_nat (field data (unat base + 32) 8))"
    using elf_read [of data "base + 32" 8] off [of 32] assms by simp
  show "elf_read_u64 data (base + 40) = Inr (of_nat (field data (unat base + 40) 8))"
    using elf_read [of data "base + 40" 8] off [of 40] assms by simp
  show "elf_read_u64 data (base + 48) = Inr (of_nat (field data (unat base + 48) 8))"
    using elf_read [of data "base + 48" 8] off [of 48] assms by simp
qed

lemma PT_LOAD_field: "(of_nat (field data b 4) :: u32) \<noteq> PT_LOAD \<longleftrightarrow> field data b 4 \<noteq> 1"
  by (metis PT_LOAD_def of_nat_1 unat_1 unat_field(2))

lemma flags_field:
  "((of_nat (field data b 4) :: u32) AND 4 \<noteq> 0) \<longleftrightarrow> odd (field data b 4 div 4)"
  "((of_nat (field data b 4) :: u32) AND 2 \<noteq> 0) \<longleftrightarrow> odd (field data b 4 div 2)"
  "((of_nat (field data b 4) :: u32) AND 1 \<noteq> 0) \<longleftrightarrow> odd (field data b 4)"
  using flag_bit [of 2 "of_nat (field data b 4) :: u32"]
    flag_bit [of 1 "of_nat (field data b 4) :: u32"]
    flag_bit [of 0 "of_nat (field data b 4) :: u32"]
  by (simp_all only: unat_field) simp_all

text \<open>The checks on the fields of a loadable header.\<close>

lemma seg_guard:
  fixes fs ms al va off :: nat
  assumes "fs < 2 ^ 64" "ms < 2 ^ 64" "al < 2 ^ 64" "va < 2 ^ 64" "off < 2 ^ 64"
  shows "((of_nat ms :: u64) < of_nat fs \<or> (of_nat al :: u64) \<noteq> 0 \<and> \<not> is_power_of_two (of_nat al :: u64) \<or>
      (1 :: u64) < of_nat al \<and> (of_nat va :: u64) mod of_nat al \<noteq> of_nat off mod of_nat al) \<longleftrightarrow>
    \<not> (fs \<le> ms \<and> (al = 0 \<or> (\<exists>k. al = 2 ^ k)) \<and> (1 < al \<longrightarrow> va mod al = off mod al))"
proof -
  have u: "unat (of_nat n :: u64) = n" if "n < 2 ^ 64" for n
    using that by (simp add: unat_of_nat)
  have 1: "(of_nat ms :: u64) < of_nat fs \<longleftrightarrow> \<not> fs \<le> ms"
    using assms by (simp add: word_less_nat_alt u not_le)
  have 2: "(of_nat al :: u64) \<noteq> 0 \<longleftrightarrow> al \<noteq> 0"
    unfolding unat_eq_zero [symmetric] u [OF assms(3)] ..
  have 3: "(1 :: u64) < of_nat al \<longleftrightarrow> 1 < al"
    using assms(3) by (simp add: word_less_nat_alt u)
  have 4: "(of_nat va :: u64) mod of_nat al = of_nat off mod of_nat al \<longleftrightarrow> va mod al = off mod al"
    using assms by (simp add: word_unat_eq_iff unat_mod u)
  show ?thesis
    unfolding 1 2 3 4 is_power_of_two_of_nat [OF assms(3)] by argo
qed

lemma elf_segment_spec:
  assumes "length data < 2 ^ 64" and "unat base + 56 \<le> length data"
  shows "elf_segment data base =
    (if field data (unat base) 4 \<noteq> 1 then Inr None
     else if \<not> ph_consistent data (unat base) then Inl Elf_InvalidSegment
     else if \<not> ph_in_file data (unat base) then Inl Elf_TruncatedSegment
     else Inr (Some (ph_segment data (unat base))))"
proof -
  let ?b = "unat base"
  let ?off = "field data (?b + 8) 8" and ?fs = "field data (?b + 32) 8"
  have f8: "field data k 8 < 2 ^ 64" for k using field_bound [of data k 8] by simp
  note guard = seg_guard [of ?fs "field data (?b + 40) 8" "field data (?b + 48) 8"
      "field data (?b + 16) 8" ?off, OF f8 f8 f8 f8 f8]
  have cons: "ph_consistent data ?b \<longleftrightarrow>
      (?fs \<le> field data (?b + 40) 8 \<and>
       (field data (?b + 48) 8 = 0 \<or> (\<exists>k. field data (?b + 48) 8 = 2 ^ k)) \<and>
       (1 < field data (?b + 48) 8 \<longrightarrow>
          field data (?b + 16) 8 mod field data (?b + 48) 8 = ?off mod field data (?b + 48) 8))"
    by (simp add: ph_consistent_def Let_def)
  note unf = elf_segment_def read_at [OF assms] rbind_simps PT_LOAD_field guard cons [symmetric]
  show ?thesis
  proof (cases "checked_add (of_nat ?off :: u64) (of_nat ?fs)")
    case None
    then have "2 ^ 64 \<le> ?off + ?fs" by (simp add: checked_add_eq_None unat_field)
    then have "\<not> ph_in_file data ?b" using assms(1) by (simp add: ph_in_file_def)
    then show ?thesis unfolding unf None by simp
  next
    case (Some e)
    then have e: "unat e = ?off + ?fs" by (simp add: checked_add_eq_Some unat_field)
    then have "length data < unat e \<longleftrightarrow> \<not> ph_in_file data ?b"
      by (simp add: ph_in_file_def not_le)
    then show ?thesis
      unfolding unf Some by (simp add: ph_segment_def flags_field unat_field e)
  qed
qed

section \<open>The loop over the program headers\<close>

definition ph_ok :: "byte list \<Rightarrow> nat \<Rightarrow> bool" where
  "ph_ok data i \<longleftrightarrow>
     (ph_load data i \<longrightarrow> ph_consistent data (ph_base data i) \<and> ph_in_file data (ph_base data i))"

lemma elf_loop_spec:
  assumes len: "length data < 2 ^ 64" and phoff: "unat phoff = e_phoff data"
    and fits: "\<forall>i\<in>set is. ph_base data i + 56 \<le> length data"
  shows "elf_loop data phoff 56 is segs = Inr out \<longleftrightarrow>
      (\<forall>i\<in>set is. ph_ok data i) \<and>
      out = segs @ map (\<lambda>i. ph_segment data (ph_base data i)) (filter (ph_load data) is)"
  using fits
proof (induction "is" arbitrary: segs)
  case Nil
  then show ?case by auto
next
  case (Cons i "is")
  have b: "ph_base data i + 56 \<le> length data" using Cons.prems by simp
  have i64: "i < 2 ^ 64" using b len by (simp add: ph_base_def)
  have m: "unat (of_nat i * 56 :: u64) = i * 56"
    using b len by (simp add: unat_word_ariths unat_of_nat ph_base_def i64)
  have u: "unat (phoff + of_nat i * 56) = ph_base data i"
    using b len unat_add_small [of phoff "of_nat i * 56"] by (simp add: m phoff ph_base_def)
  have seg: "elf_segment data (phoff + of_nat i * 56) =
    (if \<not> ph_load data i then Inr None
     else if \<not> ph_consistent data (ph_base data i) then Inl Elf_InvalidSegment
     else if \<not> ph_in_file data (ph_base data i) then Inl Elf_TruncatedSegment
     else Inr (Some (ph_segment data (ph_base data i))))"
    using elf_segment_spec [OF len, of "phoff + of_nat i * 56"] b u by (simp add: ph_load_def)
  have IH: "elf_loop data phoff 56 is segs' = Inr out \<longleftrightarrow> (\<forall>i\<in>set is. ph_ok data i) \<and>
      out = segs' @ map (\<lambda>i. ph_segment data (ph_base data i)) (filter (ph_load data) is)" for segs'
    using Cons by simp
  show ?case
    unfolding elf_loop.simps seg by (simp add: IH ph_ok_def)
qed

lemma field_eq:
  "(of_nat (field data b 2) :: u16) = w \<longleftrightarrow> field data b 2 = unat w"
  "(of_nat (field data b 4) :: u32) = v \<longleftrightarrow> field data b 4 = unat v"
  by (simp_all add: word_unat_eq_iff unat_field)

lemma unat_ucast_field: "unat (ucast (of_nat (field data b 2) :: u16) :: u64) = field data b 2"
  using field_bound [of data b 2] by (simp add: unsigned_ucast_eq unat_field take_bit_eq_mod)

text \<open>The table of program headers, computed without overflow.\<close>

lemma ph_table:
  assumes "length data < 2 ^ 64"
  shows "(\<exists>b. Option.bind (checked_mul 56 (ucast (of_nat (field data 56 2) :: u16)))
        (checked_add (of_nat (field data 32 8) :: u64)) = Some b \<and> \<not> length data < unat b) \<longleftrightarrow>
      e_phoff data + 56 * e_phnum data \<le> length data"
proof -
  let ?n = "ucast (of_nat (field data 56 2) :: u16) :: u64"
  have n: "unat ?n = e_phnum data" by (simp add: unat_ucast_field e_phnum_def)
  have "e_phnum data < 65536" using field_bound [of data 56 2] by (simp add: e_phnum_def)
  then obtain m where m: "checked_mul 56 ?n = Some m" "unat m = 56 * e_phnum data"
    by (cases "checked_mul 56 ?n") (auto simp: checked_mul_eq_None checked_mul_eq_Some n)
  have off: "unat (of_nat (field data 32 8) :: u64) = e_phoff data"
    by (simp add: unat_field e_phoff_def)
  show ?thesis
  proof (cases "checked_add (of_nat (field data 32 8) :: u64) m")
    case None
    then have "2 ^ 64 \<le> e_phoff data + 56 * e_phnum data"
      by (simp add: checked_add_eq_None off m(2))
    then show ?thesis using None m(1) assms by simp
  next
    case (Some b)
    then have "unat b = e_phoff data + 56 * e_phnum data"
      by (simp add: checked_add_eq_Some off m(2))
    then show ?thesis using Some m(1) by (simp add: not_less)
  qed
qed

section \<open>What the parser accepts\<close>

lemma header_reads:
  assumes "length data < 2 ^ 64" and "64 \<le> length data"
  shows "elf_read_u16 data 16 = Inr (of_nat (field data 16 2))"
    and "elf_read_u16 data 18 = Inr (of_nat (field data 18 2))"
    and "elf_read_u32 data 20 = Inr (of_nat (field data 20 4))"
    and "elf_read_u64 data 24 = Inr (of_nat (field data 24 8))"
    and "elf_read_u64 data 32 = Inr (of_nat (field data 32 8))"
    and "elf_read_u16 data 52 = Inr (of_nat (field data 52 2))"
    and "elf_read_u16 data 54 = Inr (of_nat (field data 54 2))"
    and "elf_read_u16 data 56 = Inr (of_nat (field data 56 2))"
  using elf_read_small [OF assms(1), of 16] elf_read_small [OF assms(1), of 18]
    elf_read_small [OF assms(1), of 20] elf_read [OF assms(1), of 24 8] elf_read [OF assms(1), of 32 8]
    elf_read_small [OF assms(1), of 52] elf_read_small [OF assms(1), of 54]
    elf_read_small [OF assms(1), of 56] assms(2)
  by simp_all

definition elf_image_of :: "byte list \<Rightarrow> elf_image" where
  "elf_image_of data =
     \<lparr>elf_entry = of_nat (field data 24 8),
      elf_segments = map (\<lambda>i. ph_segment data (ph_base data i))
        (filter (ph_load data) [0..<e_phnum data])\<rparr>"

lemma elf_size_field:
  "(ucast (of_nat (field data 52 2) :: u16) :: u64) < ELF_HEADER_SIZE \<longleftrightarrow> \<not> 64 \<le> field data 52 2"
  "(ucast (of_nat (field data 54 2) :: u16) :: u64) \<noteq> PROGRAM_HEADER_SIZE \<longleftrightarrow> field data 54 2 \<noteq> 56"
  using unat_ucast_field [of data 52] unat_ucast_field [of data 54]
  by (simp_all add: word_less_nat_alt word_unat_eq_iff ELF_HEADER_SIZE_def PROGRAM_HEADER_SIZE_def
      not_le)

definition elf_ident :: "byte list \<Rightarrow> bool" where
  "elf_ident data \<longleftrightarrow>
     take 4 data = [0x7f, 0x45, 0x4c, 0x46] \<and> data ! 4 = 2 \<and> data ! 5 = 1 \<and> data ! 6 = 1 \<and>
     field data 16 2 = 2 \<and> field data 18 2 = 62 \<and> field data 20 4 = 1 \<and>
     64 \<le> field data 52 2 \<and> field data 54 2 = 56"

lemma elf_parse_body:
  assumes "length data < 2 ^ 64" and "64 \<le> length data"
  shows "elf_ident data \<Longrightarrow> elf_parse data =
      rbind (ok_or (Option.bind (checked_mul 56 (ucast (of_nat (field data 56 2) :: u16)))
          (checked_add (of_nat (field data 32 8) :: u64))) Elf_TruncatedProgramHeaders) (\<lambda>phbytes.
        if length data < unat phbytes then Inl Elf_TruncatedProgramHeaders
        else rbind (elf_loop data (of_nat (field data 32 8)) 56 [0..<e_phnum data] []) (\<lambda>segments.
          if segments = [] then Inl Elf_InvalidSegment
          else Inr \<lparr>elf_entry = of_nat (field data 24 8), elf_segments = segments\<rparr>))"
    and "\<not> elf_ident data \<Longrightarrow> \<exists>e. elf_parse data = Inl e"
proof -
  note R = header_reads [OF assms]
  have pe: "(ucast (of_nat (field data 54 2) :: u16) :: u64) = 56" if "field data 54 2 = 56"
    using elf_size_field(2) [of data] that by (simp add: PROGRAM_HEADER_SIZE_def)
  have l: "\<not> length data < unat ELF_HEADER_SIZE" using assms(2) by (simp add: ELF_HEADER_SIZE_def)
  note unf = elf_parse_def R rbind_simps Let_def elf_size_field field_eq
  show "elf_parse data =
      rbind (ok_or (Option.bind (checked_mul 56 (ucast (of_nat (field data 56 2) :: u16)))
          (checked_add (of_nat (field data 32 8) :: u64))) Elf_TruncatedProgramHeaders) (\<lambda>phbytes.
        if length data < unat phbytes then Inl Elf_TruncatedProgramHeaders
        else rbind (elf_loop data (of_nat (field data 32 8)) 56 [0..<e_phnum data] []) (\<lambda>segments.
          if segments = [] then Inl Elf_InvalidSegment
          else Inr \<lparr>elf_entry = of_nat (field data 24 8), elf_segments = segments\<rparr>))"
    if ident: "elf_ident data"
  proof -
    have f54: "field data 54 2 = 56" using ident by (simp add: elf_ident_def)
    have n: "unat (ucast (of_nat (field data 56 2) :: u16) :: u64) = e_phnum data"
      by (simp add: unat_ucast_field e_phnum_def)
    show ?thesis
      using ident l unfolding unf pe [OF f54] n elf_ident_def by (simp add: PROGRAM_HEADER_SIZE_def)
  qed
  show "\<exists>e. elf_parse data = Inl e" if "\<not> elf_ident data"
    using that l unfolding unf elf_ident_def by auto
qed

lemma elf_parse_iff:
  assumes len: "length data < 2 ^ 64"
  shows "elf_parse data = Inr img \<longleftrightarrow>
    elf_header_ok data \<and> (\<forall>i < e_phnum data. ph_ok data i) \<and>
    (\<exists>i < e_phnum data. ph_load data i) \<and> img = elf_image_of data"
proof -
  have hdr: "elf_header_ok data \<longleftrightarrow> 64 \<le> length data \<and> elf_ident data \<and>
      e_phoff data + 56 * e_phnum data \<le> length data"
    by (auto simp: elf_header_ok_def elf_ident_def)
  show ?thesis
  proof (cases "64 \<le> length data \<and> elf_ident data")
    case False
    then show ?thesis
      using elf_parse_body(2) [OF len] by (auto simp: hdr elf_parse_def ELF_HEADER_SIZE_def)
  next
    case True
    let ?off = "of_nat (field data 32 8) :: u64"
      and ?n = "ucast (of_nat (field data 56 2) :: u16) :: u64"
    have off: "unat ?off = e_phoff data" by (simp add: unat_field e_phoff_def)
    have loop: "elf_loop data ?off 56 [0..<e_phnum data] [] = Inr out \<longleftrightarrow>
        (\<forall>i < e_phnum data. ph_ok data i) \<and> out = elf_segments (elf_image_of data)"
      if "e_phoff data + 56 * e_phnum data \<le> length data" for out
    proof -
      have "ph_base data i + 56 \<le> length data" if "i < e_phnum data" for i
      proof -
        have "Suc i * 56 \<le> e_phnum data * 56" using that by (intro mult_le_mono1) simp
        then show ?thesis
          using \<open>e_phoff data + 56 * e_phnum data \<le> length data\<close> by (simp add: ph_base_def)
      qed
      then show ?thesis
        using elf_loop_spec [OF len off, of "[0..<e_phnum data]" "[]" out] by (auto simp: elf_image_of_def)
    qed
    have nonempty: "elf_segments (elf_image_of data) \<noteq> [] \<longleftrightarrow> (\<exists>i < e_phnum data. ph_load data i)"
      by (auto simp: elf_image_of_def filter_empty_conv)
    have "elf_parse data = Inr img \<longleftrightarrow>
      (\<exists>b. Option.bind (checked_mul 56 ?n) (checked_add ?off) = Some b \<and> \<not> length data < unat b) \<and>
      (\<exists>segs. elf_loop data ?off 56 [0..<e_phnum data] [] = Inr segs \<and> segs \<noteq> [] \<and>
         img = \<lparr>elf_entry = of_nat (field data 24 8), elf_segments = segs\<rparr>)"
      using True elf_parse_body(1) [OF len]
      by (auto simp: rbind_eq_Inr ok_or_eq_Inr split: if_splits)
    also have "\<dots> \<longleftrightarrow> e_phoff data + 56 * e_phnum data \<le> length data \<and>
      (\<exists>segs. elf_loop data ?off 56 [0..<e_phnum data] [] = Inr segs \<and> segs \<noteq> [] \<and>
         img = \<lparr>elf_entry = of_nat (field data 24 8), elf_segments = segs\<rparr>)"
      unfolding ph_table [OF len] ..
    also have "\<dots> \<longleftrightarrow> e_phoff data + 56 * e_phnum data \<le> length data \<and>
        (\<forall>i < e_phnum data. ph_ok data i) \<and> elf_segments (elf_image_of data) \<noteq> [] \<and>
        img = elf_image_of data"
    proof -
      have img: "elf_image_of data = \<lparr>elf_entry = of_nat (field data 24 8),
          elf_segments = elf_segments (elf_image_of data)\<rparr>"
        by (simp add: elf_image_of_def)
      show ?thesis
        using loop img by (cases "e_phoff data + 56 * e_phnum data \<le> length data") auto
    qed
    finally show ?thesis using True nonempty hdr by blast
  qed
qed

text \<open>A two-byte program for the witnesses.\<close>

definition elf_example :: "byte list" where
  "elf_example =
     [0x7f, 0x45, 0x4c, 0x46, 2, 1, 1, 0, 0, 0, 0, 0, 0, 0, 0, 0,
      2, 0, 62, 0, 1, 0, 0, 0,   0, 0, 0x40, 0, 0, 0, 0, 0,
      64, 0, 0, 0, 0, 0, 0, 0,   0, 0, 0, 0, 0, 0, 0, 0,
      0, 0, 0, 0, 64, 0, 56, 0,  1, 0, 0, 0, 0, 0, 0, 0,
      1, 0, 0, 0, 5, 0, 0, 0,    0, 0, 0, 0, 0, 0, 0, 0,
      0, 0, 0x40, 0, 0, 0, 0, 0, 0, 0, 0, 0, 0, 0, 0, 0,
      2, 0, 0, 0, 0, 0, 0, 0,    4, 0, 0, 0, 0, 0, 0, 0,
      0, 0x10, 0, 0, 0, 0, 0, 0]"

lemma elf_example_fields:
  "length elf_example = 120" "e_phoff elf_example = 64" "e_phnum elf_example = 1"
  "elf_header_ok elf_example" "field elf_example 24 8 = 0x400000"
  "ph_load elf_example 0" "ph_base elf_example 0 = 64"
  "field elf_example 72 8 = 0" "field elf_example 80 8 = 0x400000"
  "field elf_example 96 8 = 2" "field elf_example 104 8 = 4" "field elf_example 112 8 = 4096"
  by (simp_all add: elf_example_def elf_header_ok_def e_phoff_def e_phnum_def field_def ph_load_def ph_base_def)

lemma elf_example_ok: "\<forall>i < e_phnum elf_example. ph_ok elf_example i"
proof -
  have "\<exists>k. 2 ^ k = (4096 :: nat)" by (rule exI [of _ 12]) simp
  then show ?thesis
    using elf_example_fields
    by (auto simp: ph_ok_def ph_consistent_def ph_in_file_def Let_def)
qed

text \<open>
  C24: \<open>ElfImage::parse\<close> accepts exactly the ELF64 little-endian x86-64 executables whose
  program-header table and loadable segments lie inside the file, whose loadable segments
  have consistent sizes and alignments, and which have at least one of them; the image it
  returns holds the entry point and the loadable segments in file order. No offset
  computation of the parser wraps around.
\<close>

theorem elf_parse_correct:
  assumes "length data < 2 ^ 64"
  shows "elf_parse data = Inr img \<longleftrightarrow>
    elf_header_ok data \<and> (\<forall>i < e_phnum data. ph_ok data i) \<and>
    (\<exists>i < e_phnum data. ph_load data i) \<and> img = elf_image_of data"
  by (rule elf_parse_iff [OF assms])

theorem elf_parse_correct_witness:
  "length elf_example < 2 ^ 64 \<and> elf_parse elf_example = Inr (elf_image_of elf_example)"
  using elf_parse_correct [of elf_example "elf_image_of elf_example"] elf_example_fields
    elf_example_ok
  by auto



end
