(* ===== verification/Utf8.thy ===== *)
theory Utf8
  imports Kernel_Prelude
begin

text \<open>
  UTF-8 as the Rust standard library checks and decodes it (\<open>str::from_utf8\<close>, \<open>char\<close>):
  a \<open>char\<close> is a Unicode scalar value, here a number, and overlong forms, surrogates and values
  above \<open>0x10FFFF\<close> are refused.
\<close>

definition is_scalar :: "nat \<Rightarrow> bool" where
  "is_scalar c \<longleftrightarrow> c < 0xD800 \<or> 0xE000 \<le> c \<and> c < 0x110000"

definition cont_byte :: "nat \<Rightarrow> bool" where
  "cont_byte b \<longleftrightarrow> 0x80 \<le> b \<and> b < 0xC0"

text \<open>The first character of a byte string and the rest of the string.\<close>

fun utf8_step :: "byte list \<Rightarrow> (nat \<times> byte list) option" where
  "utf8_step [] = None"
| "utf8_step (b0 # bs) =
     (let a = unat b0
      in if a < 0x80 then Some (a, bs)
         else if 0xC2 \<le> a \<and> a \<le> 0xDF then
           (case bs of
              b1 # rest \<Rightarrow>
                if cont_byte (unat b1) then Some ((a - 0xC0) * 64 + (unat b1 - 0x80), rest) else None
            | _ \<Rightarrow> None)
         else if 0xE0 \<le> a \<and> a \<le> 0xEF then
           (case bs of
              b1 # b2 # rest \<Rightarrow>
                if cont_byte (unat b1) \<and> cont_byte (unat b2) \<and>
                  (a = 0xE0 \<longrightarrow> 0xA0 \<le> unat b1) \<and> (a = 0xED \<longrightarrow> unat b1 \<le> 0x9F)
                then Some ((a - 0xE0) * 4096 + (unat b1 - 0x80) * 64 + (unat b2 - 0x80), rest)
                else None
            | _ \<Rightarrow> None)
         else if 0xF0 \<le> a \<and> a \<le> 0xF4 then
           (case bs of
              b1 # b2 # b3 # rest \<Rightarrow>
                if cont_byte (unat b1) \<and> cont_byte (unat b2) \<and> cont_byte (unat b3) \<and>
                  (a = 0xF0 \<longrightarrow> 0x90 \<le> unat b1) \<and> (a = 0xF4 \<longrightarrow> unat b1 \<le> 0x8F)
                then Some ((a - 0xF0) * 262144 + (unat b1 - 0x80) * 4096 +
                  (unat b2 - 0x80) * 64 + (unat b3 - 0x80), rest)
                else None
            | _ \<Rightarrow> None)
         else None)"

lemma utf8_step_shorter: "utf8_step bs = Some (c, rest) \<Longrightarrow> length rest < length bs"
  by (cases bs) (auto simp: Let_def split: if_splits list.splits)

function from_utf8 :: "byte list \<Rightarrow> nat list option" where
  "from_utf8 bs =
     (if bs = [] then Some []
      else case utf8_step bs of
             None \<Rightarrow> None
           | Some (c, rest) \<Rightarrow> map_option ((#) c) (from_utf8 rest))"
  by pat_completeness auto
termination
  by (relation "measure length") (auto dest: utf8_step_shorter)

declare from_utf8.simps [simp del]

text \<open>\<open>char::encode_utf8\<close>.\<close>

definition utf8_encode :: "nat \<Rightarrow> byte list" where
  "utf8_encode c =
     (if c < 0x80 then [of_nat c]
      else if c < 0x800 then [of_nat (0xC0 + c div 64), of_nat (0x80 + c mod 64)]
      else if c < 0x10000 then
        [of_nat (0xE0 + c div 4096), of_nat (0x80 + c div 64 mod 64), of_nat (0x80 + c mod 64)]
      else
        [of_nat (0xF0 + c div 262144), of_nat (0x80 + c div 4096 mod 64),
         of_nat (0x80 + c div 64 mod 64), of_nat (0x80 + c mod 64)])"

lemma unat_byte_of_nat: "n < 256 \<Longrightarrow> unat (of_nat n :: byte) = n"
  by (simp add: unat_of_nat)

lemma sextets:
  fixes c :: nat
  shows "c div 64 = c div 4096 * 64 + c div 64 mod 64" "c = c div 64 * 64 + c mod 64"
    "c div 4096 = c div 262144 * 64 + c div 4096 mod 64"
proof -
  show "c = c div 64 * 64 + c mod 64" by simp
  have "c div 64 div 64 = c div 4096" by (simp add: div_mult2_eq [symmetric])
  then show "c div 64 = c div 4096 * 64 + c div 64 mod 64"
    using div_mult_mod_eq [of "c div 64" 64] by simp
  have "c div 4096 div 64 = c div 262144" by (simp add: div_mult2_eq [symmetric])
  then show "c div 4096 = c div 262144 * 64 + c div 4096 mod 64"
    using div_mult_mod_eq [of "c div 4096" 64] by simp
qed

lemma utf8_step_encode:
  assumes "is_scalar c"
  shows "utf8_step (utf8_encode c @ rest) = Some (c, rest)"
proof -
  let ?q = "c div 262144" and ?p = "c div 4096" and ?h = "c div 64"
  note S = sextets [of c]
  have m: "c mod 64 < 64" "?h mod 64 < 64" "?p mod 64 < 64" by simp_all
  consider (one) "c < 0x80" | (two) "0x80 \<le> c" "c < 0x800" | (three) "0x800 \<le> c" "c < 0x10000"
    | (four) "0x10000 \<le> c" "c < 0x110000"
    using assms unfolding is_scalar_def by linarith
  then show ?thesis
  proof cases
    case one
    then show ?thesis by (simp add: utf8_encode_def unat_byte_of_nat)
  next
    case two
    then have h: "2 \<le> ?h" "?h < 32" by simp_all
    define b0 b1 where "b0 = (of_nat (0xC0 + ?h) :: byte)" and "b1 = (of_nat (0x80 + c mod 64) :: byte)"
    have u: "unat b0 = 0xC0 + ?h" "unat b1 = 0x80 + c mod 64"
      unfolding b0_def b1_def using h m by (intro unat_byte_of_nat, linarith)+
    have "utf8_encode c = [b0, b1]" using two by (simp only: utf8_encode_def b0_def b1_def) simp
    then show ?thesis using h m S(2) by (simp add: u cont_byte_def Let_def)
  next
    case three
    then have p: "?p < 16" by simp
    define b0 b1 b2 where "b0 = (of_nat (0xE0 + ?p) :: byte)"
      and "b1 = (of_nat (0x80 + ?h mod 64) :: byte)" and "b2 = (of_nat (0x80 + c mod 64) :: byte)"
    have u: "unat b0 = 0xE0 + ?p" "unat b1 = 0x80 + ?h mod 64" "unat b2 = 0x80 + c mod 64"
      unfolding b0_def b1_def b2_def using p m by (intro unat_byte_of_nat, linarith)+
    have enc: "utf8_encode c = [b0, b1, b2]"
      using three by (simp only: utf8_encode_def b0_def b1_def b2_def) simp
    have r: "?p = 0 \<longrightarrow> 32 \<le> ?h mod 64" "?p = 13 \<longrightarrow> ?h mod 64 \<le> 31"
      using three assms S(1,2) m unfolding is_scalar_def by linarith+
    have c: "?p * 4096 + ?h mod 64 * 64 + c mod 64 = c" using S(1,2) by linarith
    have "cont_byte (unat b1)" "cont_byte (unat b2)" using m by (simp_all add: u cont_byte_def)
    then show ?thesis unfolding enc using p r c by (simp add: u Let_def)
  next
    case four
    then have q: "?q < 5" by simp
    define b0 b1 b2 b3 where "b0 = (of_nat (0xF0 + ?q) :: byte)"
      and "b1 = (of_nat (0x80 + ?p mod 64) :: byte)" and "b2 = (of_nat (0x80 + ?h mod 64) :: byte)"
      and "b3 = (of_nat (0x80 + c mod 64) :: byte)"
    have u: "unat b0 = 0xF0 + ?q" "unat b1 = 0x80 + ?p mod 64" "unat b2 = 0x80 + ?h mod 64"
      "unat b3 = 0x80 + c mod 64"
      unfolding b0_def b1_def b2_def b3_def using q m by (intro unat_byte_of_nat, linarith)+
    have enc: "utf8_encode c = [b0, b1, b2, b3]"
      using four by (simp only: utf8_encode_def b0_def b1_def b2_def b3_def) simp
    have r: "?q = 0 \<longrightarrow> 16 \<le> ?p mod 64" "?q = 4 \<longrightarrow> ?p mod 64 \<le> 15"
      using four S m by linarith+
    have c: "?q * 262144 + ?p mod 64 * 4096 + ?h mod 64 * 64 + c mod 64 = c" using S by linarith
    have "cont_byte (unat b1)" "cont_byte (unat b2)" "cont_byte (unat b3)"
      using m by (simp_all add: u cont_byte_def)
    then show ?thesis unfolding enc using q r c by (simp add: u Let_def)
  qed
qed

lemma utf8_encode_nonempty [simp]: "utf8_encode c \<noteq> []"
  by (simp add: utf8_encode_def)

lemma from_utf8_Nil [simp]: "from_utf8 [] = Some []"
  by (simp add: from_utf8.simps)

lemma from_utf8_encode:
  assumes "\<forall>c\<in>set cs. is_scalar c"
  shows "from_utf8 (concat (map utf8_encode cs)) = Some cs"
  using assms
proof (induction cs)
  case (Cons c cs)
  then show ?case
    by (subst from_utf8.simps) (simp add: utf8_step_encode)
qed simp

lemma from_utf8_single: "is_scalar c \<Longrightarrow> from_utf8 (utf8_encode c) = Some [c]"
  using from_utf8_encode [of "[c]"] by simp

text \<open>The length of an encoding, by its first byte.\<close>

lemma utf8_encode_first:
  assumes "is_scalar c"
  shows "length (utf8_encode c) = 1 \<and> unat (hd (utf8_encode c)) \<le> 0x7f \<or>
    length (utf8_encode c) = 2 \<and> 0xc2 \<le> unat (hd (utf8_encode c)) \<and> unat (hd (utf8_encode c)) \<le> 0xdf \<or>
    length (utf8_encode c) = 3 \<and> 0xe0 \<le> unat (hd (utf8_encode c)) \<and> unat (hd (utf8_encode c)) \<le> 0xef \<or>
    length (utf8_encode c) = 4 \<and> 0xf0 \<le> unat (hd (utf8_encode c)) \<and> unat (hd (utf8_encode c)) \<le> 0xf4"
proof -
  have u: "unat (of_nat (k + n) :: byte) = k + n" if "k + n < 256" for k n
    using that by (rule unat_byte_of_nat)
  have u1: "unat (of_nat (0xC0 + c div 64) :: byte) = 0xC0 + c div 64" if "c < 0x800"
    by (rule u) (use that in simp)
  have u2: "unat (of_nat (0xE0 + c div 4096) :: byte) = 0xE0 + c div 4096" if "c < 0x10000"
    by (rule u) (use that in simp)
  have u3: "unat (of_nat (0xF0 + c div 262144) :: byte) = 0xF0 + c div 262144" if "c < 0x110000"
    by (rule u) (use that in simp)
  have lt: "c < 0x110000" using assms by (auto simp: is_scalar_def)
  have b1: "2 \<le> c div 64" if "\<not> c < 0x80" using that by simp
  have b2: "c div 64 < 32" if "c < 0x800" using that by simp
  have b3: "c div 4096 < 16" if "c < 0x10000" using that by simp
  have b4: "c div 262144 < 5" using lt by simp
  consider "c < 0x80" | "\<not> c < 0x80" "c < 0x800" | "\<not> c < 0x800" "c < 0x10000"
    | "\<not> c < 0x10000" by linarith
  then show ?thesis
    by cases (use u1 u2 u3 lt b1 b2 b3 b4 in
      \<open>simp_all del: of_nat_add add: utf8_encode_def unat_byte_of_nat\<close>)
qed

end
