(* ===== verification/Psf_Font.thy ===== *)
theory Psf_Font
  imports Byte_Fields Utf8
begin

text \<open>
  The PSF2 font parser and glyph lookup of \<open>crates/kernel-core/src/psf.rs\<close>. The header fields
  are 32-bit numbers widened to \<open>usize\<close>, so they are natural numbers here, with the checked
  operations against \<open>2\<^sup>6\<^sup>4\<close> written out. A character is its scalar value.
\<close>

datatype psf_error =
  Psf_TooSmall | Psf_BadMagic | Psf_UnsupportedVersion | Psf_InvalidHeader |
  Psf_InvalidDimensions | Psf_InvalidGlyphCount | Psf_InvalidCharSize | Psf_TruncatedGlyphData

definition PSF2_MAGIC :: nat where "PSF2_MAGIC = 0x864ab572"

definition PSF2_HEADER_SIZE :: nat where "PSF2_HEADER_SIZE = 32"

definition PSF2_HAS_UNICODE_TABLE :: u32 where "PSF2_HAS_UNICODE_TABLE = 1"

definition MAX_DIMENSION :: nat where "MAX_DIMENSION = 64"

definition MAX_GLYPHS :: nat where "MAX_GLYPHS = 65536"

record psf2_font =
  psf_data :: "byte list"
  psf_header_size :: nat
  psf_glyph_count :: nat
  psf_char_size :: nat
  psf_height :: nat
  psf_width :: nat
  psf_bytes_per_row :: nat
  psf_flags :: u32
  psf_glyph_data_end :: nat

definition psf_read_u32 :: "byte list \<Rightarrow> nat \<Rightarrow> nat" where
  "psf_read_u32 data off = le_nat (take 4 (drop off data))"

definition psf_parse :: "byte list \<Rightarrow> psf_error + psf2_font" where
  "psf_parse data =
     (if length data < PSF2_HEADER_SIZE then Inl Psf_TooSmall
      else if psf_read_u32 data 0 \<noteq> PSF2_MAGIC then Inl Psf_BadMagic
      else if psf_read_u32 data 4 \<noteq> 0 then Inl Psf_UnsupportedVersion
      else
        (let header_size = psf_read_u32 data 8;
             flags = of_nat (psf_read_u32 data 12);
             glyph_count = psf_read_u32 data 16;
             char_size = psf_read_u32 data 20;
             height = psf_read_u32 data 24;
             width = psf_read_u32 data 28
         in if header_size < PSF2_HEADER_SIZE \<or> length data < header_size then Inl Psf_InvalidHeader
            else if width = 0 \<or> height = 0 \<or> MAX_DIMENSION < width \<or> MAX_DIMENSION < height
            then Inl Psf_InvalidDimensions
            else if glyph_count = 0 \<or> MAX_GLYPHS < glyph_count then Inl Psf_InvalidGlyphCount
            else
              (let bytes_per_row = (width + 7) div 8
               in rbind (ok_or (usize_mul bytes_per_row height) Psf_InvalidCharSize)
                    (\<lambda>minimum_char_size.
                  if char_size < minimum_char_size then Inl Psf_InvalidCharSize
                  else rbind (ok_or (usize_mul glyph_count char_size) Psf_TruncatedGlyphData)
                    (\<lambda>glyph_bytes.
                  rbind (ok_or (usize_add header_size glyph_bytes) Psf_TruncatedGlyphData)
                    (\<lambda>glyph_data_end.
                  if length data < glyph_data_end then Inl Psf_TruncatedGlyphData
                  else Inr \<lparr>psf_data = data, psf_header_size = header_size,
                    psf_glyph_count = glyph_count, psf_char_size = char_size,
                    psf_height = height, psf_width = width, psf_bytes_per_row = bytes_per_row,
                    psf_flags = flags, psf_glyph_data_end = glyph_data_end\<rparr>))))))"

definition utf8_sequence_len :: "byte \<Rightarrow> nat option" where
  "utf8_sequence_len b =
     (let first = unat b
      in if first \<le> 0x7f then Some 1
         else if 0xc2 \<le> first \<and> first \<le> 0xdf then Some 2
         else if 0xe0 \<le> first \<and> first \<le> 0xef then Some 3
         else if 0xf0 \<le> first \<and> first \<le> 0xf4 then Some 4
         else None)"

lemma utf8_sequence_len_pos: "utf8_sequence_len b = Some w \<Longrightarrow> 0 < w"
  by (auto simp: utf8_sequence_len_def Let_def split: if_splits)

text \<open>
  The loop of \<open>unicode_glyph_index\<close>; the last argument is the table from \<open>position\<close> on.
\<close>

function psf_scan :: "nat \<Rightarrow> nat \<Rightarrow> nat \<Rightarrow> byte list \<Rightarrow> nat option" where
  "psf_scan glyph_count ch glyph table =
     (if \<not> (glyph < glyph_count \<and> table \<noteq> []) then None
      else if hd table = 0xff then psf_scan glyph_count ch (glyph + 1) (tl table)
      else if hd table = 0xfe then psf_scan glyph_count ch glyph (tl table)
      else
        (case utf8_sequence_len (hd table) of
           None \<Rightarrow> None
         | Some width \<Rightarrow>
             (if length table < width then None
              else if map_option hd (from_utf8 (take width table)) = Some ch then Some glyph
              else psf_scan glyph_count ch glyph (drop width table))))"
  by pat_completeness auto
termination
  by (relation "measure (\<lambda>(n, ch, glyph, table). length table)")
    (auto dest: utf8_sequence_len_pos)

declare psf_scan.simps [simp del]

definition unicode_glyph_index :: "psf2_font \<Rightarrow> nat \<Rightarrow> nat option" where
  "unicode_glyph_index f ch =
     (if length (psf_data f) < psf_glyph_data_end f then None
      else psf_scan (psf_glyph_count f) ch 0 (drop (psf_glyph_data_end f) (psf_data f)))"

definition glyph_index :: "psf2_font \<Rightarrow> nat \<Rightarrow> nat" where
  "glyph_index f ch =
     (case (if psf_flags f AND PSF2_HAS_UNICODE_TABLE \<noteq> 0 then unicode_glyph_index f ch else None) of
        Some index \<Rightarrow> index
      | None \<Rightarrow>
          (if ch < psf_glyph_count f then ch
           else if 63 < psf_glyph_count f then 63
           else 0))"

text \<open>\<open>pixel\<close>; the value \<open>None\<close> stands for an index out of bounds, which panics.\<close>

definition psf_pixel :: "psf2_font \<Rightarrow> nat \<Rightarrow> nat \<Rightarrow> nat \<Rightarrow> bool option" where
  "psf_pixel f ch x y =
     (if psf_width f \<le> x \<or> psf_height f \<le> y then Some False
      else
        (let glyph = glyph_index f ch;
             row = psf_header_size f + glyph * psf_char_size f + y * psf_bytes_per_row f
         in if row + x div 8 < length (psf_data f)
            then Some (psf_data f ! (row + x div 8) AND drop_bit (x mod 8) 0x80 \<noteq> 0)
            else None))"

section \<open>The file format\<close>

definition psf_header_ok :: "byte list \<Rightarrow> bool" where
  "psf_header_ok data \<longleftrightarrow>
     32 \<le> length data \<and> field data 0 4 = 0x864ab572 \<and> field data 4 4 = 0 \<and>
     32 \<le> field data 8 4 \<and> field data 8 4 \<le> length data \<and>
     field data 28 4 \<in> {1..64} \<and> field data 24 4 \<in> {1..64} \<and> field data 16 4 \<in> {1..65536} \<and>
     (field data 28 4 + 7) div 8 * field data 24 4 \<le> field data 20 4 \<and>
     field data 8 4 + field data 16 4 * field data 20 4 \<le> length data"

definition psf_font_of :: "byte list \<Rightarrow> psf2_font" where
  "psf_font_of data =
     \<lparr>psf_data = data, psf_header_size = field data 8 4, psf_glyph_count = field data 16 4,
      psf_char_size = field data 20 4, psf_height = field data 24 4, psf_width = field data 28 4,
      psf_bytes_per_row = (field data 28 4 + 7) div 8, psf_flags = of_nat (field data 12 4),
      psf_glyph_data_end = field data 8 4 + field data 16 4 * field data 20 4\<rparr>"

lemma psf_read_field: "psf_read_u32 data off = field data off 4"
  by (simp add: psf_read_u32_def field_def)

lemma psf_no_overflow:
  assumes "w \<le> 64" and "h \<le> 64" and "g \<le> 65536"
  shows "usize_mul ((w + 7) div 8) h = Some ((w + 7) div 8 * h)"
    and "usize_mul g (field data 20 4) = Some (g * field data 20 4)"
    and "usize_add (field data 8 4) (g * field data 20 4) = Some (field data 8 4 + g * field data 20 4)"
proof -
  have f: "field data k 4 < 2 ^ 32" for k using field_bound [of data k 4] by simp
  have "(w + 7) div 8 * h \<le> 8 * 64" using assms(1,2) by (intro mult_le_mono) simp_all
  then show "usize_mul ((w + 7) div 8) h = Some ((w + 7) div 8 * h)" by (simp add: usize_mul_def)
  have "g * field data 20 4 \<le> 65536 * 2 ^ 32" using assms(3) f [of 20] by (intro mult_le_mono) simp_all
  then show "usize_mul g (field data 20 4) = Some (g * field data 20 4)"
    and "usize_add (field data 8 4) (g * field data 20 4) = Some (field data 8 4 + g * field data 20 4)"
    using f [of 8] by (simp_all add: usize_mul_def usize_add_def)
qed

lemma psf_parse_iff:
  "psf_parse data = Inr f \<longleftrightarrow> psf_header_ok data \<and> f = psf_font_of data"
proof (cases "field data 28 4 \<le> 64 \<and> field data 24 4 \<le> 64 \<and> field data 16 4 \<le> 65536")
  case True
  note no = psf_no_overflow [of "field data 28 4" "field data 24 4" "field data 16 4"]
  show ?thesis
    using True no
    by (auto simp: psf_parse_def psf_header_ok_def psf_font_of_def psf_read_field Let_def
        PSF2_HEADER_SIZE_def PSF2_MAGIC_def MAX_DIMENSION_def MAX_GLYPHS_def split: if_splits)
next
  case False
  then show ?thesis
    by (auto simp: psf_parse_def psf_header_ok_def psf_read_field Let_def MAX_DIMENSION_def
        MAX_GLYPHS_def)
qed

section \<open>Glyph lookup\<close>

lemma psf_scan_bound: "psf_scan n ch g table = Some i \<Longrightarrow> i < n"
proof (induction n ch g table rule: psf_scan.induct)
  case (1 n ch g table)
  show ?case
  proof (cases "g < n \<and> table \<noteq> []")
    case False
    then show ?thesis using "1.prems" by (subst (asm) psf_scan.simps) simp
  next
    case True
    then show ?thesis
      using "1.prems" "1.IH"
      by (subst (asm) psf_scan.simps) (auto split: if_splits option.splits)
  qed
qed

lemma glyph_index_bound:
  assumes "psf_parse data = Inr f"
  shows "glyph_index f ch < psf_glyph_count f"
proof -
  have "0 < psf_glyph_count f"
    using assms by (auto simp: psf_parse_iff psf_header_ok_def psf_font_of_def)
  then show ?thesis
    by (auto simp: glyph_index_def unicode_glyph_index_def dest: psf_scan_bound
        split: option.splits if_splits)
qed







section \<open>What the font code promises\<close>

lemma pixel_mask:
  assumes "k < 8"
  shows "(b AND drop_bit k (0x80 :: byte) \<noteq> 0) \<longleftrightarrow> bit b (7 - k)"
proof -
  have "drop_bit k (0x80 :: byte) = push_bit (7 - k) 1"
  proof -
    have "k \<in> {0, 1, 2, 3, 4, 5, 6, 7}" using assms by auto
    then show ?thesis by (auto simp: drop_bit_eq_div push_bit_eq_mult)
  qed
  then show ?thesis by (simp add: bit_iff_and_push_bit_not_eq_0)
qed

lemma pixel_in_bounds:
  assumes "psf_header_ok data" and "g < field data 16 4" and "x < field data 28 4"
    and "y < field data 24 4"
  shows "field data 8 4 + g * field data 20 4 + y * ((field data 28 4 + 7) div 8) + x div 8 < length data"
proof -
  let ?bpr = "(field data 28 4 + 7) div 8" and ?cs = "field data 20 4"
  have "x div 8 < ?bpr" using assms(3) by linarith
  moreover have "Suc y * ?bpr \<le> field data 24 4 * ?bpr" using assms(4) by (intro mult_le_mono1) simp
  moreover have "?bpr * field data 24 4 \<le> ?cs" using assms(1) by (simp add: psf_header_ok_def)
  ultimately have "y * ?bpr + x div 8 < ?cs" by (simp add: mult.commute)
  moreover have "Suc g * ?cs \<le> field data 16 4 * ?cs" using assms(2) by (intro mult_le_mono1) simp
  ultimately show ?thesis using assms(1) by (simp add: psf_header_ok_def)
qed

text \<open>
  C37: \<open>Psf2Font::parse\<close> accepts exactly the files whose header is that of a PSF2 font with
  glyphs of at most 64 by 64 pixels and whose glyph data is complete, and the font it
  returns has the header's fields; none of its size computations can overflow.
\<close>

theorem psf_parse_correct:
  "psf_parse data = Inr f \<longleftrightarrow> psf_header_ok data \<and> f = psf_font_of data"
  by (rule psf_parse_iff)

definition psf_example :: "byte list" where
  "psf_example =
     [0x72, 0xb5, 0x4a, 0x86, 0, 0, 0, 0, 32, 0, 0, 0, 1, 0, 0, 0,
      1, 0, 0, 0, 1, 0, 0, 0, 1, 0, 0, 0, 8, 0, 0, 0,  0x81, 0x41, 0xff]"

lemma psf_example_parse: "psf_parse psf_example = Inr (psf_font_of psf_example)"
  by (simp add: psf_parse_iff psf_header_ok_def psf_example_def field_def)

text \<open>
  C38: Reading a pixel of a font that the parser accepted never indexes outside the file, for
  any character and any coordinates. Outside the cell the pixel is off; inside it is the bit
  of the glyph's bitmap at that row and column, and the glyph is one of the font's.
\<close>

theorem psf_pixel_correct:
  assumes "psf_parse data = Inr f"
  shows "glyph_index f ch < psf_glyph_count f \<and>
    psf_pixel f ch x y =
      Some (x < psf_width f \<and> y < psf_height f \<and>
        bit (data ! (psf_header_size f + glyph_index f ch * psf_char_size f +
               y * psf_bytes_per_row f + x div 8)) (7 - x mod 8))"
proof -
  have ok: "psf_header_ok data" and f: "f = psf_font_of data"
    using assms by (simp_all add: psf_parse_iff)
  note g = glyph_index_bound [OF assms, of ch]
  have "psf_header_size f + glyph_index f ch * psf_char_size f + y * psf_bytes_per_row f + x div 8
      < length data" if "x < psf_width f" "y < psf_height f"
    using pixel_in_bounds [OF ok, of "glyph_index f ch" x y] g that by (simp add: f psf_font_of_def)
  moreover have "psf_data f = data" by (simp add: f psf_font_of_def)
  ultimately show ?thesis using g by (auto simp: psf_pixel_def Let_def pixel_mask)
qed

theorem psf_pixel_correct_witness:
  "psf_parse psf_example = Inr (psf_font_of psf_example) \<and>
   psf_pixel (psf_font_of psf_example) 65 0 0 =
     Some (bit (psf_example ! (32 + glyph_index (psf_font_of psf_example) 65)) 7)"
  using psf_pixel_correct [OF psf_example_parse, of 65 0 0] psf_example_parse
  by (simp add: psf_font_of_def psf_example_def field_def)



end
