(* ===== verification/Block_Device.thy ===== *)
theory Block_Device
  imports Kernel_Prelude
begin

text \<open>
  The sector interface \<open>BlockDevice\<close> of \<open>crates/kernel-core/src/block.rs\<close>: the trait as a
  record of its methods, the contract of a working device as a locale, and the memory device of
  the filesystem's test module, which keeps the contract.
\<close>

definition SECTOR_SIZE :: nat where "SECTOR_SIZE = 512"

datatype block_error = OutOfRange | ReadOnly | BlockIo

fun block_error_text :: "block_error \<Rightarrow> string" where
  "block_error_text OutOfRange = ''block address out of range''"
| "block_error_text ReadOnly = ''block device is read-only''"
| "block_error_text BlockIo = ''block I/O error''"

type_synonym sector = "byte list"

text \<open>\<open>write_sector\<close> takes \<open>&self\<close> and changes the device behind it: the new device is returned.\<close>

record 'd block_ops =
  bd_sector_count :: "'d \<Rightarrow> nat"
  bd_read_sector :: "'d \<Rightarrow> nat \<Rightarrow> block_error + sector"
  bd_write_sector :: "nat \<Rightarrow> sector \<Rightarrow> 'd \<Rightarrow> 'd \<times> (block_error + unit)"

locale block_device =
  fixes bd :: "'d block_ops"
    and dev_ok :: "'d \<Rightarrow> bool"
    and sector_of :: "'d \<Rightarrow> nat \<Rightarrow> sector"
  assumes read_in: "\<lbrakk>dev_ok d; n < bd_sector_count bd d\<rbrakk> \<Longrightarrow> bd_read_sector bd d n = Inr (sector_of d n)"
    and sector_length: "\<lbrakk>dev_ok d; n < bd_sector_count bd d\<rbrakk> \<Longrightarrow> length (sector_of d n) = SECTOR_SIZE"
    and read_out: "\<lbrakk>dev_ok d; bd_sector_count bd d \<le> n\<rbrakk> \<Longrightarrow> bd_read_sector bd d n = Inl OutOfRange"
    and write_in: "\<lbrakk>dev_ok d; n < bd_sector_count bd d; length b = SECTOR_SIZE\<rbrakk> \<Longrightarrow>
      \<exists>d'. bd_write_sector bd n b d = (d', Inr ()) \<and> dev_ok d' \<and>
        bd_sector_count bd d' = bd_sector_count bd d \<and> sector_of d' = (sector_of d)(n := b)"
    and write_out: "\<lbrakk>dev_ok d; bd_sector_count bd d \<le> n\<rbrakk> \<Longrightarrow> bd_write_sector bd n b d = (d, Inl OutOfRange)"
begin

lemma write_step:
  assumes "dev_ok d" and "n < bd_sector_count bd d" and "length b = SECTOR_SIZE"
  obtains d' where "bd_write_sector bd n b d = (d', Inr ())" and "dev_ok d'"
    and "bd_sector_count bd d' = bd_sector_count bd d" and "sector_of d' = (sector_of d)(n := b)"
  using write_in [OF assms] by blast

end

section \<open>The memory device\<close>

record shared_memory_block =
  smb_sectors :: nat
  smb_bytes :: "byte list"

definition smb_read_sector :: "shared_memory_block \<Rightarrow> nat \<Rightarrow> block_error + sector" where
  "smb_read_sector d sector =
     (if smb_sectors d \<le> sector then Inl OutOfRange
      else (let start = sector * SECTOR_SIZE in Inr (take SECTOR_SIZE (drop start (smb_bytes d)))))"

definition smb_write_sector ::
  "nat \<Rightarrow> sector \<Rightarrow> shared_memory_block \<Rightarrow> shared_memory_block \<times> (block_error + unit)" where
  "smb_write_sector sector buffer d =
     (if smb_sectors d \<le> sector then (d, Inl OutOfRange)
      else (let start = sector * SECTOR_SIZE
            in (d\<lparr>smb_bytes := take start (smb_bytes d) @ buffer @ drop (start + SECTOR_SIZE) (smb_bytes d)\<rparr>,
                Inr ())))"

definition smb_ops :: "shared_memory_block block_ops" where
  "smb_ops = \<lparr>bd_sector_count = smb_sectors, bd_read_sector = smb_read_sector,
     bd_write_sector = smb_write_sector\<rparr>"

definition smb_new :: "nat \<Rightarrow> shared_memory_block" where
  "smb_new n = \<lparr>smb_sectors = n, smb_bytes = replicate (n * SECTOR_SIZE) 0\<rparr>"

definition smb_ok :: "shared_memory_block \<Rightarrow> bool" where
  "smb_ok d \<longleftrightarrow> length (smb_bytes d) = smb_sectors d * SECTOR_SIZE"

definition smb_sector :: "shared_memory_block \<Rightarrow> nat \<Rightarrow> sector" where
  "smb_sector d n = take SECTOR_SIZE (drop (n * SECTOR_SIZE) (smb_bytes d))"

lemma smb_new_ok [simp]: "smb_ok (smb_new n)"
  by (simp add: smb_ok_def smb_new_def)

lemma take_drop_prefix:
  assumes "a + k \<le> c" and "c \<le> length xs"
  shows "take k (drop a (take c xs @ ys)) = take k (drop a xs)"
  using assms by (intro nth_equalityI) (auto simp: nth_append)

lemma smb_sector_update:
  assumes "smb_ok d" and "n < smb_sectors d" and "length b = SECTOR_SIZE"
  shows "smb_sector (d\<lparr>smb_bytes := take (n * SECTOR_SIZE) (smb_bytes d) @ b @
      drop (n * SECTOR_SIZE + SECTOR_SIZE) (smb_bytes d)\<rparr>) = (smb_sector d)(n := b)"
proof
  fix m
  let ?S = SECTOR_SIZE
  have fits: "n * ?S + ?S \<le> length (smb_bytes d)"
    using assms(1,2) mult_le_mono1 [of "Suc n" "smb_sectors d" ?S] by (simp add: smb_ok_def)
  consider "m < n" | "m = n" | "n < m" by linarith
  then show "smb_sector (d\<lparr>smb_bytes := take (n * ?S) (smb_bytes d) @ b @
      drop (n * ?S + ?S) (smb_bytes d)\<rparr>) m = ((smb_sector d)(n := b)) m"
  proof cases
    case 1
    then have "m * ?S + ?S \<le> n * ?S" using mult_le_mono1 [of "Suc m" n ?S] by simp
    then show ?thesis using 1 fits by (simp add: smb_sector_def take_drop_prefix del: drop_append take_append)
  next
    case 2
    then show ?thesis using fits assms(3) by (simp add: smb_sector_def)
  next
    case 3
    then have "n * ?S + ?S \<le> m * ?S" using mult_le_mono1 [of "Suc n" m ?S] by simp
    then show ?thesis using 3 fits assms(3) by (simp add: smb_sector_def)
  qed
qed

interpretation smb: block_device smb_ops smb_ok smb_sector
proof unfold_locales
  fix d n b
  assume ok: "smb_ok d"
  have fits: "n * SECTOR_SIZE + SECTOR_SIZE \<le> length (smb_bytes d)" if "n < smb_sectors d"
    using ok that mult_le_mono1 [of "Suc n" "smb_sectors d" SECTOR_SIZE] by (simp add: smb_ok_def)
  show "bd_read_sector smb_ops d n = Inr (smb_sector d n)" "length (smb_sector d n) = SECTOR_SIZE"
    if "n < bd_sector_count smb_ops d"
    using that fits by (simp_all add: smb_ops_def smb_read_sector_def smb_sector_def)
  show "bd_read_sector smb_ops d n = Inl OutOfRange" "bd_write_sector smb_ops n b d = (d, Inl OutOfRange)"
    if "bd_sector_count smb_ops d \<le> n"
    using that by (simp_all add: smb_ops_def smb_read_sector_def smb_write_sector_def)
  show "\<exists>d'. bd_write_sector smb_ops n b d = (d', Inr ()) \<and> smb_ok d' \<and>
      bd_sector_count smb_ops d' = bd_sector_count smb_ops d \<and> smb_sector d' = (smb_sector d)(n := b)"
    if "n < bd_sector_count smb_ops d" "length b = SECTOR_SIZE"
    using that fits ok smb_sector_update [OF ok, of n b]
    by (simp add: smb_ops_def smb_write_sector_def smb_ok_def Let_def)
qed

end
