(* ===== verification/Vfs_Paths.thy ===== *)
theory Vfs_Paths
  imports Kernel_Prelude
begin

text \<open>
  The types and the pathname functions of \<open>crates/kernel-core/src/vfs.rs\<close>. A \<open>str\<close> is the
  list of its bytes; every test of the code (\<open>'/'\<close>, \<open>'.'\<close>, NUL, lengths) is on bytes.
\<close>

definition NAME_MAX :: nat where "NAME_MAX = 255"

definition PATH_MAX :: nat where "PATH_MAX = 4096"

type_synonym inode = nat

datatype node_kind = File | Directory

record metadata =
  md_inode :: inode
  md_kind :: node_kind
  md_len :: nat

record dir_entry =
  de_name :: string
  de_metadata :: metadata

record mount_info =
  mi_path :: string
  mi_filesystem :: string

datatype vfs_error =
  InvalidPath | InvalidName | NameTooLong | NotFound | AlreadyExists | NotDirectory |
  IsDirectory | DirectoryNotEmpty | RootImmutable | AlreadyMounted | MountPointNotDirectory |
  OffsetOverflow | InodeExhausted | Io | NoSpace | CorruptFilesystem

fun vfs_error_text :: "vfs_error \<Rightarrow> string" where
  "vfs_error_text InvalidPath = ''invalid path''"
| "vfs_error_text InvalidName = ''invalid file name''"
| "vfs_error_text NameTooLong = ''name or path too long''"
| "vfs_error_text NotFound = ''no such file or directory''"
| "vfs_error_text AlreadyExists = ''file or directory already exists''"
| "vfs_error_text NotDirectory = ''not a directory''"
| "vfs_error_text IsDirectory = ''is a directory''"
| "vfs_error_text DirectoryNotEmpty = ''directory not empty''"
| "vfs_error_text RootImmutable = ''cannot remove filesystem root''"
| "vfs_error_text AlreadyMounted = ''mount point already has a filesystem''"
| "vfs_error_text MountPointNotDirectory = ''mount point is not a directory''"
| "vfs_error_text OffsetOverflow = ''file offset overflow''"
| "vfs_error_text InodeExhausted = ''inode space exhausted''"
| "vfs_error_text Io = ''filesystem I/O error''"
| "vfs_error_text NoSpace = ''no space left on device''"
| "vfs_error_text CorruptFilesystem = ''corrupt or unsupported filesystem''"

section \<open>String functions of the library\<close>

text \<open>\<open>str::split\<close> on a character: always at least one piece.\<close>

fun split_on :: "char \<Rightarrow> string \<Rightarrow> string list" where
  "split_on c [] = [[]]"
| "split_on c (x # xs) =
     (if x = c then [] # split_on c xs
      else (case split_on c xs of [] \<Rightarrow> [[x]] | p # ps \<Rightarrow> (x # p) # ps))"

definition trim_start :: "char \<Rightarrow> string \<Rightarrow> string" where
  "trim_start c = dropWhile (\<lambda>x. x = c)"

definition starts_with :: "string \<Rightarrow> string \<Rightarrow> bool" where
  "starts_with p s \<longleftrightarrow> take (length p) s = p"

definition strip_prefix :: "string \<Rightarrow> string \<Rightarrow> string option" where
  "strip_prefix p s = (if take (length p) s = p then Some (drop (length p) s) else None)"

text \<open>\<open>str::rsplit_once\<close>: what is before and after the last occurrence.\<close>

definition rsplit_once :: "char \<Rightarrow> string \<Rightarrow> (string \<times> string) option" where
  "rsplit_once c s =
     (if c \<in> set s
      then Some (rev (tl (dropWhile (\<lambda>x. x \<noteq> c) (rev s))), rev (takeWhile (\<lambda>x. x \<noteq> c) (rev s)))
      else None)"

section \<open>Pathnames\<close>

abbreviation NUL :: char where "NUL \<equiv> CHR 0x00"

definition validate_name :: "string \<Rightarrow> vfs_error + unit" where
  "validate_name name =
     (if name = [] \<or> name = ''.'' \<or> name = ''..'' \<or> CHR ''/'' \<in> set name \<or> NUL \<in> set name
      then Inl InvalidName
      else if NAME_MAX < length name then Inl NameTooLong
      else Inr ())"

fun push_components :: "string list \<Rightarrow> string list \<Rightarrow> vfs_error + string list" where
  "push_components components [] = Inr components"
| "push_components components (c # cs) =
     (if c = [] \<or> c = ''.'' then push_components components cs
      else if c = ''..'' then push_components (butlast components) cs
      else rbind (validate_name c) (\<lambda>_. push_components (components @ [c]) cs))"

fun join_from :: "nat \<Rightarrow> string list \<Rightarrow> string" where
  "join_from index [] = []"
| "join_from index (c # cs) = (if 0 < index then ''/'' else []) @ c @ join_from (index + 1) cs"

definition path_string :: "string list \<Rightarrow> string" where
  "path_string components = ''/'' @ join_from 0 components"

definition normalize_path :: "string \<Rightarrow> string \<Rightarrow> vfs_error + string" where
  "normalize_path base path =
     (if path = [] \<or> NUL \<in> set path then Inl InvalidPath
      else if \<not> starts_with ''/'' base \<or> NUL \<in> set base then Inl InvalidPath
      else
        rbind (if \<not> starts_with ''/'' path then push_components [] (split_on (CHR ''/'') base)
               else Inr []) (\<lambda>components.
        rbind (push_components components (split_on (CHR ''/'') path)) (\<lambda>components.
        if PATH_MAX < length (path_string components) then Inl NameTooLong
        else Inr (path_string components))))"

section \<open>Canonical paths\<close>

definition name_ok :: "string \<Rightarrow> bool" where
  "name_ok n \<longleftrightarrow> n \<noteq> [] \<and> n \<noteq> ''.'' \<and> n \<noteq> ''..'' \<and> CHR ''/'' \<notin> set n \<and> NUL \<notin> set n \<and> length n \<le> NAME_MAX"

lemma validate_name_ok: "validate_name n = Inr () \<longleftrightarrow> name_ok n"
  by (auto simp: validate_name_def name_ok_def)

lemma name_okD: "name_ok n \<Longrightarrow> n \<noteq> [] \<and> n \<noteq> ''.'' \<and> n \<noteq> ''..'' \<and> CHR ''/'' \<notin> set n \<and> NUL \<notin> set n"
  by (simp add: name_ok_def)

definition canonical :: "string \<Rightarrow> bool" where
  "canonical p \<longleftrightarrow> (\<exists>cs. (\<forall>c\<in>set cs. name_ok c) \<and> p = path_string cs)"

lemma join_from_Suc: "join_from (Suc i) cs = concat (map (\<lambda>c. CHR ''/'' # c) cs)"
  by (induction cs arbitrary: i) simp_all

lemma path_string_Nil [simp]: "path_string [] = ''/''"
  by (simp add: path_string_def)

lemma path_string_nonempty: "cs \<noteq> [] \<Longrightarrow> path_string cs = concat (map (\<lambda>c. CHR ''/'' # c) cs)"
  by (cases cs) (simp_all add: path_string_def join_from_Suc)

lemma split_on_nonempty [simp]: "split_on c s \<noteq> []"
  by (cases s) (auto split: list.splits)

lemma split_on_plain: "c \<notin> set s \<Longrightarrow> split_on c s = [s]"
  by (induction s) auto

lemma split_on_append: "c \<notin> set s \<Longrightarrow> split_on c (s @ c # t) = s # split_on c t"
  by (induction s) auto

lemma split_on_path:
  assumes "\<forall>n\<in>set cs. CHR ''/'' \<notin> set n" and "CHR ''/'' \<notin> set n0"
  shows "split_on (CHR ''/'') (n0 @ concat (map (\<lambda>c. CHR ''/'' # c) cs)) = n0 # cs"
  using assms
proof (induction cs arbitrary: n0)
  case Nil
  then show ?case by (simp add: split_on_plain)
next
  case (Cons c cs)
  then show ?case using split_on_append [of "CHR ''/''" n0 "c @ concat (map (\<lambda>c. CHR ''/'' # c) cs)"] by simp
qed

lemma split_path_string:
  assumes "\<forall>n\<in>set cs. name_ok n"
  shows "split_on (CHR ''/'') (path_string cs) = (if cs = [] then [[], []] else [] # cs)"
  using assms split_on_path [of cs "[]"] by (auto simp: path_string_nonempty name_ok_def)

lemma push_components_ok:
  assumes "push_components cs parts = Inr out" and "\<forall>c\<in>set cs. name_ok c"
  shows "\<forall>c\<in>set out. name_ok c"
  using assms
proof (induction cs parts rule: push_components.induct)
  case (2 cs c parts)
  then show ?case
    by (auto simp: rbind_eq_Inr validate_name_ok split: if_splits dest: in_set_butlastD)
qed simp

lemma push_components_names:
  "\<forall>c\<in>set parts. name_ok c \<Longrightarrow> push_components cs parts = Inr (cs @ parts)"
proof (induction parts arbitrary: cs)
  case (Cons c parts)
  then have "validate_name c = Inr ()" by (simp add: validate_name_ok)
  with Cons show ?case using name_okD [of c] by simp
qed simp

lemma push_components_append:
  "push_components cs (xs @ ys) = rbind (push_components cs xs) (\<lambda>ds. push_components ds ys)"
proof (induction cs xs rule: push_components.induct)
  case (2 cs c parts)
  then show ?case by (cases "validate_name c") auto
qed simp

lemma split_on_join: "split_on c (s @ c # t) = split_on c s @ split_on c t"
  by (induction s) (auto split: list.splits)

lemma push_canonical:
  assumes "\<forall>c\<in>set cs. name_ok c"
  shows "push_components [] (split_on (CHR ''/'') (path_string cs)) = Inr cs"
  using push_components_names [OF assms, of "[]"] by (simp add: split_path_string [OF assms])

lemma starts_path_string: "starts_with ''/'' (path_string cs)"
  by (simp add: starts_with_def path_string_def)

lemma NUL_path_string: "\<forall>c\<in>set cs. name_ok c \<Longrightarrow> NUL \<notin> set (path_string cs)"
  by (cases "cs = []") (auto simp: path_string_nonempty name_ok_def)

lemma normalize_canonical:
  assumes "\<forall>c\<in>set cs. name_ok c" and "length (path_string cs) \<le> PATH_MAX"
    and "starts_with ''/'' base" and "NUL \<notin> set base"
  shows "normalize_path base (path_string cs) = Inr (path_string cs)"
  using assms push_canonical [OF assms(1)] NUL_path_string [OF assms(1)] starts_path_string [of cs]
  by (auto simp: normalize_path_def path_string_def)

lemma normalize_path_string:
  assumes "normalize_path base path = Inr p"
  obtains cs where "\<forall>c\<in>set cs. name_ok c" and "p = path_string cs" and "length p \<le> PATH_MAX"
    and "starts_with ''/'' base" and "NUL \<notin> set base"
proof -
  obtain ds cs where ds: "(if \<not> starts_with ''/'' path then push_components [] (split_on (CHR ''/'') base)
      else Inr []) = Inr ds"
    and cs: "push_components ds (split_on (CHR ''/'') path) = Inr cs"
    and p: "p = path_string cs" "length p \<le> PATH_MAX"
    and base: "starts_with ''/'' base" "NUL \<notin> set base"
    using assms by (auto simp: normalize_path_def rbind_eq_Inr not_less split: if_splits)
  have "\<forall>c\<in>set ds. name_ok c"
    using ds push_components_ok [of "[]" _ ds] by (auto split: if_splits)
  then have "\<forall>c\<in>set cs. name_ok c" using push_components_ok [OF cs] by blast
  with p base that show ?thesis by blast
qed

lemma path_string_inj:
  assumes "\<forall>c\<in>set cs. name_ok c" and "\<forall>c\<in>set ds. name_ok c" and "path_string cs = path_string ds"
  shows "cs = ds"
  using push_canonical [OF assms(1), unfolded assms(3)] push_canonical [OF assms(2)]
  by (simp only: sum.inject)

section \<open>What path normalisation promises\<close>

text \<open>
  C35: Every path that \<open>normalize_path\<close> returns is canonical: absolute, at most 4096 bytes, and
  made of valid names only, without empty parts, \<open>.\<close> or \<open>..\<close>, so that no path escapes the
  root. Normalising it again, from any directory, changes nothing.
\<close>

theorem normalize_path_canonical:
  assumes "normalize_path base path = Inr p"
  shows "canonical p \<and> length p \<le> PATH_MAX \<and>
    (\<forall>base'. starts_with ''/'' base' \<and> NUL \<notin> set base' \<longrightarrow> normalize_path base' p = Inr p)"
proof -
  obtain cs where "\<forall>c\<in>set cs. name_ok c" "p = path_string cs" "length p \<le> PATH_MAX"
    using normalize_path_string [OF assms] .
  then show ?thesis using normalize_canonical [of cs] unfolding canonical_def by blast
qed

theorem normalize_path_canonical_witness:
  "normalize_path ''/home/user'' ''../tmp/../notes'' = Inr ''/home/notes'' \<and> canonical ''/home/notes''"
proof -
  have run: "normalize_path ''/home/user'' ''../tmp/../notes'' = Inr ''/home/notes''"
    by (simp add: normalize_path_def starts_with_def validate_name_def NAME_MAX_def path_string_def
        PATH_MAX_def)
  from normalize_path_canonical [OF run] run show ?thesis by blast
qed

text \<open>
  A relative path is resolved against the base directory exactly as the absolute path
  obtained by writing the base, a slash and the path.
\<close>

theorem normalize_relative:
  assumes "path \<noteq> []" and "\<not> starts_with ''/'' path" and "starts_with ''/'' base"
  shows "normalize_path base path = normalize_path ''/'' (base @ ''/'' @ path)"
proof -
  have abs: "starts_with ''/'' (base @ ''/'' @ path)"
    using assms(3) by (cases base) (simp_all add: starts_with_def)
  have split: "split_on (CHR ''/'') (base @ ''/'' @ path) =
      split_on (CHR ''/'') base @ split_on (CHR ''/'') path"
    using split_on_join [of "CHR ''/''" base path] by simp
  show ?thesis
  proof (cases "NUL \<in> set base \<or> NUL \<in> set path")
    case True
    then show ?thesis using assms by (auto simp: normalize_path_def)
  next
    case False
    have root: "starts_with ''/'' ''/''" by (simp add: starts_with_def)
    have "normalize_path base path =
        rbind (push_components [] (split_on (CHR ''/'') (base @ ''/'' @ path))) (\<lambda>components.
          if PATH_MAX < length (path_string components) then Inl NameTooLong
          else Inr (path_string components))"
      using False assms unfolding normalize_path_def split push_components_append
      by (cases "push_components [] (split_on (CHR ''/'') base)") simp_all
    also have "\<dots> = normalize_path ''/'' (base @ ''/'' @ path)"
      using False abs root by (simp add: normalize_path_def)
    finally show ?thesis .
  qed
qed

theorem normalize_relative_witness:
  "normalize_path ''/a'' ''b'' = normalize_path ''/'' ''/a/b''"
  using normalize_relative [of "''b''" "''/a''"] by (simp add: starts_with_def)

end
