(* ===== verification/Vfs_Layer.thy ===== *)
theory Vfs_Layer
  imports Vfs_Paths "HOL-Library.Sublist" "HOL-Library.List_Lexorder" "HOL-Library.Char_ord"
begin

text \<open>
  The mount and pathname layer \<open>Vfs\<close> of \<open>crates/kernel-core/src/vfs.rs\<close>. The trait
  \<open>FileSystem\<close> is the record \<open>fs_ops\<close> of its methods over a state type \<open>'s\<close>; a method with
  \<open>&mut self\<close> returns the new state, also when it fails. \<open>read\<close> returns the bytes that it puts
  into the buffer, given the buffer's length. Offsets and lengths are numbers below \<open>2\<^sup>6\<^sup>4\<close>.
\<close>

record 's fs_ops =
  fs_name :: "'s \<Rightarrow> string"
  fs_root_inode :: "'s \<Rightarrow> inode"
  fs_metadata :: "'s \<Rightarrow> inode \<Rightarrow> vfs_error + metadata"
  fs_lookup :: "'s \<Rightarrow> inode \<Rightarrow> string \<Rightarrow> vfs_error + inode"
  fs_read_dir :: "'s \<Rightarrow> inode \<Rightarrow> vfs_error + dir_entry list"
  fs_create_file :: "'s \<Rightarrow> inode \<Rightarrow> string \<Rightarrow> 's \<times> (vfs_error + inode)"
  fs_create_dir :: "'s \<Rightarrow> inode \<Rightarrow> string \<Rightarrow> 's \<times> (vfs_error + inode)"
  fs_read :: "'s \<Rightarrow> inode \<Rightarrow> nat \<Rightarrow> nat \<Rightarrow> vfs_error + byte list"
  fs_write :: "'s \<Rightarrow> inode \<Rightarrow> nat \<Rightarrow> byte list \<Rightarrow> 's \<times> (vfs_error + nat)"
  fs_truncate :: "'s \<Rightarrow> inode \<Rightarrow> nat \<Rightarrow> 's \<times> (vfs_error + unit)"
  fs_remove :: "'s \<Rightarrow> inode \<Rightarrow> string \<Rightarrow> 's \<times> (vfs_error + unit)"

record 's mount =
  mount_path :: string
  mount_fs :: 's

type_synonym 's vfs = "'s mount list"

section \<open>Resolving names in one filesystem\<close>

fun walk :: "'s fs_ops \<Rightarrow> 's \<Rightarrow> inode \<Rightarrow> string list \<Rightarrow> vfs_error + inode" where
  "walk ops s i [] = Inr i"
| "walk ops s i (c # cs) = rbind (fs_lookup ops s i c) (\<lambda>j. walk ops s j cs)"

definition resolve_inode :: "'s fs_ops \<Rightarrow> 's \<Rightarrow> string \<Rightarrow> vfs_error + inode" where
  "resolve_inode ops s path =
     (if path = ''/'' then Inr (fs_root_inode ops s)
      else walk ops s (fs_root_inode ops s) (split_on (CHR ''/'') (trim_start (CHR ''/'') path)))"

definition resolve_parent :: "'s fs_ops \<Rightarrow> 's \<Rightarrow> string \<Rightarrow> vfs_error + inode \<times> string" where
  "resolve_parent ops s path =
     (if path = ''/'' then Inl RootImmutable
      else
        rbind (ok_or (rsplit_once (CHR ''/'') path) InvalidPath) (\<lambda>(parent_path, name).
        rbind (validate_name name) (\<lambda>_.
        rbind (resolve_inode ops s (if parent_path = [] then ''/'' else parent_path)) (\<lambda>parent.
        rbind (fs_metadata ops s parent) (\<lambda>m.
        if md_kind m \<noteq> Directory then Inl NotDirectory else Inr (parent, name))))))"

section \<open>Mounts\<close>

definition vfs_new :: "'s \<Rightarrow> 's vfs" where
  "vfs_new root = [\<lparr>mount_path = ''/'', mount_fs = root\<rparr>]"

definition covers :: "string \<Rightarrow> 's mount \<Rightarrow> bool" where
  "covers path m \<longleftrightarrow>
     path = mount_path m \<or>
     (case strip_prefix (mount_path m) path of None \<Rightarrow> False | Some rest \<Rightarrow> starts_with ''/'' rest)"

fun route_loop :: "string \<Rightarrow> (nat \<times> 's mount) list \<Rightarrow> nat \<Rightarrow> nat \<Rightarrow> nat" where
  "route_loop path [] best_index best_len = best_index"
| "route_loop path ((index, m) # rest) best_index best_len =
     (if covers path m \<and> best_len < length (mount_path m)
      then route_loop path rest index (length (mount_path m))
      else route_loop path rest best_index best_len)"

definition route :: "'s vfs \<Rightarrow> string \<Rightarrow> nat \<times> string" where
  "route v path =
     (let best_index = route_loop path (drop 1 (enumerate 0 v)) 0 1;
          mp = mount_path (v ! best_index)
      in if mp = ''/'' then (best_index, path)
         else
           (let rest = drop (length mp) path
            in (best_index, if rest = [] then ''/'' else rest)))"

section \<open>Operations\<close>

definition vfs_metadata :: "'s fs_ops \<Rightarrow> 's vfs \<Rightarrow> string \<Rightarrow> vfs_error + metadata" where
  "vfs_metadata ops v path =
     rbind (normalize_path ''/'' path) (\<lambda>path.
     let (index, relative) = route v path; s = mount_fs (v ! index)
     in rbind (resolve_inode ops s relative) (\<lambda>i. fs_metadata ops s i))"

definition vfs_mount :: "'s fs_ops \<Rightarrow> 's vfs \<Rightarrow> string \<Rightarrow> 's \<Rightarrow> 's vfs \<times> (vfs_error + unit)" where
  "vfs_mount ops v path fs =
     (case normalize_path ''/'' path of
        Inl e \<Rightarrow> (v, Inl e)
      | Inr path \<Rightarrow>
          (if path = ''/'' \<or> list_ex (\<lambda>m. mount_path m = path) v then (v, Inl AlreadyMounted)
           else case vfs_metadata ops v path of
                  Inl e \<Rightarrow> (v, Inl e)
                | Inr m \<Rightarrow>
                    (if md_kind m \<noteq> Directory then (v, Inl MountPointNotDirectory)
                     else (v @ [\<lparr>mount_path = path, mount_fs = fs\<rparr>], Inr ()))))"

definition vfs_mounts :: "'s fs_ops \<Rightarrow> 's vfs \<Rightarrow> mount_info list" where
  "vfs_mounts ops v =
     sort_key mi_path
       (map (\<lambda>m. \<lparr>mi_path = mount_path m, mi_filesystem = fs_name ops (mount_fs m)\<rparr>) v)"

definition vfs_read_dir :: "'s fs_ops \<Rightarrow> 's vfs \<Rightarrow> string \<Rightarrow> vfs_error + dir_entry list" where
  "vfs_read_dir ops v path =
     rbind (normalize_path ''/'' path) (\<lambda>path.
     let (index, relative) = route v path; s = mount_fs (v ! index)
     in rbind (resolve_inode ops s relative) (\<lambda>i. fs_read_dir ops s i))"

definition vfs_read :: "'s fs_ops \<Rightarrow> 's vfs \<Rightarrow> string \<Rightarrow> nat \<Rightarrow> nat \<Rightarrow> vfs_error + byte list" where
  "vfs_read ops v path off len =
     rbind (normalize_path ''/'' path) (\<lambda>path.
     let (index, relative) = route v path; s = mount_fs (v ! index)
     in rbind (resolve_inode ops s relative) (\<lambda>i. fs_read ops s i off len))"

definition vfs_read_all :: "'s fs_ops \<Rightarrow> 's vfs \<Rightarrow> string \<Rightarrow> vfs_error + byte list" where
  "vfs_read_all ops v path =
     rbind (vfs_metadata ops v path) (\<lambda>m.
     if md_kind m = Directory then Inl IsDirectory
     else vfs_read ops v path 0 (md_len m))"

text \<open>The operations that change a filesystem replace the state of its mount.\<close>

definition put_fs :: "'s vfs \<Rightarrow> nat \<Rightarrow> 's \<Rightarrow> 's vfs" where
  "put_fs v index s = v[index := (v ! index)\<lparr>mount_fs := s\<rparr>]"

definition on_parent ::
  "'s fs_ops \<Rightarrow> 's vfs \<Rightarrow> string \<Rightarrow> ('s \<Rightarrow> inode \<Rightarrow> string \<Rightarrow> 's \<times> (vfs_error + 'b)) \<Rightarrow>
   ('s \<Rightarrow> 'b \<Rightarrow> vfs_error + 'c) \<Rightarrow> 's vfs \<times> (vfs_error + 'c)" where
  "on_parent ops v path f after =
     (case normalize_path ''/'' path of
        Inl e \<Rightarrow> (v, Inl e)
      | Inr path \<Rightarrow>
          (let (index, relative) = route v path; s = mount_fs (v ! index)
           in case resolve_parent ops s relative of
                Inl e \<Rightarrow> (v, Inl e)
              | Inr (parent, name) \<Rightarrow>
                  (case f s parent name of
                     (s', Inl e) \<Rightarrow> (put_fs v index s', Inl e)
                   | (s', Inr x) \<Rightarrow> (put_fs v index s', after s' x))))"

definition vfs_create_file :: "'s fs_ops \<Rightarrow> 's vfs \<Rightarrow> string \<Rightarrow> 's vfs \<times> (vfs_error + metadata)" where
  "vfs_create_file ops v path = on_parent ops v path (fs_create_file ops) (fs_metadata ops)"

definition vfs_create_dir :: "'s fs_ops \<Rightarrow> 's vfs \<Rightarrow> string \<Rightarrow> 's vfs \<times> (vfs_error + metadata)" where
  "vfs_create_dir ops v path = on_parent ops v path (fs_create_dir ops) (fs_metadata ops)"

definition vfs_remove :: "'s fs_ops \<Rightarrow> 's vfs \<Rightarrow> string \<Rightarrow> 's vfs \<times> (vfs_error + unit)" where
  "vfs_remove ops v path = on_parent ops v path (fs_remove ops) (\<lambda>_. Inr)"

definition on_inode ::
  "'s fs_ops \<Rightarrow> 's vfs \<Rightarrow> string \<Rightarrow> ('s \<Rightarrow> inode \<Rightarrow> 's \<times> (vfs_error + 'b)) \<Rightarrow> 's vfs \<times> (vfs_error + 'b)" where
  "on_inode ops v path f =
     (case normalize_path ''/'' path of
        Inl e \<Rightarrow> (v, Inl e)
      | Inr path \<Rightarrow>
          (let (index, relative) = route v path; s = mount_fs (v ! index)
           in case resolve_inode ops s relative of
                Inl e \<Rightarrow> (v, Inl e)
              | Inr i \<Rightarrow> (case f s i of (s', r) \<Rightarrow> (put_fs v index s', r))))"

definition vfs_write ::
  "'s fs_ops \<Rightarrow> 's vfs \<Rightarrow> string \<Rightarrow> nat \<Rightarrow> byte list \<Rightarrow> 's vfs \<times> (vfs_error + nat)" where
  "vfs_write ops v path off data = on_inode ops v path (\<lambda>s i. fs_write ops s i off data)"

definition vfs_truncate :: "'s fs_ops \<Rightarrow> 's vfs \<Rightarrow> string \<Rightarrow> nat \<Rightarrow> 's vfs \<times> (vfs_error + unit)" where
  "vfs_truncate ops v path len = on_inode ops v path (\<lambda>s i. fs_truncate ops s i len)"

section \<open>Resolution of canonical paths\<close>

abbreviation names_ok :: "string list \<Rightarrow> bool" where
  "names_ok cs \<equiv> \<forall>c\<in>set cs. name_ok c"

lemma path_string_root: "names_ok cs \<Longrightarrow> path_string cs = ''/'' \<longleftrightarrow> cs = []"
  using path_string_inj [of cs "[]"] by auto

lemma resolve_path_string:
  assumes "names_ok cs"
  shows "resolve_inode ops s (path_string cs) = walk ops s (fs_root_inode ops s) cs"
proof (cases cs)
  case Nil
  then show ?thesis by (simp add: resolve_inode_def)
next
  case (Cons c ds)
  have c: "c \<noteq> []" "CHR ''/'' \<notin> set c" using assms Cons by (auto simp: name_ok_def)
  have "trim_start (CHR ''/'') (path_string cs) = c @ concat (map (\<lambda>c. CHR ''/'' # c) ds)"
    using c by (cases c) (auto simp: Cons path_string_nonempty trim_start_def)
  moreover have "split_on (CHR ''/'') (c @ concat (map (\<lambda>c. CHR ''/'' # c) ds)) = c # ds"
    using assms c Cons by (intro split_on_path) (auto simp: name_ok_def)
  ultimately show ?thesis
    using path_string_root [OF assms] Cons by (simp add: resolve_inode_def)
qed

lemma rsplit_path_string:
  assumes "name_ok n"
  shows "rsplit_once (CHR ''/'') (path_string (cs @ [n])) =
    Some (if cs = [] then [] else path_string cs, n)"
proof -
  have p: "path_string (cs @ [n]) = (if cs = [] then [] else path_string cs) @ CHR ''/'' # n"
    by (simp add: path_string_nonempty)
  have n: "\<forall>x\<in>set (rev n). x \<noteq> CHR ''/''" using assms by (auto simp: name_ok_def)
  then show ?thesis
    unfolding p rsplit_once_def
    using takeWhile_append2 [of "rev n" "\<lambda>x. x \<noteq> CHR ''/''"] dropWhile_append2 [of "rev n" "\<lambda>x. x \<noteq> CHR ''/''"]
    by simp
qed

lemma resolve_parent_path_string:
  assumes "names_ok cs" and "name_ok n"
  shows "resolve_parent ops s (path_string (cs @ [n])) =
    rbind (walk ops s (fs_root_inode ops s) cs) (\<lambda>parent.
    rbind (fs_metadata ops s parent) (\<lambda>m.
    if md_kind m \<noteq> Directory then Inl NotDirectory else Inr (parent, n)))"
proof -
  have "path_string (cs @ [n]) \<noteq> ''/''" using path_string_root [of "cs @ [n]"] assms by auto
  moreover have "(if (if cs = [] then [] else path_string cs) = [] then ''/'' else
      (if cs = [] then [] else path_string cs)) = path_string cs"
    by (auto simp: path_string_def)
  moreover have "validate_name n = Inr ()" using assms(2) by (simp add: validate_name_ok)
  ultimately show ?thesis
    by (simp add: resolve_parent_def rsplit_path_string [OF assms(2)]
        resolve_path_string [OF assms(1)])
qed

section \<open>Routing\<close>

text \<open>The mount table: the root filesystem first, every other mount on its own canonical path.\<close>

definition mounts_ok :: "'s vfs \<Rightarrow> bool" where
  "mounts_ok v \<longleftrightarrow>
     v \<noteq> [] \<and> mount_path (hd v) = ''/'' \<and> (\<forall>m\<in>set v. canonical (mount_path m)) \<and>
     distinct (map mount_path v)"

lemma path_string_append:
  assumes "ms \<noteq> []"
  shows "path_string (ms @ ds) = path_string ms @ concat (map (\<lambda>c. CHR ''/'' # c) ds)"
  using assms by (simp add: path_string_nonempty)

lemma covers_path_string:
  assumes "names_ok ms" "names_ok cs" "ms \<noteq> []" and m: "mount_path m = path_string ms"
  shows "covers (path_string cs) m \<longleftrightarrow> prefix ms cs"
proof
  assume "prefix ms cs"
  then obtain ds where ds: "cs = ms @ ds" by (auto simp: prefix_def)
  show "covers (path_string cs) m"
  proof (cases ds)
    case Nil
    then show ?thesis by (simp add: covers_def m ds)
  next
    case (Cons d rest)
    then show ?thesis
      by (simp add: covers_def strip_prefix_def m ds path_string_append [OF assms(3)] starts_with_def)
  qed
next
  assume c: "covers (path_string cs) m"
  show "prefix ms cs"
  proof (cases "path_string cs = path_string ms")
    case True
    then show ?thesis using path_string_inj [OF assms(2,1)] by simp
  next
    case False
    then obtain rest where r: "take (length (path_string ms)) (path_string cs) = path_string ms"
      "drop (length (path_string ms)) (path_string cs) = CHR ''/'' # rest"
      using c unfolding covers_def strip_prefix_def m
      by (cases "drop (length (path_string ms)) (path_string cs)")
        (auto simp: starts_with_def split: if_splits)
    then have eq: "path_string cs = path_string ms @ CHR ''/'' # rest"
      by (metis append_take_drop_id)
    have "cs \<noteq> []"
    proof
      assume "cs = []"
      then have "length (path_string ms) = 0" using eq by (cases "path_string ms") auto
      then show False by (simp add: path_string_def)
    qed
    then have "[] # cs = ([] # ms) @ split_on (CHR ''/'') rest"
      using split_path_string [OF assms(2)] split_path_string [OF assms(1)] assms(3)
        split_on_join [of "CHR ''/''" "path_string ms" rest] eq by simp
    then show ?thesis by (auto simp: prefix_def)
  qed
qed

lemma path_string_longer:
  assumes "strict_prefix ms ds" and "names_ok ds"
  shows "length (path_string ms) < length (path_string ds)"
proof -
  obtain e es where ds: "ds = ms @ e # es"
    using assms(1) by (auto elim: strict_prefixE')
  then have "e \<noteq> []" using assms(2) by (auto simp: name_ok_def)
  then have "0 < length e" by simp
  then show ?thesis by (cases "ms = []") (simp_all add: ds path_string_nonempty)
qed

lemma route_loop_best:
  "route_loop path ms i0 l0 = i0 \<and>
     (\<forall>i m. (i, m) \<in> set ms \<and> covers path m \<longrightarrow> length (mount_path m) \<le> l0) \<or>
   (\<exists>m. (route_loop path ms i0 l0, m) \<in> set ms \<and> covers path m \<and> l0 < length (mount_path m) \<and>
     (\<forall>i m'. (i, m') \<in> set ms \<and> covers path m' \<longrightarrow>
        length (mount_path m') \<le> length (mount_path m)))"
proof (induction path ms i0 l0 rule: route_loop.induct)
  case (2 path i m rest i0 l0)
  show ?case
  proof (cases "covers path m \<and> l0 < length (mount_path m)")
    case True
    let ?r = "route_loop path rest i (length (mount_path m))"
    have r: "route_loop path ((i, m) # rest) i0 l0 = ?r" using True by simp
    from "2.IH"(1) [OF True] show ?thesis
    proof
      assume a: "?r = i \<and> (\<forall>i m'. (i, m') \<in> set rest \<and> covers path m' \<longrightarrow>
        length (mount_path m') \<le> length (mount_path m))"
      show ?thesis by (rule disjI2, rule exI [of _ m]) (use a r True in auto)
    next
      assume "\<exists>m'. (?r, m') \<in> set rest \<and> covers path m' \<and>
        length (mount_path m) < length (mount_path m') \<and>
        (\<forall>i m''. (i, m'') \<in> set rest \<and> covers path m'' \<longrightarrow>
          length (mount_path m'') \<le> length (mount_path m'))"
      then obtain m' where a: "(?r, m') \<in> set rest" "covers path m'"
        "length (mount_path m) < length (mount_path m')"
        "\<And>i m''. (i, m'') \<in> set rest \<Longrightarrow> covers path m'' \<Longrightarrow>
          length (mount_path m'') \<le> length (mount_path m')" by blast
      show ?thesis by (rule disjI2, rule exI [of _ m']) (use a r True in auto)
    qed
  next
    case False
    have r: "route_loop path ((i, m) # rest) i0 l0 = route_loop path rest i0 l0" using False by auto
    from "2.IH"(2) [OF False] show ?thesis
      unfolding r using False by (elim disjE exE) (auto simp: not_less intro: exI)
  qed
qed simp

lemma route_index:
  fixes v path
  defines "k \<equiv> route_loop path (drop 1 (enumerate 0 v)) 0 1"
  assumes "v \<noteq> []"
  shows "k < length v" and "k = 0 \<or> covers path (v ! k)"
    and "\<forall>j. 0 < j \<and> j < length v \<and> covers path (v ! j) \<longrightarrow>
      length (mount_path (v ! j)) \<le> max 1 (if k = 0 then 1 else length (mount_path (v ! k)))"
proof -
  have mem: "(i, m) \<in> set (drop 1 (enumerate 0 v)) \<longleftrightarrow> 0 < i \<and> i < length v \<and> m = v ! i" for i m
    by (cases v) (auto simp: in_set_enumerate_eq nth_Cons')
  define L where "L = drop 1 (enumerate 0 v)"
  note mem = mem [folded L_def]
  have "k < length v \<and> (k = 0 \<or> covers path (v ! k)) \<and>
    (\<forall>j. 0 < j \<and> j < length v \<and> covers path (v ! j) \<longrightarrow>
      length (mount_path (v ! j)) \<le> max 1 (if k = 0 then 1 else length (mount_path (v ! k))))"
    using route_loop_best [of path L 0 1, folded L_def k_def] assms(2)
    unfolding k_def L_def [symmetric] mem by (auto simp: le_max_iff_disj)
  then show "k < length v" and "k = 0 \<or> covers path (v ! k)"
    and "\<forall>j. 0 < j \<and> j < length v \<and> covers path (v ! j) \<longrightarrow>
      length (mount_path (v ! j)) \<le> max 1 (if k = 0 then 1 else length (mount_path (v ! k)))"
    by blast+
qed

lemma mount_components:
  assumes "mounts_ok v" and "i < length v"
  obtains ms where "names_ok ms" and "mount_path (v ! i) = path_string ms" and "ms = [] \<longleftrightarrow> i = 0"
proof -
  have "canonical (mount_path (v ! i))" using assms by (auto simp: mounts_ok_def)
  then obtain ms where ms: "names_ok ms" "mount_path (v ! i) = path_string ms"
    by (auto simp: canonical_def)
  have zero: "mount_path (v ! 0) = ''/''" using assms by (auto simp: mounts_ok_def hd_conv_nth)
  have "distinct (map mount_path v)" using assms by (simp add: mounts_ok_def)
  then have "mount_path (v ! i) = mount_path (v ! 0) \<longleftrightarrow> i = 0"
    using assms(2) nth_eq_iff_index_eq [of "map mount_path v" i 0] nth_map [of 0 v mount_path]
    by (metis length_map nth_map gr_implies_not0 gr0I)
  then have "ms = [] \<longleftrightarrow> i = 0" using path_string_root [OF ms(1)] ms(2) zero by simp
  with ms that show ?thesis by blast
qed

lemma route_spec:
  assumes v: "mounts_ok v" and cs: "names_ok cs"
  obtains i ms where "route v (path_string cs) = (i, path_string (drop (length ms) cs))"
    and "i < length v" and "mount_path (v ! i) = path_string ms" and "names_ok ms" and "prefix ms cs"
    and "\<And>j ds. j < length v \<Longrightarrow> names_ok ds \<Longrightarrow> mount_path (v ! j) = path_string ds \<Longrightarrow>
      prefix ds cs \<Longrightarrow> prefix ds ms"
proof -
  let ?p = "path_string cs"
  define k where "k = route_loop ?p (drop 1 (enumerate 0 v)) 0 1"
  have "v \<noteq> []" using v by (simp add: mounts_ok_def)
  note R = route_index [OF this, of ?p, folded k_def]
  obtain ms where ms: "names_ok ms" "mount_path (v ! k) = path_string ms" "ms = [] \<longleftrightarrow> k = 0"
    using mount_components [OF v R(1)] .
  have pre: "prefix ms cs"
    using R(2) ms covers_path_string [OF ms(1) cs _ ms(2)] by (cases "k = 0") auto
  then obtain ds where ds: "cs = ms @ ds" by (auto simp: prefix_def)
  have "route v ?p = (k, path_string (drop (length ms) cs))"
  proof (cases "ms = []")
    case True
    then show ?thesis using ms(2) unfolding route_def k_def [symmetric] Let_def by simp
  next
    case False
    have "mount_path (v ! k) \<noteq> ''/''" using ms False path_string_root [OF ms(1)] by simp
    moreover have "drop (length (mount_path (v ! k))) ?p = concat (map (\<lambda>c. CHR ''/'' # c) ds)"
      using False by (simp add: ms(2) ds path_string_append)
    ultimately show ?thesis
      unfolding route_def k_def [symmetric] Let_def
      by (cases ds) (simp_all add: ds path_string_nonempty)
  qed
  moreover have "prefix es ms"
    if j: "j < length v" and es: "names_ok es" "mount_path (v ! j) = path_string es" "prefix es cs" for j es
  proof (rule ccontr)
    assume no: "\<not> prefix es ms"
    then have "es \<noteq> []" by auto
    then have "0 < j" using mount_components [OF v j] path_string_inj es by (metis gr0I)
    moreover have "covers ?p (v ! j)" using covers_path_string [OF es(1) cs \<open>es \<noteq> []\<close> es(2)] es(3) by simp
    ultimately have le: "length (path_string es) \<le> max 1 (if k = 0 then 1 else length (path_string ms))"
      using R(3) j es(2) ms(2) by metis
    have "strict_prefix ms es"
      using prefix_same_cases [OF pre es(3)] no by (auto simp: strict_prefix_def)
    then have "length (path_string ms) < length (path_string es)" using path_string_longer es(1) by blast
    moreover have "1 \<le> length (path_string ms)" by (simp add: path_string_def)
    ultimately show False using le by (simp split: if_splits)
  qed
  ultimately show ?thesis using that R(1) ms(1,2) pre by blast
qed

lemma mounts_ok_new: "mounts_ok (vfs_new s)"
  unfolding mounts_ok_def vfs_new_def canonical_def by (auto intro!: exI [of _ "[]"])

lemma mounts_ok_put [simp]: "mounts_ok (put_fs v i s) \<longleftrightarrow> mounts_ok v"
proof -
  have m: "map mount_path (put_fs v i s) = map mount_path v"
    by (cases "i < length v") (simp_all add: put_fs_def map_update list_update_beyond list_update_same_conv)
  have hd: "mount_path (hd (put_fs v i s)) = mount_path (hd v)" if "v \<noteq> []"
    using m that by (metis list.map_sel(1) list.map_disc_iff)
  have ne: "put_fs v i s = [] \<longleftrightarrow> v = []" by (simp add: put_fs_def)
  have "mount_path ` set (put_fs v i s) = mount_path ` set v" using m by (metis set_map)
  then have "(\<forall>x\<in>set (put_fs v i s). canonical (mount_path x)) \<longleftrightarrow> (\<forall>x\<in>set v. canonical (mount_path x))"
    by (metis (no_types, lifting) image_iff)
  then show ?thesis unfolding mounts_ok_def using m hd ne by auto
qed

lemma route_loop_cong:
  assumes "map (\<lambda>(i, m). (i, mount_path m)) ms = map (\<lambda>(i, m). (i, mount_path m)) ms'"
  shows "route_loop path ms b l = route_loop path ms' b l"
  using assms
proof (induction path ms b l arbitrary: ms' rule: route_loop.induct)
  case (2 path i m rest b l)
  then obtain m' rest' where ms': "ms' = (i, m') # rest'" "mount_path m' = mount_path m"
    "map (\<lambda>(i, m). (i, mount_path m)) rest = map (\<lambda>(i, m). (i, mount_path m)) rest'"
    by (cases ms') auto
  then have "covers path m' = covers path m" by (simp add: covers_def)
  then show ?case using "2.IH" ms' by simp
qed simp

lemma route_cong:
  fixes v w :: "'s vfs"
  assumes "map mount_path v = map mount_path w"
  shows "route v path = route w path"
proof -
  have "map (\<lambda>(i, m). (i, mount_path m)) (enumerate 0 v) = map (\<lambda>(i, m). (i, mount_path m)) (enumerate 0 w)"
    using assms map_eq_imp_length_eq [OF assms]
    by (simp add: enumerate_eq_zip zip_map2 [symmetric])
  then have "map (\<lambda>(i, m). (i, mount_path m)) (drop 1 (enumerate 0 v)) =
      map (\<lambda>(i, m). (i, mount_path m)) (drop 1 (enumerate 0 w))"
    by (metis drop_map)
  from route_loop_cong [OF this, of path 0 1]
  have k: "route_loop path (drop 1 (enumerate 0 v)) 0 1 = route_loop path (drop 1 (enumerate 0 w)) 0 1" .
  show ?thesis
  proof (cases "v = []")
    case True
    then show ?thesis using assms by simp
  next
    case False
    define i where "i = route_loop path (drop 1 (enumerate 0 v)) 0 1"
    have i: "i < length v" unfolding i_def by (rule route_index(1) [OF False])
    then have "mount_path (v ! i) = mount_path (w ! i)"
      using assms map_eq_imp_length_eq [OF assms] by (metis nth_map)
    then show ?thesis unfolding route_def k [symmetric] i_def [symmetric] by simp
  qed
qed

lemma map_mount_path_put [simp]: "map mount_path (put_fs v i s) = map mount_path v"
  by (cases "i < length v")
    (simp_all add: put_fs_def map_update list_update_beyond list_update_same_conv)

lemma route_put [simp]: "route (put_fs v i s) path = route v path"
  by (rule route_cong) simp

lemma nth_put_fs:
  "i < length v \<Longrightarrow> mount_fs (put_fs v i s ! j) = (if j = i then s else mount_fs (v ! j))"
  by (cases "j = i") (simp_all add: put_fs_def)

lemma length_put_fs [simp]: "length (put_fs v i s) = length v"
  by (simp add: put_fs_def)

text \<open>Mounting keeps the table well formed.\<close>

lemma mounts_ok_mount:
  assumes "mounts_ok v" and "vfs_mount ops v path fs = (v', r)"
  shows "mounts_ok v'"
proof (cases "v' = v")
  case False
  then obtain p where p: "normalize_path ''/'' path = Inr p" "v' = v @ [\<lparr>mount_path = p, mount_fs = fs\<rparr>]"
    "\<not> list_ex (\<lambda>m. mount_path m = p) v"
    using assms(2) by (auto simp: vfs_mount_def split: sum.splits if_splits)
  have "canonical p" using normalize_path_string [OF p(1)] by (auto simp: canonical_def)
  then show ?thesis using assms(1) p(2,3) by (auto simp: mounts_ok_def list_ex_iff)
qed (use assms in simp)

section \<open>What routing promises\<close>

text \<open>
  C34: Every operation on a path goes to the filesystem mounted deepest on the way to it: the
  mount point is a prefix of the path, component by component, every other mount point on
  the path is a prefix of it, and the filesystem gets the remaining components.
\<close>

theorem route_deepest:
  assumes "mounts_ok v" and "names_ok cs"
  shows "\<exists>i ms. route v (path_string cs) = (i, path_string (drop (length ms) cs)) \<and> i < length v \<and>
    mount_path (v ! i) = path_string ms \<and> prefix ms cs \<and>
    (\<forall>j ds. j < length v \<and> names_ok ds \<and> mount_path (v ! j) = path_string ds \<and> prefix ds cs \<longrightarrow>
       prefix ds ms)"
proof -
  obtain i ms where "route v (path_string cs) = (i, path_string (drop (length ms) cs))"
    "i < length v" "mount_path (v ! i) = path_string ms" "prefix ms cs"
    "\<And>j ds. j < length v \<Longrightarrow> names_ok ds \<Longrightarrow> mount_path (v ! j) = path_string ds \<Longrightarrow>
      prefix ds cs \<Longrightarrow> prefix ds ms"
    using route_spec [OF assms] by metis
  then show ?thesis by blast
qed

theorem route_deepest_witness:
  "mounts_ok [\<lparr>mount_path = ''/'', mount_fs = (0::nat)\<rparr>, \<lparr>mount_path = ''/mnt'', mount_fs = 1\<rparr>] \<and>
   (\<exists>i ms. route [\<lparr>mount_path = ''/'', mount_fs = (0::nat)\<rparr>, \<lparr>mount_path = ''/mnt'', mount_fs = 1\<rparr>]
      (path_string [''mnt'', ''a'']) = (i, path_string (drop (length (ms :: string list)) [''mnt'', ''a''])))"
proof -
  let ?v = "[\<lparr>mount_path = ''/'', mount_fs = (0::nat)\<rparr>, \<lparr>mount_path = ''/mnt'', mount_fs = 1\<rparr>]"
  have names: "names_ok [''mnt'', ''a'']" "names_ok [''mnt'']"
    by (simp_all add: name_ok_def NAME_MAX_def)
  have "canonical ''/''" unfolding canonical_def by (intro exI [of _ "[]"]) simp
  moreover have "canonical ''/mnt''"
    unfolding canonical_def using names(2) by (intro exI [of _ "[''mnt'']"]) (simp add: path_string_def)
  ultimately have ok: "mounts_ok ?v" by (simp add: mounts_ok_def)
  show ?thesis
  proof (intro conjI, rule ok)
    show "\<exists>i ms. route ?v (path_string [''mnt'', ''a'']) =
        (i, path_string (drop (length (ms :: string list)) [''mnt'', ''a'']))"
      using route_deepest [OF ok names(1)] by (elim exE conjE) (intro exI, assumption)
  qed
qed

end
