(* ===== verification/Generic_Fs.thy ===== *)
theory Generic_Fs
  imports Block_Device Vfs_Layer Byte_Fields Utf8
begin

text \<open>
  The persistent filesystem \<open>GenericFs\<close> of \<open>crates/kernel-core/src/genericfs.rs\<close>: a superblock,
  a table of 64 inodes of 128 bytes, and files in contiguous extents. The device is a parameter
  \<open>bd\<close>; every method returns the device it leaves behind, also when it fails half way. Fields of
  the disk format are numbers below \<open>2\<^sup>6\<^sup>4\<close> (\<open>2\<^sup>3\<^sup>2\<close>, \<open>2\<^sup>8\<close>) and plain additions of sector numbers wrap.
\<close>

definition MAGIC :: "byte list" where
  "MAGIC = [0x47, 0x45, 0x4e, 0x46, 0x53, 0x31, 0, 0]"

definition VERSION :: nat where "VERSION = 1"

definition INODE_COUNT :: nat where "INODE_COUNT = 64"

definition INODE_SIZE :: nat where "INODE_SIZE = 128"

definition INODES_PER_SECTOR :: nat where "INODES_PER_SECTOR = SECTOR_SIZE div INODE_SIZE"

definition INODE_TABLE_START :: nat where "INODE_TABLE_START = 1"

definition INODE_TABLE_SECTORS :: nat where
  "INODE_TABLE_SECTORS = (INODE_COUNT * INODE_SIZE + SECTOR_SIZE - 1) div SECTOR_SIZE"

definition DATA_START :: nat where "DATA_START = INODE_TABLE_START + INODE_TABLE_SECTORS"

definition MAX_DISK_NAME :: nat where "MAX_DISK_NAME = 63"

lemmas gfs_consts = SECTOR_SIZE_def INODE_COUNT_def INODE_SIZE_def INODES_PER_SECTOR_def
  INODE_TABLE_START_def INODE_TABLE_SECTORS_def DATA_START_def MAX_DISK_NAME_def

record disk_inode =
  di_kind :: nat
  di_name_len :: nat
  di_parent :: nat
  di_len :: nat
  di_start_sector :: nat
  di_sector_count :: nat
  di_name :: "byte list"

definition di_empty :: disk_inode where
  "di_empty = \<lparr>di_kind = 0, di_name_len = 0, di_parent = 0, di_len = 0, di_start_sector = 0,
     di_sector_count = 0, di_name = replicate 64 0\<rparr>"

definition di_root :: disk_inode where
  "di_root = di_empty\<lparr>di_kind := 2, di_parent := 1\<rparr>"

definition di_node_kind :: "disk_inode \<Rightarrow> vfs_error + node_kind" where
  "di_node_kind e = (if di_kind e = 1 then Inr File else if di_kind e = 2 then Inr Directory else Inl NotFound)"

text \<open>A \<open>str\<close> is its bytes; the bytes of a name and the characters of a \<open>string\<close> correspond.\<close>

definition str_of_bytes :: "byte list \<Rightarrow> string" where
  "str_of_bytes bs = map (\<lambda>b. char_of (unat b)) bs"

definition bytes_of_str :: "string \<Rightarrow> byte list" where
  "bytes_of_str s = map (\<lambda>c. of_nat (of_char c)) s"

definition di_name_str :: "disk_inode \<Rightarrow> vfs_error + string" where
  "di_name_str e =
     (let text = take (di_name_len e) (di_name e)
      in case from_utf8 text of None \<Rightarrow> Inl CorruptFilesystem | Some _ \<Rightarrow> Inr (str_of_bytes text))"

section \<open>The disk format\<close>

definition sectors_for_len :: "nat \<Rightarrow> nat" where
  "sectors_for_len len = (if len = 0 then 0 else u64_add len (SECTOR_SIZE - 1) div SECTOR_SIZE)"

definition inode_index :: "inode \<Rightarrow> vfs_error + nat" where
  "inode_index inode =
     (if inode = 0 then Inl NotFound
      else if INODE_COUNT \<le> inode - 1 then Inl NotFound else Inr (inode - 1))"

definition validate_disk_name :: "string \<Rightarrow> vfs_error + unit" where
  "validate_disk_name name =
     (if name = [] \<or> name = ''.'' \<or> name = ''..'' \<or> CHR ''/'' \<in> set name \<or> NUL \<in> set name
      then Inl InvalidName
      else if MAX_DISK_NAME < length name then Inl NameTooLong
      else Inr ())"

definition put_field :: "byte list \<Rightarrow> nat \<Rightarrow> byte list \<Rightarrow> byte list" where
  "put_field raw off bs = take off raw @ bs @ drop (off + length bs) raw"

definition gfs_write_u32 :: "byte list \<Rightarrow> nat \<Rightarrow> nat \<Rightarrow> byte list" where
  "gfs_write_u32 buffer off value = put_field buffer off (le_bytes 4 value)"

definition gfs_write_u64 :: "byte list \<Rightarrow> nat \<Rightarrow> nat \<Rightarrow> byte list" where
  "gfs_write_u64 buffer off value = put_field buffer off (le_bytes 8 value)"

definition gfs_read_u32 :: "byte list \<Rightarrow> nat \<Rightarrow> nat" where
  "gfs_read_u32 buffer off = field buffer off 4"

definition gfs_read_u64 :: "byte list \<Rightarrow> nat \<Rightarrow> nat" where
  "gfs_read_u64 buffer off = field buffer off 8"

definition decode_inode :: "byte list \<Rightarrow> vfs_error + disk_inode" where
  "decode_inode raw =
     (let entry = \<lparr>di_kind = unat (raw ! 0), di_name_len = unat (raw ! 2), di_parent = gfs_read_u64 raw 4,
                   di_len = gfs_read_u64 raw 12, di_start_sector = gfs_read_u64 raw 20,
                   di_sector_count = gfs_read_u32 raw 28, di_name = take 64 (drop 32 raw)\<rparr>
      in if MAX_DISK_NAME < di_name_len entry \<or> 2 < di_kind entry then Inl CorruptFilesystem
         else Inr entry)"

definition encode_inode :: "byte list \<Rightarrow> disk_inode \<Rightarrow> byte list" where
  "encode_inode raw entry =
     (let raw = replicate (length raw) 0;
          raw = raw[0 := of_nat (di_kind entry)];
          raw = raw[2 := of_nat (di_name_len entry)];
          raw = gfs_write_u64 raw 4 (di_parent entry);
          raw = gfs_write_u64 raw 12 (di_len entry);
          raw = gfs_write_u64 raw 20 (di_start_sector entry);
          raw = gfs_write_u32 raw 28 (di_sector_count entry)
      in put_field raw 32 (di_name entry))"

fun map_block :: "block_error \<Rightarrow> vfs_error" where
  "map_block OutOfRange = CorruptFilesystem"
| "map_block ReadOnly = Io"
| "map_block BlockIo = Io"

section \<open>Operations\<close>

definition gfs_read_sector :: "'d block_ops \<Rightarrow> nat \<Rightarrow> 'd \<Rightarrow> vfs_error + sector" where
  "gfs_read_sector bd n d = map_err map_block (bd_read_sector bd d n)"

definition gfs_write_sector :: "'d block_ops \<Rightarrow> nat \<Rightarrow> sector \<Rightarrow> 'd \<Rightarrow> 'd \<times> (vfs_error + unit)" where
  "gfs_write_sector bd n b d = (case bd_write_sector bd n b d of (d', r) \<Rightarrow> (d', map_err map_block r))"

definition inode_sector :: "nat \<Rightarrow> nat" where
  "inode_sector index = INODE_TABLE_START + index div INODES_PER_SECTOR"

definition inode_offset :: "nat \<Rightarrow> nat" where
  "inode_offset index = (index mod INODES_PER_SECTOR) * INODE_SIZE"

definition read_inode :: "'d block_ops \<Rightarrow> inode \<Rightarrow> 'd \<Rightarrow> vfs_error + disk_inode" where
  "read_inode bd inode d =
     rbind (inode_index inode) (\<lambda>index.
     rbind (gfs_read_sector bd (inode_sector index) d) (\<lambda>raw.
     decode_inode (take INODE_SIZE (drop (inode_offset index) raw))))"

definition write_inode :: "'d block_ops \<Rightarrow> inode \<Rightarrow> disk_inode \<Rightarrow> 'd \<Rightarrow> 'd \<times> (vfs_error + unit)" where
  "write_inode bd inode value =
     sbind (sget (\<lambda>_. inode_index inode)) (\<lambda>index.
     sbind (sget (gfs_read_sector bd (inode_sector index))) (\<lambda>raw.
     gfs_write_sector bd (inode_sector index)
       (put_field raw (inode_offset index)
          (encode_inode (take INODE_SIZE (drop (inode_offset index) raw)) value))))"

fun format_loop :: "'d block_ops \<Rightarrow> nat list \<Rightarrow> 'd \<Rightarrow> 'd \<times> (vfs_error + unit)" where
  "format_loop bd [] = sret ()"
| "format_loop bd (n # ns) =
     sbind (gfs_write_sector bd n (replicate SECTOR_SIZE 0)) (\<lambda>_. format_loop bd ns)"

definition gfs_superblock :: "nat \<Rightarrow> sector" where
  "gfs_superblock sectors =
     (let s = put_field (replicate SECTOR_SIZE 0) 0 MAGIC;
          s = gfs_write_u32 s 8 VERSION;
          s = gfs_write_u32 s 12 INODE_COUNT;
          s = gfs_write_u64 s 16 DATA_START
      in gfs_write_u64 s 24 sectors)"

definition gfs_format :: "'d block_ops \<Rightarrow> 'd \<Rightarrow> 'd \<times> (vfs_error + unit)" where
  "gfs_format bd =
     sbind (format_loop bd [0..<DATA_START]) (\<lambda>_.
     sbind (sget (\<lambda>d. Inr (bd_sector_count bd d))) (\<lambda>sectors.
     sbind (gfs_write_sector bd 0 (gfs_superblock sectors)) (\<lambda>_.
     write_inode bd 1 di_root)))"

definition gfs_mount :: "'d block_ops \<Rightarrow> bool \<Rightarrow> 'd \<Rightarrow> 'd \<times> (vfs_error + bool)" where
  "gfs_mount bd format_if_missing d =
     (if bd_sector_count bd d \<le> DATA_START + 1 then (d, Inl NoSpace)
      else sbind (sget (gfs_read_sector bd 0)) (\<lambda>superblock.
        if take 8 superblock = MAGIC then
          (if gfs_read_u32 superblock 8 \<noteq> VERSION \<or> gfs_read_u32 superblock 12 \<noteq> INODE_COUNT \<or>
              gfs_read_u64 superblock 16 \<noteq> DATA_START \<or> gfs_read_u64 superblock 24 \<noteq> bd_sector_count bd d
           then sfail CorruptFilesystem
           else sbind (sget (read_inode bd 1)) (\<lambda>root.
             if di_kind root \<noteq> 2 then sfail CorruptFilesystem else sret False))
        else if \<not> format_if_missing then sfail CorruptFilesystem
        else sbind (gfs_format bd) (\<lambda>_. sret True)) d)"

abbreviation inode_range :: "inode list" where
  "inode_range \<equiv> [2..<INODE_COUNT + 1]"

fun find_child_loop :: "'d block_ops \<Rightarrow> inode \<Rightarrow> string \<Rightarrow> inode list \<Rightarrow> 'd \<Rightarrow> vfs_error + inode" where
  "find_child_loop bd parent name [] d = Inl NotFound"
| "find_child_loop bd parent name (i # is) d =
     rbind (read_inode bd i d) (\<lambda>entry.
     if di_kind entry \<noteq> 0 \<and> di_parent entry = parent then
       rbind (di_name_str entry) (\<lambda>n. if n = name then Inr i else find_child_loop bd parent name is d)
     else find_child_loop bd parent name is d)"

definition find_child :: "'d block_ops \<Rightarrow> inode \<Rightarrow> string \<Rightarrow> 'd \<Rightarrow> vfs_error + inode" where
  "find_child bd parent name = find_child_loop bd parent name inode_range"

fun allocate_inode_loop :: "'d block_ops \<Rightarrow> inode list \<Rightarrow> 'd \<Rightarrow> vfs_error + inode" where
  "allocate_inode_loop bd [] d = Inl NoSpace"
| "allocate_inode_loop bd (i # is) d =
     rbind (read_inode bd i d) (\<lambda>entry. if di_kind entry = 0 then Inr i else allocate_inode_loop bd is d)"

definition allocate_inode :: "'d block_ops \<Rightarrow> 'd \<Rightarrow> vfs_error + inode" where
  "allocate_inode bd = allocate_inode_loop bd inode_range"

definition new_entry :: "inode \<Rightarrow> string \<Rightarrow> nat \<Rightarrow> disk_inode" where
  "new_entry parent name k =
     di_empty\<lparr>di_kind := k, di_parent := parent, di_name_len := length name mod 256,
       di_name := put_field (di_name di_empty) 0 (bytes_of_str name)\<rparr>"

definition gfs_create :: "'d block_ops \<Rightarrow> nat \<Rightarrow> inode \<Rightarrow> string \<Rightarrow> 'd \<Rightarrow> 'd \<times> (vfs_error + inode)" where
  "gfs_create bd k parent name =
     sbind (sget (\<lambda>_. validate_disk_name name)) (\<lambda>_.
     sbind (sget (\<lambda>d. rbind (read_inode bd parent d) di_node_kind)) (\<lambda>pk.
     if pk \<noteq> Directory then sfail NotDirectory
     else sbind (sget (\<lambda>d. Inr (find_child bd parent name d))) (\<lambda>found.
       case found of
         Inr _ \<Rightarrow> sfail AlreadyExists
       | Inl _ \<Rightarrow>
           sbind (sget (allocate_inode bd)) (\<lambda>inode.
           sbind (write_inode bd inode (new_entry parent name k)) (\<lambda>_. sret inode)))))"

fun used_extents :: "'d block_ops \<Rightarrow> inode \<Rightarrow> inode list \<Rightarrow> 'd \<Rightarrow> vfs_error + (nat \<times> nat) list" where
  "used_extents bd exclude [] d = Inr []"
| "used_extents bd exclude (i # is) d =
     (if i = exclude then used_extents bd exclude is d
      else rbind (read_inode bd i d) (\<lambda>entry.
        rbind (used_extents bd exclude is d) (\<lambda>used.
        Inr (if di_kind entry = 1 \<and> di_sector_count entry \<noteq> 0
             then (di_start_sector entry, u64_add (di_start_sector entry) (di_sector_count entry)) # used
             else used))))"

fun extent_scan :: "nat \<Rightarrow> nat \<Rightarrow> nat \<Rightarrow> (nat \<times> nat) list \<Rightarrow> vfs_error + nat" where
  "extent_scan avail sectors candidate [] =
     (if u64_add candidate sectors \<le> avail then Inr candidate else Inl NoSpace)"
| "extent_scan avail sectors candidate ((s, e) # used) =
     (if u64_add candidate sectors \<le> s then Inr candidate
      else extent_scan avail sectors (max candidate e) used)"

definition find_extent :: "'d block_ops \<Rightarrow> nat \<Rightarrow> inode \<Rightarrow> 'd \<Rightarrow> vfs_error + nat" where
  "find_extent bd sectors exclude d =
     (if sectors = 0 then Inr 0
      else rbind (used_extents bd exclude inode_range d) (\<lambda>used.
        extent_scan (bd_sector_count bd d) sectors DATA_START (sort_key fst used)))"

fun zero_sectors :: "'d block_ops \<Rightarrow> nat \<Rightarrow> nat list \<Rightarrow> 'd \<Rightarrow> 'd \<times> (vfs_error + unit)" where
  "zero_sectors bd new_start [] = sret ()"
| "zero_sectors bd new_start (n # ns) =
     sbind (gfs_write_sector bd (u64_add new_start n) (replicate SECTOR_SIZE 0)) (\<lambda>_.
     zero_sectors bd new_start ns)"

fun copy_sectors :: "'d block_ops \<Rightarrow> nat \<Rightarrow> nat \<Rightarrow> nat list \<Rightarrow> 'd \<Rightarrow> 'd \<times> (vfs_error + unit)" where
  "copy_sectors bd old_start new_start [] = sret ()"
| "copy_sectors bd old_start new_start (n # ns) =
     sbind (sget (gfs_read_sector bd (u64_add old_start n))) (\<lambda>buffer.
     sbind (gfs_write_sector bd (u64_add new_start n) buffer) (\<lambda>_.
     copy_sectors bd old_start new_start ns))"

definition ensure_capacity ::
  "'d block_ops \<Rightarrow> inode \<Rightarrow> disk_inode \<Rightarrow> nat \<Rightarrow> 'd \<Rightarrow> 'd \<times> (vfs_error + disk_inode)" where
  "ensure_capacity bd inode entry needed =
     (if needed \<le> di_sector_count entry then sret entry
      else
        sbind (sget (find_extent bd needed inode)) (\<lambda>new_start.
        sbind (zero_sectors bd new_start [0..<needed]) (\<lambda>_.
        sbind (copy_sectors bd (di_start_sector entry) new_start [0..<di_sector_count entry]) (\<lambda>_.
        if needed < 2 ^ 32
        then sret (entry\<lparr>di_start_sector := new_start, di_sector_count := needed\<rparr>)
        else sfail NoSpace))))"

text \<open>
  The loops over the bytes of a file go from sector to sector. Each turn handles \<open>chunk\<close> bytes,
  at least one.
\<close>

definition chunk :: "nat \<Rightarrow> nat \<Rightarrow> nat" where
  "chunk position left = min (SECTOR_SIZE - position mod SECTOR_SIZE) left"

lemma chunk_pos: "0 < left \<Longrightarrow> 0 < chunk position left"
  by (simp add: chunk_def SECTOR_SIZE_def)

function zero_loop :: "'d block_ops \<Rightarrow> nat \<Rightarrow> nat \<Rightarrow> nat \<Rightarrow> 'd \<Rightarrow> 'd \<times> (vfs_error + unit)" where
  "zero_loop bd start position fin =
     (if fin \<le> position then sret ()
      else
        (let sector = u64_add start (position div SECTOR_SIZE);
             within = position mod SECTOR_SIZE;
             count = chunk position (fin - position)
         in sbind (sget (gfs_read_sector bd sector)) (\<lambda>buffer.
            sbind (gfs_write_sector bd sector (put_field buffer within (replicate count 0))) (\<lambda>_.
            zero_loop bd start (position + count) fin))))"
  by pat_completeness auto
termination
  by (relation "measure (\<lambda>(bd, start, position, fin). fin - position)")
    (auto simp: chunk_pos intro: diff_less_mono2 dest: chunk_pos [of _])

definition zero_range :: "'d block_ops \<Rightarrow> disk_inode \<Rightarrow> nat \<Rightarrow> nat \<Rightarrow> 'd \<Rightarrow> 'd \<times> (vfs_error + unit)" where
  "zero_range bd entry start fin =
     (if fin \<le> start then sret () else zero_loop bd (di_start_sector entry) start fin)"

definition gfs_metadata :: "'d block_ops \<Rightarrow> 'd \<Rightarrow> inode \<Rightarrow> vfs_error + metadata" where
  "gfs_metadata bd d inode =
     rbind (read_inode bd inode d) (\<lambda>entry.
     rbind (di_node_kind entry) (\<lambda>k.
     Inr \<lparr>md_inode = inode, md_kind = k, md_len = (if di_kind entry = 1 then di_len entry else 0)\<rparr>))"

definition gfs_lookup :: "'d block_ops \<Rightarrow> 'd \<Rightarrow> inode \<Rightarrow> string \<Rightarrow> vfs_error + inode" where
  "gfs_lookup bd d parent name = find_child bd parent name d"

fun gfs_entries :: "'d block_ops \<Rightarrow> inode \<Rightarrow> inode list \<Rightarrow> 'd \<Rightarrow> vfs_error + dir_entry list" where
  "gfs_entries bd parent [] d = Inr []"
| "gfs_entries bd parent (i # is) d =
     rbind (read_inode bd i d) (\<lambda>entry.
     if di_kind entry \<noteq> 0 \<and> di_parent entry = parent then
       rbind (di_name_str entry) (\<lambda>n.
       rbind (gfs_metadata bd d i) (\<lambda>m.
       rbind (gfs_entries bd parent is d) (\<lambda>rest.
       Inr (\<lparr>de_name = n, de_metadata = m\<rparr> # rest))))
     else gfs_entries bd parent is d)"

definition gfs_read_dir :: "'d block_ops \<Rightarrow> 'd \<Rightarrow> inode \<Rightarrow> vfs_error + dir_entry list" where
  "gfs_read_dir bd d inode =
     rbind (read_inode bd inode d) (\<lambda>entry.
     rbind (di_node_kind entry) (\<lambda>k.
     if k \<noteq> Directory then Inl NotDirectory
     else rbind (gfs_entries bd inode inode_range d) (\<lambda>entries. Inr (sort_key de_name entries))))"

function read_loop :: "'d block_ops \<Rightarrow> nat \<Rightarrow> nat \<Rightarrow> nat \<Rightarrow> 'd \<Rightarrow> vfs_error + byte list" where
  "read_loop bd start position left d =
     (if left = 0 then Inr []
      else
        (let within = position mod SECTOR_SIZE; count = chunk position left
         in rbind (gfs_read_sector bd (u64_add start (position div SECTOR_SIZE)) d) (\<lambda>sector.
            rbind (read_loop bd start (position + count) (left - count) d) (\<lambda>rest.
            Inr (take count (drop within sector) @ rest)))))"
  by pat_completeness auto
termination
  by (relation "measure (\<lambda>(bd, start, position, left, d). left)") (auto simp: chunk_pos)

definition gfs_read :: "'d block_ops \<Rightarrow> 'd \<Rightarrow> inode \<Rightarrow> nat \<Rightarrow> nat \<Rightarrow> vfs_error + byte list" where
  "gfs_read bd d inode offset len =
     rbind (read_inode bd inode d) (\<lambda>entry.
     rbind (di_node_kind entry) (\<lambda>k.
     if k = Directory then Inl IsDirectory
     else if di_len entry \<le> offset then Inr []
     else read_loop bd (di_start_sector entry) offset (min len (di_len entry - offset)) d))"

function write_loop :: "'d block_ops \<Rightarrow> nat \<Rightarrow> nat \<Rightarrow> byte list \<Rightarrow> 'd \<Rightarrow> 'd \<times> (vfs_error + unit)" where
  "write_loop bd start position data =
     (if data = [] then sret ()
      else
        (let sector = u64_add start (position div SECTOR_SIZE);
             within = position mod SECTOR_SIZE;
             count = chunk position (length data)
         in sbind (sget (gfs_read_sector bd sector)) (\<lambda>buffer.
            sbind (gfs_write_sector bd sector (put_field buffer within (take count data))) (\<lambda>_.
            write_loop bd start (position + count) (drop count data)))))"
  by pat_completeness auto
termination
  by (relation "measure (\<lambda>(bd, start, position, data). length data)") (auto simp: chunk_pos)

declare zero_loop.simps [simp del] read_loop.simps [simp del] write_loop.simps [simp del]

text \<open>\<open>read_inode(..)?\<close> and the test for a directory, at the start of \<open>write\<close> and \<open>truncate\<close>.\<close>

definition gfs_open_file :: "'d block_ops \<Rightarrow> inode \<Rightarrow> 'd \<Rightarrow> vfs_error + disk_inode" where
  "gfs_open_file bd inode d =
     rbind (read_inode bd inode d) (\<lambda>entry.
     rbind (di_node_kind entry) (\<lambda>k. if k = Directory then Inl IsDirectory else Inr entry))"

definition gfs_write :: "'d block_ops \<Rightarrow> 'd \<Rightarrow> inode \<Rightarrow> nat \<Rightarrow> byte list \<Rightarrow> 'd \<times> (vfs_error + nat)" where
  "gfs_write bd d inode offset data =
     sbind (sget (gfs_open_file bd inode)) (\<lambda>entry.
     sbind (sget (\<lambda>_. ok_or (usize_add offset (length data)) OffsetOverflow)) (\<lambda>end'.
     sbind (ensure_capacity bd inode entry (sectors_for_len end')) (\<lambda>entry.
     sbind (if di_len entry < offset then zero_range bd entry (di_len entry) offset else sret ()) (\<lambda>_.
     sbind (write_loop bd (di_start_sector entry) offset data) (\<lambda>_.
     sbind (write_inode bd inode (entry\<lparr>di_len := max (di_len entry) end'\<rparr>)) (\<lambda>_.
     sret (length data))))))) d"

definition gfs_truncate :: "'d block_ops \<Rightarrow> 'd \<Rightarrow> inode \<Rightarrow> nat \<Rightarrow> 'd \<times> (vfs_error + unit)" where
  "gfs_truncate bd d inode len =
     sbind (sget (gfs_open_file bd inode)) (\<lambda>entry.
     sbind (ensure_capacity bd inode entry (sectors_for_len len)) (\<lambda>entry.
     sbind (if di_len entry < len then zero_range bd entry (di_len entry) len else sret ()) (\<lambda>_.
     write_inode bd inode (entry\<lparr>di_len := len\<rparr>)))) d"

fun has_child_loop :: "'d block_ops \<Rightarrow> inode \<Rightarrow> inode list \<Rightarrow> 'd \<Rightarrow> vfs_error + bool" where
  "has_child_loop bd inode [] d = Inr False"
| "has_child_loop bd inode (i # is) d =
     rbind (read_inode bd i d) (\<lambda>candidate.
     if di_kind candidate \<noteq> 0 \<and> di_parent candidate = inode then Inr True
     else has_child_loop bd inode is d)"

definition gfs_remove :: "'d block_ops \<Rightarrow> 'd \<Rightarrow> inode \<Rightarrow> string \<Rightarrow> 'd \<times> (vfs_error + unit)" where
  "gfs_remove bd d parent name =
     sbind (sget (find_child bd parent name)) (\<lambda>inode.
     sbind (sget (read_inode bd inode)) (\<lambda>entry.
     sbind (sget (\<lambda>d. if di_kind entry = 2 then has_child_loop bd inode inode_range d else Inr False)) (\<lambda>full.
     if full then sfail DirectoryNotEmpty else write_inode bd inode di_empty))) d"

definition gfs_ops :: "'d block_ops \<Rightarrow> 'd fs_ops" where
  "gfs_ops bd =
     \<lparr>fs_name = \<lambda>_. ''genericfs'', fs_root_inode = \<lambda>_. 1, fs_metadata = gfs_metadata bd,
      fs_lookup = gfs_lookup bd, fs_read_dir = gfs_read_dir bd,
      fs_create_file = (\<lambda>d p n. gfs_create bd 1 p n d), fs_create_dir = (\<lambda>d p n. gfs_create bd 2 p n d),
      fs_read = gfs_read bd, fs_write = gfs_write bd, fs_truncate = gfs_truncate bd,
      fs_remove = gfs_remove bd\<rparr>"

end
