(* ===== verification/Generic_Fs_Table.thy ===== *)
theory Generic_Fs_Table
  imports Generic_Fs
begin

text \<open>
  The inode table of \<open>GenericFs\<close>: the disk format of an inode decodes to what was encoded, and
  on a working device the table behaves as an array of 64 inodes.
\<close>

section \<open>Fields\<close>

lemma length_put_field [simp]: "off + length bs \<le> length raw \<Longrightarrow> length (put_field raw off bs) = length raw"
  by (simp add: put_field_def)

lemma nth_put_field:
  "off + length bs \<le> length raw \<Longrightarrow>
     put_field raw off bs ! i = (if off \<le> i \<and> i < off + length bs then bs ! (i - off) else raw ! i)"
  by (auto simp: put_field_def nth_append)

lemma take_drop_put_same:
  "\<lbrakk>off + length bs \<le> length raw; n = length bs\<rbrakk> \<Longrightarrow> take n (drop off (put_field raw off bs)) = bs"
  by (simp add: put_field_def)

lemma take_drop_put_other:
  assumes "off + length bs \<le> length raw" and "a + n \<le> length raw" and "a + n \<le> off \<or> off + length bs \<le> a"
  shows "take n (drop a (put_field raw off bs)) = take n (drop a raw)"
  using assms by (intro nth_equalityI) (auto simp: nth_put_field)

lemma take_put_field:
  "\<lbrakk>off + length bs \<le> length raw; n \<le> off\<rbrakk> \<Longrightarrow> take n (put_field raw off bs) = take n raw"
  "\<lbrakk>length bs \<le> length raw; n = length bs\<rbrakk> \<Longrightarrow> take n (put_field raw 0 bs) = bs"
  by (simp_all add: put_field_def)

lemmas put_field_simps = take_put_field take_drop_put_same take_drop_put_other nth_put_field

section \<open>The format of an inode\<close>

text \<open>The values an inode on the disk can have.\<close>

definition disk_inode_ok :: "disk_inode \<Rightarrow> bool" where
  "disk_inode_ok e \<longleftrightarrow>
     di_kind e \<le> 2 \<and> di_name_len e \<le> MAX_DISK_NAME \<and> di_parent e < 2 ^ 64 \<and> di_len e < 2 ^ 64 \<and>
     di_start_sector e < 2 ^ 64 \<and> di_sector_count e < 2 ^ 32 \<and> length (di_name e) = 64"

lemma length_encode_inode [simp]:
  "\<lbrakk>length raw = INODE_SIZE; length (di_name e) = 64\<rbrakk> \<Longrightarrow> length (encode_inode raw e) = INODE_SIZE"
  by (simp add: encode_inode_def Let_def gfs_write_u32_def gfs_write_u64_def INODE_SIZE_def)

lemma le_nat_fits: "n < 256 ^ k \<Longrightarrow> le_nat (le_bytes k n) = n"
  by (simp add: le_nat_le_bytes)

lemma encode_fields:
  assumes raw: "length raw = INODE_SIZE" and ok: "disk_inode_ok e"
  shows "encode_inode raw e ! 0 = of_nat (di_kind e)" and "encode_inode raw e ! 2 = of_nat (di_name_len e)"
    and "take 8 (drop 4 (encode_inode raw e)) = le_bytes 8 (di_parent e)"
    and "take 8 (drop 12 (encode_inode raw e)) = le_bytes 8 (di_len e)"
    and "take 8 (drop 20 (encode_inode raw e)) = le_bytes 8 (di_start_sector e)"
    and "take 4 (drop 28 (encode_inode raw e)) = le_bytes 4 (di_sector_count e)"
    and "take 64 (drop 32 (encode_inode raw e)) = di_name e"
  using raw ok
  by (simp_all add: encode_inode_def Let_def gfs_write_u32_def gfs_write_u64_def INODE_SIZE_def
      disk_inode_ok_def put_field_simps)

lemma decode_encode:
  assumes raw: "length raw = INODE_SIZE" and ok: "disk_inode_ok e"
  shows "decode_inode (encode_inode raw e) = Inr e"
  using ok unfolding decode_inode_def Let_def gfs_read_u32_def gfs_read_u64_def field_def
    encode_fields [OF raw ok] disk_inode_ok_def MAX_DISK_NAME_def
  by (simp add: le_nat_fits unat_of_nat)

lemma decode_ok:
  assumes "decode_inode raw = Inr e" and "length raw = INODE_SIZE"
  shows "disk_inode_ok e"
proof -
  have f: "field raw off 8 < 2 ^ 64" "field raw off 4 < 2 ^ 32" for off
    using field_bound [of raw off 8] field_bound [of raw off 4] by simp_all
  show ?thesis
    using assms f unfolding decode_inode_def disk_inode_ok_def gfs_read_u32_def gfs_read_u64_def Let_def
    by (auto simp: INODE_SIZE_def split: if_splits)
qed

lemma di_ok_consts [simp]: "disk_inode_ok di_empty" "disk_inode_ok di_root"
  by (simp_all add: disk_inode_ok_def di_empty_def di_root_def)

section \<open>The table\<close>

definition valid_inode :: "inode \<Rightarrow> bool" where
  "valid_inode i \<longleftrightarrow> 1 \<le> i \<and> i \<le> INODE_COUNT"

lemma inode_index_valid: "inode_index i = (if valid_inode i then Inr (i - 1) else Inl NotFound)"
  by (auto simp: inode_index_def valid_inode_def INODE_COUNT_def)

lemma inode_sector_bounds:
  "valid_inode i \<Longrightarrow> 1 \<le> inode_sector (i - 1) \<and> inode_sector (i - 1) < DATA_START"
proof -
  assume "valid_inode i"
  then have "i - 1 < 16 * 4" unfolding valid_inode_def INODE_COUNT_def by linarith
  from less_mult_imp_div_less [OF this] show ?thesis by (simp add: inode_sector_def gfs_consts)
qed

lemma inode_offset_fits: "inode_offset k + INODE_SIZE \<le> SECTOR_SIZE"
proof -
  have "k mod 4 \<le> 3" using mod_less_divisor [of 4 k] by linarith
  then show ?thesis by (simp add: inode_offset_def gfs_consts)
qed

lemma inode_slots_disjoint:
  assumes "inode_sector a = inode_sector b" and "a \<noteq> b"
  shows "inode_offset a + INODE_SIZE \<le> inode_offset b \<or> inode_offset b + INODE_SIZE \<le> inode_offset a"
proof -
  have "a div 4 = b div 4" using assms(1) by (simp add: inode_sector_def gfs_consts)
  then have "a mod 4 \<noteq> b mod 4" using assms(2) by (metis div_mult_mod_eq)
  then show ?thesis by (simp add: inode_offset_def gfs_consts) linarith
qed

context block_device
begin

definition inode_raw :: "'d \<Rightarrow> inode \<Rightarrow> byte list" where
  "inode_raw d i = take INODE_SIZE (drop (inode_offset (i - 1)) (sector_of d (inode_sector (i - 1))))"

lemma gfs_read_in:
  "\<lbrakk>dev_ok d; n < bd_sector_count bd d\<rbrakk> \<Longrightarrow> gfs_read_sector bd n d = Inr (sector_of d n)"
  by (simp add: gfs_read_sector_def read_in)

lemma gfs_write_in:
  assumes "dev_ok d" and "n < bd_sector_count bd d" and "length b = SECTOR_SIZE"
  obtains d' where "gfs_write_sector bd n b d = (d', Inr ())" and "dev_ok d'"
    and "bd_sector_count bd d' = bd_sector_count bd d" and "sector_of d' = (sector_of d)(n := b)"
proof -
  obtain d' where "bd_write_sector bd n b d = (d', Inr ())" "dev_ok d'"
    "bd_sector_count bd d' = bd_sector_count bd d" "sector_of d' = (sector_of d)(n := b)"
    using write_step [OF assms] .
  with that show ?thesis by (simp add: gfs_write_sector_def)
qed

lemma length_inode_raw:
  assumes "dev_ok d" and "DATA_START \<le> bd_sector_count bd d" and "valid_inode i"
  shows "length (inode_raw d i) = INODE_SIZE"
proof -
  have "length (sector_of d (inode_sector (i - 1))) = SECTOR_SIZE"
    using inode_sector_bounds [OF assms(3)] assms(2) by (intro sector_length assms(1)) linarith
  then show ?thesis using inode_offset_fits [of "i - 1"] by (simp add: inode_raw_def)
qed

lemma read_inode_raw:
  assumes "dev_ok d" and "DATA_START \<le> bd_sector_count bd d"
  shows "read_inode bd i d = (if valid_inode i then decode_inode (inode_raw d i) else Inl NotFound)"
  using gfs_read_in [OF assms(1), of "inode_sector (i - 1)"] inode_sector_bounds [of i] assms(2)
  by (auto simp: read_inode_def inode_index_valid inode_raw_def)

text \<open>Writing an inode replaces it and leaves every other inode and every other sector alone.\<close>

lemma write_inode_step:
  assumes ok: "dev_ok d" "DATA_START \<le> bd_sector_count bd d" and i: "valid_inode i" and e: "disk_inode_ok e"
  obtains d' where "write_inode bd i e d = (d', Inr ())" and "dev_ok d'"
    and "bd_sector_count bd d' = bd_sector_count bd d"
    and "\<And>n. n \<noteq> inode_sector (i - 1) \<Longrightarrow> sector_of d' n = sector_of d n"
    and "\<And>j. read_inode bd j d' = (if j = i then Inr e else read_inode bd j d)"
proof -
  let ?n = "inode_sector (i - 1)" and ?o = "inode_offset (i - 1)"
  let ?raw = "sector_of d ?n"
  define new where "new = encode_inode (inode_raw d i) e"
  have n: "?n < bd_sector_count bd d" using inode_sector_bounds [OF i] ok(2) by linarith
  have raw: "length ?raw = SECTOR_SIZE" by (rule sector_length [OF ok(1) n])
  have new: "length new = INODE_SIZE"
    using e length_inode_raw [OF ok i] by (simp add: new_def disk_inode_ok_def)
  have fits: "?o + length new \<le> length ?raw" using inode_offset_fits [of "i - 1"] raw new by simp
  obtain d' where d': "gfs_write_sector bd ?n (put_field ?raw ?o new) d = (d', Inr ())" "dev_ok d'"
    "bd_sector_count bd d' = bd_sector_count bd d" "sector_of d' = (sector_of d)(?n := put_field ?raw ?o new)"
    using gfs_write_in [OF ok(1) n, of "put_field ?raw ?o new"] raw fits by auto
  have w: "write_inode bd i e d = (d', Inr ())"
    using i d'(1) gfs_read_in [OF ok(1) n]
    by (simp add: write_inode_def inode_index_valid new_def inode_raw_def)
  have same: "inode_raw d' j = inode_raw d j" if "j \<noteq> i" "valid_inode j" for j
  proof (cases "inode_sector (j - 1) = ?n")
    case True
    have "j - 1 \<noteq> i - 1" using that i by (auto simp: valid_inode_def)
    from inode_slots_disjoint [OF True this] show ?thesis
      using take_drop_put_other [OF fits, of "inode_offset (j - 1)" INODE_SIZE] inode_offset_fits [of "j - 1"] True raw
      by (simp add: inode_raw_def d'(4) new disj_commute)
  qed (simp add: inode_raw_def d'(4))
  have "inode_raw d' i = new"
    using fits new by (simp add: inode_raw_def d'(4) take_drop_put_same)
  then have "read_inode bd j d' = (if j = i then Inr e else read_inode bd j d)" for j
    using same [of j] i decode_encode [OF length_inode_raw [OF ok i] e]
    by (simp add: read_inode_raw ok d'(2,3) new_def)
  with that w d' show ?thesis by simp
qed

lemma read_inode_ok:
  assumes "dev_ok d" and "DATA_START \<le> bd_sector_count bd d" and "read_inode bd i d = Inr e"
  shows "disk_inode_ok e" and "valid_inode i"
  using assms decode_ok [of "inode_raw d i" e] length_inode_raw [OF assms(1,2)]
  by (auto simp: read_inode_raw split: if_splits)

end

end
