(* ===== verification/Fs_Contract.thy ===== *)
theory Fs_Contract
  imports Vfs_Layer
begin

text \<open>
  What the pathname layer relies on in a filesystem that stores what it is given: the
  contract of the trait \<open>FileSystem\<close>. A state is observed through the kind, the children and
  the contents of its inodes. The lemmas about \<open>Vfs\<close> are proved once from the contract.
\<close>

text \<open>Writing into a file: a gap before the offset reads as zeros.\<close>

definition overwrite :: "byte list \<Rightarrow> nat \<Rightarrow> byte list \<Rightarrow> byte list" where
  "overwrite old off new =
     take off (old @ replicate (off - length old) 0) @ new @ drop (off + length new) old"

definition resize :: "byte list \<Rightarrow> nat \<Rightarrow> byte list" where
  "resize old len = take len (old @ replicate (len - length old) 0)"

lemma length_splice: "length (overwrite old off new) = max (length old) (off + length new)"
  by (simp add: overwrite_def)

lemma nth_splice:
  assumes "p < length (overwrite old off new)"
  shows "overwrite old off new ! p =
    (if off \<le> p \<and> p < off + length new then new ! (p - off)
     else if p < length old then old ! p else 0)"
proof (cases "p < off + length new")
  case False
  then have "off + length new + (p - (off + length new)) = p" by simp
  then show ?thesis using False assms by (auto simp: overwrite_def nth_append)
next
  case True
  have "min (length old) off + (off - length old) = off" by simp
  then show ?thesis using True by (auto simp: overwrite_def nth_append)
qed

lemma take_splice: "take (length new) (drop off (overwrite old off new)) = new"
  by (simp add: overwrite_def)

text \<open>The place a path leads to: the mount and the inode.\<close>

definition locate :: "'s fs_ops \<Rightarrow> 's vfs \<Rightarrow> string \<Rightarrow> vfs_error + nat \<times> inode" where
  "locate ops v path =
     rbind (normalize_path ''/'' path) (\<lambda>path.
     let (index, relative) = route v path
     in rbind (resolve_inode ops (mount_fs (v ! index)) relative) (\<lambda>i. Inr (index, i)))"

lemma vfs_metadata_locate:
  "vfs_metadata ops v path = rbind (locate ops v path) (\<lambda>(k, i). fs_metadata ops (mount_fs (v ! k)) i)"
  by (auto simp: vfs_metadata_def locate_def rbind_def Let_def split: sum.splits prod.splits)

lemma vfs_read_locate:
  "vfs_read ops v path off len =
     rbind (locate ops v path) (\<lambda>(k, i). fs_read ops (mount_fs (v ! k)) i off len)"
  by (auto simp: vfs_read_def locate_def rbind_def Let_def split: sum.splits prod.splits)

lemma on_inode_locate:
  "on_inode ops v path f =
     (case locate ops v path of
        Inl e \<Rightarrow> (v, Inl e)
      | Inr (k, i) \<Rightarrow> (case f (mount_fs (v ! k)) i of (s', r) \<Rightarrow> (put_fs v k s', r)))"
  by (auto simp: on_inode_def locate_def rbind_def Let_def split: sum.splits prod.splits)

text \<open>A path that is accepted is the route to one mount and the names to follow there.\<close>

definition leads_to :: "'s vfs \<Rightarrow> string \<Rightarrow> nat \<Rightarrow> string list \<Rightarrow> bool" where
  "leads_to v path k ds \<longleftrightarrow>
     (\<exists>p. normalize_path ''/'' path = Inr p \<and> route v p = (k, path_string ds)) \<and> names_ok ds \<and>
     k < length v"

lemma leads_to_put [simp]: "leads_to (put_fs v l s) path k ds \<longleftrightarrow> leads_to v path k ds"
  by (simp add: leads_to_def)

lemma leads_to_locate:
  "leads_to v path k ds \<Longrightarrow> locate ops v path =
     rbind (walk ops (mount_fs (v ! k)) (fs_root_inode ops (mount_fs (v ! k))) ds) (\<lambda>i. Inr (k, i))"
  by (auto simp: leads_to_def locate_def resolve_path_string)

lemma leads_to_ex:
  assumes "mounts_ok v" and p: "normalize_path ''/'' path = Inr p"
  obtains k ds where "leads_to v path k ds" and "route v p = (k, path_string ds)"
proof -
  obtain cs where cs: "names_ok cs" "p = path_string cs" using normalize_path_string [OF p] .
  obtain k and ms :: "string list"
    where k: "k < length v" and r: "route v p = (k, path_string (drop (length ms) cs))"
    unfolding cs(2) by (rule route_spec [OF assms(1) cs(1)])
  have "names_ok (drop (length ms) cs)" using cs(1) by (auto dest: in_set_dropD)
  then have "leads_to v path k (drop (length ms) cs)" using k r p by (simp add: leads_to_def)
  from that [OF this r] show ?thesis .
qed

lemma located_leads_to:
  assumes "mounts_ok v" and "locate ops v path = Inr (k, i)"
  obtains ds where "leads_to v path k ds"
proof -
  obtain p where p: "normalize_path ''/'' path = Inr p"
    using assms(2) unfolding locate_def rbind_eq_Inr by blast
  obtain l ds where l: "leads_to v path l ds" using leads_to_ex [OF assms(1) p] .
  have "l = k" using assms(2) unfolding leads_to_locate [OF l] by (auto simp: rbind_eq_Inr)
  with l that show ?thesis by simp
qed

lemma on_parent_cases:
  assumes v: "mounts_ok v" and r: "on_parent ops v path f after = (v', Inr y)"
  obtains k es n parent s' x where "leads_to v path k (es @ [n])"
    and "walk ops (mount_fs (v ! k)) (fs_root_inode ops (mount_fs (v ! k))) es = Inr parent"
    and "f (mount_fs (v ! k)) parent n = (s', Inr x)" and "v' = put_fs v k s'" and "after s' x = Inr y"
proof -
  obtain p where p: "normalize_path ''/'' path = Inr p"
    using r by (auto simp: on_parent_def split: sum.splits)
  obtain k ds where k: "leads_to v path k ds" "route v p = (k, path_string ds)"
    using leads_to_ex [OF v p] .
  let ?s = "mount_fs (v ! k)"
  obtain parent n s' x where res: "resolve_parent ops ?s (path_string ds) = Inr (parent, n)"
    and f: "f ?s parent n = (s', Inr x)" "v' = put_fs v k s'" "after s' x = Inr y"
    using r by (auto simp: on_parent_def p k(2) Let_def split: sum.splits prod.splits)
  obtain es e where ds: "ds = es @ [e]"
    using res by (cases ds rule: rev_cases) (auto simp: resolve_parent_def)
  have "names_ok es" "name_ok e" using k(1) by (auto simp: leads_to_def ds)
  then have "walk ops ?s (fs_root_inode ops ?s) es = Inr parent \<and> e = n"
    using res unfolding ds by (auto simp: resolve_parent_path_string rbind_eq_Inr split: if_splits)
  with that k(1) f show ?thesis unfolding ds by blast
qed

text \<open>Following names in a tree; an added or removed leaf changes the way to no other node.\<close>

fun descend :: "(inode \<Rightarrow> string \<Rightarrow> inode option) \<Rightarrow> inode \<Rightarrow> string list \<Rightarrow> inode option" where
  "descend t i [] = Some i"
| "descend t i (c # cs) = (case t i c of None \<Rightarrow> None | Some j \<Rightarrow> descend t j cs)"

lemma descend_append:
  "descend t i (cs @ ds) = (case descend t i cs of None \<Rightarrow> None | Some j \<Rightarrow> descend t j ds)"
  by (induction cs arbitrary: i) (auto split: option.splits)

lemma descend_leaf:
  assumes "t p n = None" and "\<And>m. (t(p := (t p)(n \<mapsto> j))) j m = None" and "i \<noteq> j"
  shows "descend (t(p := (t p)(n \<mapsto> j))) r ds = Some i \<longleftrightarrow> descend t r ds = Some i"
proof (induction ds arbitrary: r)
  case (Cons c ds)
  show ?case
  proof (cases "r = p \<and> c = n")
    case True
    then show ?thesis using assms by (cases ds) (simp_all del: fun_upd_apply add: fun_upd_same)
  next
    case False
    then have "(t(p := (t p)(n \<mapsto> j))) r c = t r c" by auto
    then show ?thesis using Cons by (simp del: fun_upd_apply split: option.split)
  qed
qed simp

section \<open>The contract\<close>

locale file_system =
  fixes ops :: "'s fs_ops"
    and inv :: "'s \<Rightarrow> bool"
    and kind :: "'s \<Rightarrow> inode \<Rightarrow> node_kind option"
    and child :: "'s \<Rightarrow> inode \<Rightarrow> string \<Rightarrow> inode option"
    and content :: "'s \<Rightarrow> inode \<Rightarrow> byte list"
  assumes root_dir: "inv s \<Longrightarrow> kind s (fs_root_inode ops s) = Some Directory"
    and child_kind: "\<lbrakk>inv s; child s i n = Some j\<rbrakk> \<Longrightarrow> kind s i = Some Directory \<and> kind s j \<noteq> None"
    and lookup_dir: "\<lbrakk>inv s; kind s i = Some Directory; name_ok n\<rbrakk> \<Longrightarrow>
      fs_lookup ops s i n = (case child s i n of None \<Rightarrow> Inl NotFound | Some j \<Rightarrow> Inr j)"
    and lookup_ok: "\<lbrakk>inv s; fs_lookup ops s i n = Inr j\<rbrakk> \<Longrightarrow> name_ok n \<and> child s i n = Some j"
    and metadata: "\<lbrakk>inv s; kind s i = Some k\<rbrakk> \<Longrightarrow> fs_metadata ops s i =
      Inr \<lparr>md_inode = i, md_kind = k, md_len = (if k = File then length (content s i) else 0)\<rparr>"
    and read_file: "\<lbrakk>inv s; kind s i = Some File\<rbrakk> \<Longrightarrow>
      fs_read ops s i off len = Inr (take len (drop off (content s i)))"
    and write_ok: "\<lbrakk>inv s; fs_write ops s i off data = (s', Inr count)\<rbrakk> \<Longrightarrow>
      inv s' \<and> count = length data \<and> kind s i = Some File \<and> kind s' = kind s \<and> child s' = child s \<and>
      fs_root_inode ops s' = fs_root_inode ops s \<and>
      content s' = (content s)(i := overwrite (content s i) off data)"
    and truncate_ok: "\<lbrakk>inv s; fs_truncate ops s i len = (s', Inr ())\<rbrakk> \<Longrightarrow>
      inv s' \<and> kind s i = Some File \<and> kind s' = kind s \<and> child s' = child s \<and>
      fs_root_inode ops s' = fs_root_inode ops s \<and>
      content s' = (content s)(i := resize (content s i) len)"
    and create_ok: "\<lbrakk>inv s; (k = File \<and> fs_create_file ops s p n = (s', Inr j)) \<or>
        (k = Directory \<and> fs_create_dir ops s p n = (s', Inr j))\<rbrakk> \<Longrightarrow>
      inv s' \<and> name_ok n \<and> kind s p = Some Directory \<and> child s p n = None \<and> kind s j = None \<and>
      kind s' = (kind s)(j \<mapsto> k) \<and> child s' = (child s)(p := (child s p)(n \<mapsto> j)) \<and>
      fs_root_inode ops s' = fs_root_inode ops s \<and> content s' = (content s)(j := [])"
    and remove_ok: "\<lbrakk>inv s; fs_remove ops s p n = (s', Inr ())\<rbrakk> \<Longrightarrow>
      \<exists>j. inv s' \<and> name_ok n \<and> child s p n = Some j \<and> (\<forall>m. child s j m = None) \<and>
        kind s' = (kind s)(j := None) \<and> child s' = (child s)(p := (child s p)(n := None)) \<and>
        fs_root_inode ops s' = fs_root_inode ops s \<and> content s' = (content s)(j := [])"
    and failed: "\<lbrakk>inv s; fs_write ops s i off data = (s', Inl e) \<or> fs_truncate ops s i len = (s', Inl e) \<or>
        fs_create_file ops s i n = (s', Inl e) \<or> fs_create_dir ops s i n = (s', Inl e) \<or>
        fs_remove ops s i n = (s', Inl e)\<rbrakk> \<Longrightarrow> s' = s"
begin

lemma walk_descend:
  assumes "inv s" and "names_ok cs"
  shows "walk ops s i cs = Inr j \<longleftrightarrow> descend (child s) i cs = Some j"
  using assms(2)
proof (induction cs arbitrary: i)
  case (Cons c cs)
  have "fs_lookup ops s i c = Inr k \<longleftrightarrow> child s i c = Some k" for k
    using lookup_ok [OF assms(1)] lookup_dir [OF assms(1)] child_kind [OF assms(1)] Cons.prems
    by (metis list.set_intros(1) option.simps(5))
  then show ?case using Cons by (auto simp: rbind_eq_Inr split: option.split)
qed auto

lemma walk_missing:
  assumes "inv s" and "names_ok cs" and "name_ok n"
    and "descend (child s) i cs = Some j" and "kind s j = Some Directory" and "child s j n = None"
  shows "walk ops s i (cs @ [n]) = Inl NotFound"
  using assms(2,4)
proof (induction cs arbitrary: i)
  case Nil
  then show ?case using lookup_dir [OF assms(1,5,3)] assms(6) by (simp add: rbind_def)
next
  case (Cons c cs)
  then obtain k where k: "child s i c = Some k" "descend (child s) k cs = Some j"
    by (auto split: option.splits)
  then have "fs_lookup ops s i c = Inr k"
    using child_kind [OF assms(1)] lookup_dir [OF assms(1)] Cons.prems by (metis list.set_intros(1) option.simps(5))
  then show ?case using Cons k by simp
qed

lemma descend_kind:
  assumes "inv s" and "descend (child s) i cs = Some j" and "kind s i \<noteq> None"
  shows "kind s j \<noteq> None"
  using assms(2,3)
proof (induction cs arbitrary: i)
  case (Cons c cs)
  then obtain k where "child s i c = Some k" "descend (child s) k cs = Some j" by (auto split: option.splits)
  then show ?case using Cons.IH child_kind [OF assms(1)] by blast
qed auto

lemma located_kind:
  assumes "mounts_ok v" and "locate ops v path = Inr (k, i)" and "inv (mount_fs (v ! k))"
  shows "kind (mount_fs (v ! k)) i \<noteq> None"
proof -
  obtain ds where ds: "leads_to v path k ds" using located_leads_to [OF assms(1,2)] .
  then have "walk ops (mount_fs (v ! k)) (fs_root_inode ops (mount_fs (v ! k))) ds = Inr i" "names_ok ds"
    using assms(2) leads_to_locate [OF ds, of ops] by (auto simp: rbind_eq_Inr leads_to_def)
  then show ?thesis
    using walk_descend [OF assms(3)] descend_kind [OF assms(3)] root_dir [OF assms(3)] by auto
qed

text \<open>Replacing a filesystem by one with the same ways to a node.\<close>

lemma locate_put:
  assumes v: "mounts_ok v" and k: "k < length v" and s: "inv (mount_fs (v ! k))" "inv s'"
    and root: "fs_root_inode ops s' = fs_root_inode ops (mount_fs (v ! k))"
    and D: "\<And>ds. k' = k \<Longrightarrow>
      descend (child s') (fs_root_inode ops s') ds = Some i \<longleftrightarrow>
      descend (child (mount_fs (v ! k))) (fs_root_inode ops s') ds = Some i"
  shows "locate ops (put_fs v k s') path = Inr (k', i) \<longleftrightarrow> locate ops v path = Inr (k', i)"
proof (cases "normalize_path ''/'' path")
  case (Inl e)
  then show ?thesis by (simp add: locate_def)
next
  case (Inr p)
  obtain l ds where l: "leads_to v path l ds" using leads_to_ex [OF v Inr] .
  then have ds: "names_ok ds" by (simp add: leads_to_def)
  have "leads_to (put_fs v k s') path l ds" using l by simp
  note L = leads_to_locate [OF l, of ops] leads_to_locate [OF this, of ops]
  show ?thesis
  proof (cases "l = k")
    case True
    then show ?thesis
      unfolding L using D [of ds] walk_descend [OF s(1) ds] walk_descend [OF s(2) ds]
      by (auto simp: nth_put_fs k root rbind_eq_Inr)
  next
    case False
    then show ?thesis unfolding L by (simp add: nth_put_fs k)
  qed
qed

subsection \<open>Writing and truncating\<close>

text \<open>An operation that replaces the contents of the file a path leads to.\<close>

lemma content_update:
  assumes v: "mounts_ok v" and loc: "locate ops v path = Inr (k, i)" and s: "inv (mount_fs (v ! k))"
    and s': "inv s'" "kind s' = kind (mount_fs (v ! k))" "child s' = child (mount_fs (v ! k))"
      "fs_root_inode ops s' = fs_root_inode ops (mount_fs (v ! k))"
      "content s' = (content (mount_fs (v ! k)))(i := new)"
    and isf: "kind (mount_fs (v ! k)) i = Some File"
  shows "locate ops (put_fs v k s') q = Inr x \<longleftrightarrow> locate ops v q = Inr x"
    and "vfs_read ops (put_fs v k s') path off len = Inr (take len (drop off new))"
    and "vfs_read_all ops (put_fs v k s') path = Inr new"
    and "\<lbrakk>locate ops v q = Inr (l, j); (l, j) \<noteq> (k, i); l = k \<longrightarrow> kind (mount_fs (v ! k)) j = Some File\<rbrakk> \<Longrightarrow>
      vfs_read ops (put_fs v k s') q off len = vfs_read ops v q off len"
proof -
  have k: "k < length v" using located_leads_to [OF v loc] by (auto simp: leads_to_def)
  show same: "locate ops (put_fs v k s') q = Inr x \<longleftrightarrow> locate ops v q = Inr x" for q x
    using locate_put [OF v k s s'(1,4), of "fst x" "snd x" q] s'(3) by simp
  have at: "locate ops (put_fs v k s') path = Inr (k, i)" using same loc by simp
  have f: "kind s' i = Some File" using isf s'(2) by simp
  show rd: "vfs_read ops (put_fs v k s') path off len = Inr (take len (drop off new))" for off len
    using read_file [OF s'(1) f] by (simp add: vfs_read_locate at nth_put_fs k s'(5))
  show "vfs_read_all ops (put_fs v k s') path = Inr new"
    using metadata [OF s'(1) f]
    by (simp add: vfs_read_all_def vfs_metadata_locate at nth_put_fs k rd s'(5))
  show "vfs_read ops (put_fs v k s') q off len = vfs_read ops v q off len"
    if "locate ops v q = Inr (l, j)" "(l, j) \<noteq> (k, i)" "l = k \<longrightarrow> kind (mount_fs (v ! k)) j = Some File"
  proof -
    have "locate ops (put_fs v k s') q = Inr (l, j)" using same that(1) by simp
    then show ?thesis
      using that read_file [OF s, of j] read_file [OF s'(1), of j] s'(2)
      by (cases "l = k") (auto simp: vfs_read_locate nth_put_fs k s'(5))
  qed
qed

text \<open>A file reads the same while its node keeps its kind and its contents.\<close>

lemma read_all_same:
  assumes v: "mounts_ok v" and q: "locate ops v q = Inr (l, j)" "locate ops w q = Inr (l, j)"
    and s: "mount_fs (w ! l) = mount_fs (v ! l) \<or>
      inv (mount_fs (v ! l)) \<and> inv (mount_fs (w ! l)) \<and>
      kind (mount_fs (w ! l)) j = kind (mount_fs (v ! l)) j \<and>
      content (mount_fs (w ! l)) j = content (mount_fs (v ! l)) j"
  shows "vfs_read_all ops w q = vfs_read_all ops v q"
  using s
proof (elim disjE conjE)
  assume "mount_fs (w ! l) = mount_fs (v ! l)"
  then show ?thesis unfolding vfs_read_all_def vfs_metadata_locate vfs_read_locate q by (simp cong: if_cong)
next
  assume i: "inv (mount_fs (v ! l))" "inv (mount_fs (w ! l))"
    and same: "kind (mount_fs (w ! l)) j = kind (mount_fs (v ! l)) j"
      "content (mount_fs (w ! l)) j = content (mount_fs (v ! l)) j"
  obtain k where k: "kind (mount_fs (v ! l)) j = Some k" using located_kind [OF v q(1) i(1)] by blast
  show ?thesis
    using metadata [OF i(1) k] metadata [OF i(2), of j k] read_file [OF i(1), of j] read_file [OF i(2), of j] k same
    by (cases k) (simp_all add: vfs_read_all_def vfs_metadata_locate vfs_read_locate q)
qed

lemma read_all_located:
  assumes v: "mounts_ok v" and q: "locate ops v q = Inr (l, j)" and i: "inv (mount_fs (v ! l))"
    and "kind (mount_fs (v ! l)) j = Some File"
  shows "vfs_read_all ops v q = Inr (content (mount_fs (v ! l)) j)"
  using metadata [OF i assms(4)] read_file [OF i assms(4)]
  by (simp add: vfs_read_all_def vfs_metadata_locate vfs_read_locate q)

lemma vfs_write_cases:
  assumes v: "mounts_ok v" and s: "\<And>k i. locate ops v path = Inr (k, i) \<Longrightarrow> inv (mount_fs (v ! k))"
    and w: "vfs_write ops v path off data = (v', Inr n)"
  obtains k i s' where "locate ops v path = Inr (k, i)" and "v' = put_fs v k s'" and "k < length v"
    and "n = length data" and "inv s'" and "kind (mount_fs (v ! k)) i = Some File"
    and "kind s' = kind (mount_fs (v ! k))" and "child s' = child (mount_fs (v ! k))"
    and "fs_root_inode ops s' = fs_root_inode ops (mount_fs (v ! k))"
    and "content s' =
      (content (mount_fs (v ! k)))(i := overwrite (content (mount_fs (v ! k)) i) off data)"
proof -
  obtain k i s' where ki: "locate ops v path = Inr (k, i)" "v' = put_fs v k s'"
    "fs_write ops (mount_fs (v ! k)) i off data = (s', Inr n)"
    using w by (auto simp: vfs_write_def on_inode_locate split: sum.splits prod.splits)
  have "k < length v" using located_leads_to [OF v ki(1)] by (auto simp: leads_to_def)
  with write_ok [OF s [OF ki(1)] ki(3)] ki that show ?thesis by blast
qed

lemma vfs_truncate_cases:
  assumes v: "mounts_ok v" and s: "\<And>k i. locate ops v path = Inr (k, i) \<Longrightarrow> inv (mount_fs (v ! k))"
    and w: "vfs_truncate ops v path len = (v', Inr n)"
  obtains k i s' where "locate ops v path = Inr (k, i)" and "v' = put_fs v k s'" and "k < length v"
    and "inv s'" and "kind (mount_fs (v ! k)) i = Some File"
    and "kind s' = kind (mount_fs (v ! k))" and "child s' = child (mount_fs (v ! k))"
    and "fs_root_inode ops s' = fs_root_inode ops (mount_fs (v ! k))"
    and "content s' = (content (mount_fs (v ! k)))(i := resize (content (mount_fs (v ! k)) i) len)"
proof -
  obtain k i s' where ki: "locate ops v path = Inr (k, i)" "v' = put_fs v k s'"
    "fs_truncate ops (mount_fs (v ! k)) i len = (s', Inr ())"
    using w by (auto simp: vfs_truncate_def on_inode_locate split: sum.splits prod.splits)
  have "k < length v" using located_leads_to [OF v ki(1)] by (auto simp: leads_to_def)
  with truncate_ok [OF s [OF ki(1)] ki(3)] ki that show ?thesis by blast
qed

subsection \<open>Creating and removing\<close>

lemma vfs_create_cases:
  assumes v: "mounts_ok v" and s: "\<And>k ds. leads_to v path k ds \<Longrightarrow> inv (mount_fs (v ! k))"
    and c: "(kd = File \<and> vfs_create_file ops v path = (v', Inr m)) \<or>
      (kd = Directory \<and> vfs_create_dir ops v path = (v', Inr m))"
  obtains k s' j where "v' = put_fs v k s'" and "k < length v" and "inv s'"
    and "locate ops v path = Inl NotFound" and "locate ops v' path = Inr (k, j)"
    and "m = \<lparr>md_inode = j, md_kind = kd, md_len = 0\<rparr>" and "fs_metadata ops s' j = Inr m"
    and "\<forall>q l i. (l, i) \<noteq> (k, j) \<longrightarrow> (locate ops v' q = Inr (l, i) \<longleftrightarrow> locate ops v q = Inr (l, i))"
    and "kind s' = (kind (mount_fs (v ! k)))(j \<mapsto> kd)"
    and "content s' = (content (mount_fs (v ! k)))(j := [])"
proof -
  obtain k es n p s' j where ld: "leads_to v path k (es @ [n])"
    and wk: "walk ops (mount_fs (v ! k)) (fs_root_inode ops (mount_fs (v ! k))) es = Inr p"
    and f: "(kd = File \<and> fs_create_file ops (mount_fs (v ! k)) p n = (s', Inr j)) \<or>
      (kd = Directory \<and> fs_create_dir ops (mount_fs (v ! k)) p n = (s', Inr j))"
    and v': "v' = put_fs v k s'" and m: "fs_metadata ops s' j = Inr m"
    using c unfolding vfs_create_file_def vfs_create_dir_def by (auto elim!: on_parent_cases [OF v])
  let ?s = "mount_fs (v ! k)"
  have inv: "inv ?s" by (rule s [OF ld])
  have k: "k < length v" and es: "names_ok es" "name_ok n" using ld by (auto simp: leads_to_def)
  have ok: "inv s'" "kind ?s p = Some Directory" "child ?s p n = None" "kind ?s j = None"
    "kind s' = (kind ?s)(j \<mapsto> kd)" "child s' = (child ?s)(p := (child ?s p)(n \<mapsto> j))"
    "fs_root_inode ops s' = fs_root_inode ops ?s" "content s' = (content ?s)(j := [])"
    using create_ok [OF inv f] by auto
  have "p \<noteq> j" using ok(2,4) by auto
  have leaf: "child ?s j x = None" for x using child_kind [OF inv, of j x] ok(4) by (cases "child ?s j x") auto
  have same: "descend (child s') r ds = Some i \<longleftrightarrow> descend (child ?s) r ds = Some i" if "i \<noteq> j" for r ds i
    unfolding ok(6) using \<open>p \<noteq> j\<close> by (intro descend_leaf ok(3) that) (simp add: leaf)
  have p: "descend (child ?s) (fs_root_inode ops ?s) es = Some p" using wk walk_descend [OF inv es(1)] by simp
  have "walk ops ?s (fs_root_inode ops ?s) (es @ [n]) = Inl NotFound"
    by (rule walk_missing [OF inv es p ok(2,3)])
  then have before: "locate ops v path = Inl NotFound" by (simp add: leads_to_locate [OF ld])
  have "descend (child s') (fs_root_inode ops s') es = Some p" using p same [OF \<open>p \<noteq> j\<close>] ok(7) by simp
  then have "descend (child s') (fs_root_inode ops s') (es @ [n]) = Some j"
    by (simp add: descend_append) (simp add: ok(6))
  then have "walk ops s' (fs_root_inode ops s') (es @ [n]) = Inr j"
    using walk_descend [OF ok(1), of "es @ [n]"] es by auto
  then have "locate ops v' path = Inr (k, j)"
    using leads_to_locate [of v' path k "es @ [n]" ops] ld by (simp add: v' nth_put_fs k)
  moreover have "locate ops v' q = Inr (l, i) \<longleftrightarrow> locate ops v q = Inr (l, i)" if "(l, i) \<noteq> (k, j)" for q l i
    unfolding v' using that same by (intro locate_put [OF v k inv ok(1,7)]) auto
  moreover have "m = \<lparr>md_inode = j, md_kind = kd, md_len = 0\<rparr>"
    using metadata [OF ok(1), of j kd] m ok(5,8) by simp
  ultimately show ?thesis using that v' k ok(1) before m ok(5,8) by blast
qed

lemma vfs_remove_cases:
  assumes v: "mounts_ok v" and s: "\<And>k ds. leads_to v path k ds \<Longrightarrow> inv (mount_fs (v ! k))"
    and r: "vfs_remove ops v path = (v', Inr ())"
  obtains k s' j where "v' = put_fs v k s'" and "k < length v" and "inv s'"
    and "locate ops v path = Inr (k, j)" and "locate ops v' path = Inl NotFound"
    and "\<forall>x. child (mount_fs (v ! k)) j x = None"
    and "\<forall>q l i. (l, i) \<noteq> (k, j) \<longrightarrow> (locate ops v' q = Inr (l, i) \<longleftrightarrow> locate ops v q = Inr (l, i))"
    and "kind s' = (kind (mount_fs (v ! k)))(j := None)"
    and "content s' = (content (mount_fs (v ! k)))(j := [])"
proof -
  obtain k es n p s' where ld: "leads_to v path k (es @ [n])"
    and wk: "walk ops (mount_fs (v ! k)) (fs_root_inode ops (mount_fs (v ! k))) es = Inr p"
    and f: "fs_remove ops (mount_fs (v ! k)) p n = (s', Inr ())" and v': "v' = put_fs v k s'"
    using r unfolding vfs_remove_def by (auto elim!: on_parent_cases [OF v])
  let ?s = "mount_fs (v ! k)"
  have inv: "inv ?s" by (rule s [OF ld])
  have k: "k < length v" and es: "names_ok es" "name_ok n" using ld by (auto simp: leads_to_def)
  obtain j where ok: "inv s'" "child ?s p n = Some j" "\<And>x. child ?s j x = None"
    "kind s' = (kind ?s)(j := None)" "child s' = (child ?s)(p := (child ?s p)(n := None))"
    "fs_root_inode ops s' = fs_root_inode ops ?s" "content s' = (content ?s)(j := [])"
    using remove_ok [OF inv f] by blast
  have "p \<noteq> j" using ok(2,3) by auto
  have undo: "child ?s = (child s')(p := (child s' p)(n \<mapsto> j))"
    using ok(2) by (simp add: ok(5) fun_upd_idem)
  have same: "descend (child s') x ds = Some i \<longleftrightarrow> descend (child ?s) x ds = Some i" if "i \<noteq> j" for x ds i
    unfolding undo using \<open>p \<noteq> j\<close> ok(3) by (intro descend_leaf [symmetric] that) (auto simp: ok(5))
  have p: "descend (child ?s) (fs_root_inode ops ?s) es = Some p" using wk walk_descend [OF inv es(1)] by simp
  have "kind s' p = Some Directory" using child_kind [OF inv ok(2)] \<open>p \<noteq> j\<close> by (simp add: ok(4))
  then have "walk ops s' (fs_root_inode ops s') (es @ [n]) = Inl NotFound"
    using p same [OF \<open>p \<noteq> j\<close>] by (intro walk_missing [OF ok(1) es]) (auto simp: ok(5,6))
  then have "locate ops v' path = Inl NotFound"
    using leads_to_locate [of v' path k "es @ [n]" ops] ld by (simp add: v' nth_put_fs k)
  moreover have "walk ops ?s (fs_root_inode ops ?s) (es @ [n]) = Inr j"
    using p es ok(2) by (subst walk_descend [OF inv]) (auto simp: descend_append)
  then have "locate ops v path = Inr (k, j)" by (simp add: leads_to_locate [OF ld])
  moreover have "locate ops v' q = Inr (l, i) \<longleftrightarrow> locate ops v q = Inr (l, i)" if "(l, i) \<noteq> (k, j)" for q l i
    unfolding v' using that same by (intro locate_put [OF v k inv ok(1,6)]) auto
  ultimately show ?thesis using that v' k ok(1,3,4,7) by blast
qed

subsection \<open>Failures\<close>

lemma put_same: "k < length v \<Longrightarrow> put_fs v k (mount_fs (v ! k)) = v"
  by (simp add: put_fs_def)

lemma on_inode_failed:
  assumes v: "mounts_ok v" and s: "\<And>k i. locate ops v path = Inr (k, i) \<Longrightarrow> inv (mount_fs (v ! k))"
    and f: "\<And>s i s' e. \<lbrakk>inv s; f s i = (s', Inl e)\<rbrakk> \<Longrightarrow> s' = s"
    and r: "on_inode ops v path f = (v', Inl e)"
  shows "v' = v"
proof (cases "locate ops v path")
  case (Inl err)
  then show ?thesis using r by (simp add: on_inode_locate)
next
  case (Inr x)
  obtain k i where x: "x = (k, i)" by (cases x)
  have k: "k < length v" using located_leads_to [OF v Inr [unfolded x]] by (auto simp: leads_to_def)
  obtain s' where "f (mount_fs (v ! k)) i = (s', Inl e)" "v' = put_fs v k s'"
    using r by (auto simp: on_inode_locate Inr x split: prod.splits)
  then show ?thesis using f [OF s [OF Inr [unfolded x]]] put_same [OF k] by metis
qed

lemma on_parent_failed:
  assumes v: "mounts_ok v" and s: "\<And>k ds. leads_to v path k ds \<Longrightarrow> inv (mount_fs (v ! k))"
    and f: "\<And>s i n s' e. \<lbrakk>inv s; f s i n = (s', Inl e)\<rbrakk> \<Longrightarrow> s' = s"
    and after: "\<And>s i n s' x. \<lbrakk>inv s; f s i n = (s', Inr x)\<rbrakk> \<Longrightarrow> \<exists>y. after s' x = Inr y"
    and r: "on_parent ops v path f after = (v', Inl e)"
  shows "v' = v"
proof (cases "normalize_path ''/'' path")
  case (Inl err)
  then show ?thesis using r by (simp add: on_parent_def)
next
  case (Inr p)
  obtain k ds where k: "leads_to v path k ds" "route v p = (k, path_string ds)" using leads_to_ex [OF v Inr] .
  have len: "k < length v" using k(1) by (simp add: leads_to_def)
  show ?thesis
  proof (cases "resolve_parent ops (mount_fs (v ! k)) (path_string ds)")
    case (Inl err)
    then show ?thesis using r by (simp add: on_parent_def Inr k(2))
  next
    case (Inr x)
    obtain i n where x: "x = (i, n)" by (cases x)
    obtain s' y where fy: "f (mount_fs (v ! k)) i n = (s', y)" by (cases "f (mount_fs (v ! k)) i n")
    show ?thesis
    proof (cases y)
      case (Inl err)
      then have "s' = mount_fs (v ! k)" using f [OF s [OF k(1)]] fy by simp
      then show ?thesis
        using r Inr fy put_same [OF len] \<open>normalize_path ''/'' path = Inr p\<close> by (simp add: on_parent_def k(2) x Inl)
    next
      case (Inr z)
      then obtain w where "after s' z = Inr w" using after [OF s [OF k(1)]] fy by blast
      then show ?thesis
        using r fy \<open>normalize_path ''/'' path = Inr p\<close>
          \<open>resolve_parent ops (mount_fs (v ! k)) (path_string ds) = Inr x\<close>
        by (simp add: on_parent_def k(2) x Inr)
    qed
  qed
qed

text \<open>An operation that fails leaves the whole tree as it was.\<close>

lemma vfs_failed:
  assumes v: "mounts_ok v" and s: "\<And>k ds. leads_to v path k ds \<Longrightarrow> inv (mount_fs (v ! k))"
    and r: "vfs_write ops v path off data = (v', Inl e) \<or> vfs_truncate ops v path len = (v', Inl e) \<or>
      vfs_create_file ops v path = (v', Inl e) \<or> vfs_create_dir ops v path = (v', Inl e) \<or>
      vfs_remove ops v path = (v', Inl e)"
  shows "v' = v"
proof -
  have s': "inv (mount_fs (v ! k))" if "locate ops v path = Inr (k, i)" for k i
    using located_leads_to [OF v that] s by blast
  have meta: "\<exists>y. fs_metadata ops s' j = Inr y" if c: "inv s" "fs_create_file ops s p n = (s', Inr j) \<or>
      fs_create_dir ops s p n = (s', Inr j)" for s s' p n j
  proof -
    obtain kd where "inv s'" "kind s' j = Some kd"
      using c create_ok [of s File p n s' j] create_ok [of s Directory p n s' j] by auto
    then show ?thesis using metadata by blast
  qed
  from r show ?thesis
    unfolding vfs_write_def vfs_truncate_def vfs_create_file_def vfs_create_dir_def vfs_remove_def
    by (elim disjE; (elim on_inode_failed [OF v s', rotated 2] on_parent_failed [OF v s, rotated 3])?)
      (use failed meta in blast)+
qed

end

end
