(* ===== verification/Generic_Fs_Data.thy ===== *)
theory Generic_Fs_Data
  imports Generic_Fs_Table Fs_Contract
begin

text \<open>
  The data of \<open>GenericFs\<close>: the choice of an extent, and what reading and writing a file do to
  the bytes of the device, which is seen as one array of bytes.
\<close>

section \<open>Choosing an extent\<close>

definition apart :: "nat \<times> nat \<Rightarrow> nat \<times> nat \<Rightarrow> bool" where
  "apart x y \<longleftrightarrow> snd x \<le> fst y \<or> snd y \<le> fst x"

lemma extent_scan_ok:
  assumes "extent_scan avail n cand used = Inr c" and "sorted (map fst used)"
    and "\<forall>x\<in>set used. snd x \<le> avail" "cand \<le> avail" "avail + n < 2 ^ 64" "\<forall>x\<in>set used. fst x \<le> snd x"
  shows "cand \<le> c \<and> c + n \<le> avail \<and> (\<forall>x\<in>set used. apart (c, c + n) x)"
  using assms
proof (induction avail n cand used rule: extent_scan.induct)
  case (1 avail n cand)
  then show ?case by (auto simp: u64_add_small split: if_splits)
next
  case (2 avail n cand s e used)
  have add: "u64_add cand n = cand + n" using "2.prems" by (intro u64_add_small) linarith
  show ?case
  proof (cases "cand + n \<le> s")
    case True
    then show ?thesis using "2.prems" add by (fastforce simp: apart_def)
  next
    case False
    then have "max cand e \<le> c \<and> c + n \<le> avail \<and> (\<forall>x\<in>set used. apart (c, c + n) x)"
      using 2 add by auto
    then show ?thesis by (auto simp: apart_def)
  qed
qed

lemma extent_scan_full:
  assumes "extent_scan avail n cand used = Inl err" and "avail + n < 2 ^ 64" "cand \<le> avail"
    and "\<forall>x\<in>set used. snd x \<le> avail"
  shows "err = NoSpace \<and> (\<forall>c\<ge>cand. c + n \<le> avail \<longrightarrow> (\<exists>x\<in>set used. \<not> apart (c, c + n) x))"
  using assms
proof (induction avail n cand used rule: extent_scan.induct)
  case (1 avail n cand)
  then show ?case by (auto simp: u64_add_small split: if_splits)
next
  case (2 avail n cand s e used)
  have "u64_add cand n = cand + n" using "2.prems" by (intro u64_add_small) linarith
  then have s: "\<not> cand + n \<le> s" and rec: "extent_scan avail n (max cand e) used = Inl err"
    using "2.prems"(1) by (auto split: if_splits)
  have IH: "err = NoSpace \<and>
      (\<forall>c\<ge>max cand e. c + n \<le> avail \<longrightarrow> (\<exists>x\<in>set used. \<not> apart (c, c + n) x))"
    using "2.prems" s \<open>u64_add cand n = cand + n\<close> rec by (intro "2.IH") auto
  have "\<exists>x\<in>set ((s, e) # used). \<not> apart (c, c + n) x" if "cand \<le> c" "c + n \<le> avail" for c
  proof (cases "c < e")
    case True
    then show ?thesis using s that by (auto simp: apart_def)
  qed (use IH that in auto)
  then show ?case using IH by blast
qed

text \<open>
  A filesystem in order: the superblock is what formatting writes, every inode is readable, the root is a directory, the extents of the
  files lie in the data area, do not overlap, and hold the files' bytes.
\<close>

definition extent_of :: "disk_inode \<Rightarrow> nat \<times> nat" where
  "extent_of e = (di_start_sector e, di_start_sector e + di_sector_count e)"

definition has_extent :: "disk_inode \<Rightarrow> bool" where
  "has_extent e \<longleftrightarrow> di_kind e = 1 \<and> di_sector_count e \<noteq> 0"

definition file_ok :: "nat \<Rightarrow> disk_inode \<Rightarrow> bool" where
  "file_ok sectors e \<longleftrightarrow>
     (di_kind e = 1 \<longrightarrow> di_len e \<le> di_sector_count e * SECTOR_SIZE \<and> snd (extent_of e) \<le> sectors) \<and>
     (has_extent e \<longrightarrow> DATA_START \<le> di_start_sector e)"

definition gfs_inv :: "'d block_ops \<Rightarrow> ('d \<Rightarrow> bool) \<Rightarrow> 'd \<Rightarrow> bool" where
  "gfs_inv bd dev_ok d \<longleftrightarrow>
     dev_ok d \<and> DATA_START + 1 < bd_sector_count bd d \<and> bd_sector_count bd d < 2 ^ 32 \<and>
     (\<forall>i. valid_inode i \<longrightarrow> (\<exists>e. read_inode bd i d = Inr e \<and> file_ok (bd_sector_count bd d) e)) \<and>
     bd_read_sector bd d 0 = Inr (gfs_superblock (bd_sector_count bd d)) \<and>
     (\<exists>e. read_inode bd 1 d = Inr e \<and> di_kind e = 2) \<and>
     (\<forall>i j e f. i \<noteq> j \<and> read_inode bd i d = Inr e \<and> read_inode bd j d = Inr f \<and>
        has_extent e \<and> has_extent f \<longrightarrow> apart (extent_of e) (extent_of f))"

lemma gfs_invD:
  assumes "gfs_inv bd dev_ok d"
  shows "dev_ok d" and "DATA_START + 1 < bd_sector_count bd d" and "bd_sector_count bd d < 2 ^ 32"
    and "valid_inode i \<Longrightarrow> \<exists>e. read_inode bd i d = Inr e \<and> file_ok (bd_sector_count bd d) e"
    and "\<exists>e. read_inode bd 1 d = Inr e \<and> di_kind e = 2"
    and "\<lbrakk>i \<noteq> j; read_inode bd i d = Inr e; read_inode bd j d = Inr f; has_extent e; has_extent f\<rbrakk> \<Longrightarrow>
      apart (extent_of e) (extent_of f)"
    and "bd_read_sector bd d 0 = Inr (gfs_superblock (bd_sector_count bd d))"
  using assms unfolding gfs_inv_def by blast+

lemma used_extents_spec:
  assumes "\<And>i. i \<in> set is \<Longrightarrow> \<exists>e. read_inode bd i d = Inr e \<and> file_ok n e" and "n < 2 ^ 32"
  shows "\<exists>used. used_extents bd ex is d = Inr used \<and>
    set used = {extent_of e | i e. i \<in> set is \<and> i \<noteq> ex \<and> read_inode bd i d = Inr e \<and> has_extent e}"
  using assms(1)
proof (induction "is")
  case (Cons i "is")
  obtain used where used: "used_extents bd ex is d = Inr used"
    "set used = {extent_of e | i e. i \<in> set is \<and> i \<noteq> ex \<and> read_inode bd i d = Inr e \<and> has_extent e}"
    using Cons by auto
  obtain e where e: "read_inode bd i d = Inr e" "file_ok n e" using Cons.prems [of i] by auto
  have "(di_start_sector e, u64_add (di_start_sector e) (di_sector_count e)) = extent_of e" if "has_extent e"
    using e(2) that assms(2) by (auto simp: file_ok_def extent_of_def has_extent_def intro!: u64_add_small)
  then show ?case
    using used e by (cases "i = ex"; cases "has_extent e") (auto simp: has_extent_def)
qed simp

lemma inode_range_valid: "i \<in> set inode_range \<longleftrightarrow> valid_inode i \<and> i \<noteq> 1"
  by (auto simp: valid_inode_def)

definition other_extents :: "'d block_ops \<Rightarrow> 'd \<Rightarrow> inode \<Rightarrow> (nat \<times> nat) set" where
  "other_extents bd d i = {extent_of e | j e. j \<noteq> i \<and> read_inode bd j d = Inr e \<and> has_extent e}"

lemma find_extent_spec:
  assumes inv: "gfs_inv bd ok d" and n: "0 < n" "n \<le> 2 ^ 55"
    and valid: "\<And>j e. read_inode bd j d = Inr e \<Longrightarrow> valid_inode j"
  shows "case find_extent bd n i d of
      Inr c \<Rightarrow> DATA_START \<le> c \<and> c + n \<le> bd_sector_count bd d \<and> (\<forall>x\<in>other_extents bd d i. apart (c, c + n) x)
    | Inl err \<Rightarrow> err = NoSpace \<and>
        (\<forall>c\<ge>DATA_START. c + n \<le> bd_sector_count bd d \<longrightarrow> (\<exists>x\<in>other_extents bd d i. \<not> apart (c, c + n) x))"
proof -
  let ?n = "bd_sector_count bd d"
  have I: "DATA_START + 1 < ?n" "?n < 2 ^ 32"
    "\<And>i. valid_inode i \<Longrightarrow> \<exists>e. read_inode bd i d = Inr e \<and> file_ok ?n e"
    "\<exists>e. read_inode bd 1 d = Inr e \<and> di_kind e = 2"
    using gfs_invD [OF inv] by blast+
  obtain used where used: "used_extents bd i inode_range d = Inr used"
    "set used = {extent_of e | j e. j \<in> set inode_range \<and> j \<noteq> i \<and> read_inode bd j d = Inr e \<and> has_extent e}"
    using used_extents_spec [of inode_range bd d ?n i] I(2,3) inode_range_valid by blast
  have "j \<noteq> 1" if "read_inode bd j d = Inr e" "has_extent e" for j e
    using that I(4) by (auto simp: has_extent_def)
  then have set: "set (sort_key fst used) = other_extents bd d i"
    using used(2) inode_range_valid valid unfolding other_extents_def by (auto; metis)
  have "file_ok ?n e" if "read_inode bd j d = Inr e" for j e
    using I(3) [OF valid [OF that]] that by auto
  then have "\<forall>x\<in>set (sort_key fst used). snd x \<le> ?n \<and> fst x \<le> snd x"
    unfolding set other_extents_def by (auto simp: file_ok_def extent_of_def has_extent_def)
  then show ?thesis
    using extent_scan_ok [of ?n n DATA_START "sort_key fst used"]
      extent_scan_full [of ?n n DATA_START "sort_key fst used"] I(1,2) n
    unfolding find_extent_def used(1) set by (auto split: sum.split)
qed

text \<open>
  A file may grow without loss when it fits into its extent, or when the extent that is chosen for
  it does not overlap the one that it has.
\<close>

definition growth_safe :: "'d block_ops \<Rightarrow> 'd \<Rightarrow> inode \<Rightarrow> disk_inode \<Rightarrow> nat \<Rightarrow> bool" where
  "growth_safe bd d i e needed \<longleftrightarrow>
     needed \<le> di_sector_count e \<or>
     (\<forall>c. find_extent bd needed i d = Inr c \<longrightarrow> apart (c, c + needed) (extent_of e))"

lemma sectors_for_len_bounds:
  assumes "n \<le> 2 ^ 64 - 512"
  shows "n \<le> sectors_for_len n * SECTOR_SIZE" and "sectors_for_len n \<le> 2 ^ 55"
proof -
  have "sectors_for_len n = (n + 511) div 512"
    using assms by (simp add: sectors_for_len_def SECTOR_SIZE_def u64_add_small)
  then show "n \<le> sectors_for_len n * SECTOR_SIZE" "sectors_for_len n \<le> 2 ^ 55"
    using assms by (simp_all add: SECTOR_SIZE_def)
qed

section \<open>The device as an array of bytes\<close>

lemma splice_chunk:
  assumes "c \<le> length xs"
  shows "(if A + c \<le> a \<and> a < A + c + length (drop c xs) then drop c xs ! (a - (A + c))
      else if A \<le> a \<and> a < A + length (take c xs) then take c xs ! (a - A) else z) =
    (if A \<le> a \<and> a < A + length xs then xs ! (a - A) else z)"
proof (cases "A + c \<le> a")
  case True
  then have "c + (a - (A + c)) = a - A" by simp
  then show ?thesis using True assms by auto
qed (use assms in auto)

context block_device
begin

definition gbyte :: "'d \<Rightarrow> nat \<Rightarrow> byte" where
  "gbyte d a = sector_of d (a div SECTOR_SIZE) ! (a mod SECTOR_SIZE)"

definition dev_bytes :: "'d \<Rightarrow> nat" where
  "dev_bytes d = bd_sector_count bd d * SECTOR_SIZE"

lemma in_device: "a < dev_bytes d \<Longrightarrow> a div SECTOR_SIZE < bd_sector_count bd d"
  by (simp add: dev_bytes_def less_mult_imp_div_less)

lemma sector_bytes:
  assumes "dev_ok d" and "n < bd_sector_count bd d"
  shows "sector_of d n = map (gbyte d) [n * SECTOR_SIZE..<n * SECTOR_SIZE + SECTOR_SIZE]"
proof (rule nth_equalityI)
  show "length (sector_of d n) = length (map (gbyte d) [n * SECTOR_SIZE..<n * SECTOR_SIZE + SECTOR_SIZE])"
    using sector_length [OF assms] by simp
  fix k assume "k < length (sector_of d n)"
  then have "k < SECTOR_SIZE" using sector_length [OF assms] by simp
  then show "sector_of d n ! k = map (gbyte d) [n * SECTOR_SIZE..<n * SECTOR_SIZE + SECTOR_SIZE] ! k"
    by (simp add: gbyte_def)
qed

text \<open>Replacing some bytes of one sector: what a turn of the write loops does.\<close>

lemma patch_sector:
  assumes ok: "dev_ok d" "bd_sector_count bd d < 2 ^ 64"
    and n: "start + position div SECTOR_SIZE < bd_sector_count bd d"
    and fits: "position mod SECTOR_SIZE + length new \<le> SECTOR_SIZE"
  obtains d' where
    "sbind (sget (gfs_read_sector bd (u64_add start (position div SECTOR_SIZE)))) (\<lambda>buffer.
       gfs_write_sector bd (u64_add start (position div SECTOR_SIZE))
         (put_field buffer (position mod SECTOR_SIZE) new)) d = (d', Inr ())"
    and "dev_ok d'" and "bd_sector_count bd d' = bd_sector_count bd d"
    and "\<And>a. gbyte d' a =
      (if start * SECTOR_SIZE + position \<le> a \<and> a < start * SECTOR_SIZE + position + length new
       then new ! (a - (start * SECTOR_SIZE + position)) else gbyte d a)"
proof -
  let ?n = "start + position div SECTOR_SIZE" and ?w = "position mod SECTOR_SIZE"
  have add: "u64_add start (position div SECTOR_SIZE) = ?n" using n ok(2) by (intro u64_add_small) simp
  have len: "length (sector_of d ?n) = SECTOR_SIZE" by (rule sector_length [OF ok(1) n])
  have put: "length (put_field (sector_of d ?n) ?w new) = SECTOR_SIZE" using len fits by simp
  obtain d' where d': "gfs_write_sector bd ?n (put_field (sector_of d ?n) ?w new) d = (d', Inr ())"
    "dev_ok d'" "bd_sector_count bd d' = bd_sector_count bd d"
    "sector_of d' = (sector_of d)(?n := put_field (sector_of d ?n) ?w new)"
    using gfs_write_in [OF ok(1) n put] by blast
  have start: "start * SECTOR_SIZE + position = ?n * SECTOR_SIZE + ?w"
    by (simp add: add_mult_distrib div_mult_mod_eq)
  have "gbyte d' a = (if start * SECTOR_SIZE + position \<le> a \<and>
      a < start * SECTOR_SIZE + position + length new
      then new ! (a - (start * SECTOR_SIZE + position)) else gbyte d a)" for a
  proof (cases "a div SECTOR_SIZE = ?n")
    case True
    have a: "a = ?n * SECTOR_SIZE + a mod SECTOR_SIZE" using div_mult_mod_eq [of a SECTOR_SIZE] True by simp
    have iff: "start * SECTOR_SIZE + position \<le> a \<and> a < start * SECTOR_SIZE + position + length new \<longleftrightarrow>
        ?w \<le> a mod SECTOR_SIZE \<and> a mod SECTOR_SIZE < ?w + length new"
      unfolding start by (subst (1 2) a) simp
    have idx: "a - (start * SECTOR_SIZE + position) = a mod SECTOR_SIZE - ?w"
      unfolding start by (subst a) simp
    show ?thesis unfolding iff idx gbyte_def d'(4) using True len fits by (simp add: nth_put_field)
  next
    case False
    have "\<not> (?n * SECTOR_SIZE + ?w \<le> a \<and> a < ?n * SECTOR_SIZE + ?w + length new)"
    proof
      assume *: "?n * SECTOR_SIZE + ?w \<le> a \<and> a < ?n * SECTOR_SIZE + ?w + length new"
      then have "?n * SECTOR_SIZE \<le> a" "a < Suc ?n * SECTOR_SIZE" using fits by auto
      then have "a div SECTOR_SIZE = ?n" using div_nat_eqI [of SECTOR_SIZE ?n a] by (simp add: mult.commute)
      with False show False by simp
    qed
    then show ?thesis unfolding start gbyte_def d'(4) using False by auto
  qed
  moreover have "sbind (sget (gfs_read_sector bd (u64_add start (position div SECTOR_SIZE)))) (\<lambda>buffer.
       gfs_write_sector bd (u64_add start (position div SECTOR_SIZE)) (put_field buffer ?w new)) d = (d', Inr ())"
    unfolding add using gfs_read_in [OF ok(1) n] d'(1) by simp
  ultimately show ?thesis using that d'(2,3) by blast
qed

lemma write_loop_spec:
  assumes "dev_ok d" "bd_sector_count bd d < 2 ^ 64"
    and "start * SECTOR_SIZE + position + length data \<le> dev_bytes d"
  shows "\<exists>d'. write_loop bd start position data d = (d', Inr ()) \<and> dev_ok d' \<and>
    bd_sector_count bd d' = bd_sector_count bd d \<and>
    (\<forall>a. gbyte d' a =
      (if start * SECTOR_SIZE + position \<le> a \<and> a < start * SECTOR_SIZE + position + length data
       then data ! (a - (start * SECTOR_SIZE + position)) else gbyte d a))"
  using assms
proof (induction "length data" arbitrary: data position d rule: less_induct)
  case less
  show ?case
  proof (cases "data = []")
    case True
    then show ?thesis using less.prems(1) by (auto simp: write_loop.simps)
  next
    case False
    define c where "c = chunk position (length data)"
    have c: "0 < c" "c \<le> length data" "position mod SECTOR_SIZE + c \<le> SECTOR_SIZE"
      using False chunk_pos [of "length data" position] by (auto simp: c_def chunk_def SECTOR_SIZE_def)
    have "start * SECTOR_SIZE + position < dev_bytes d" using less.prems(3) False by (cases data) auto
    then have n: "start + position div SECTOR_SIZE < bd_sector_count bd d"
      using in_device [of "start * SECTOR_SIZE + position" d] by (simp add: SECTOR_SIZE_def)
    obtain d1 where d1:
      "sbind (sget (gfs_read_sector bd (u64_add start (position div SECTOR_SIZE)))) (\<lambda>buffer.
         gfs_write_sector bd (u64_add start (position div SECTOR_SIZE))
           (put_field buffer (position mod SECTOR_SIZE) (take c data))) d = (d1, Inr ())"
      "dev_ok d1" "bd_sector_count bd d1 = bd_sector_count bd d"
      "\<And>a. gbyte d1 a =
        (if start * SECTOR_SIZE + position \<le> a \<and> a < start * SECTOR_SIZE + position + length (take c data)
         then take c data ! (a - (start * SECTOR_SIZE + position)) else gbyte d a)"
      by (rule patch_sector [OF less.prems(1,2) n, of "take c data"]) (use c in simp_all)
    have step: "write_loop bd start position data d = write_loop bd start (position + c) (drop c data) d1"
      using d1(1) False unfolding write_loop.simps [of bd start position data] c_def [symmetric] Let_def
      by (auto simp: sbind_def split: sum.splits prod.splits)
    have short: "length (drop c data) < length data" "bd_sector_count bd d1 < 2 ^ 64"
      "start * SECTOR_SIZE + (position + c) + length (drop c data) \<le> dev_bytes d1"
      using c less.prems(2,3) by (simp_all add: d1(3) dev_bytes_def)
    obtain d' where d': "write_loop bd start (position + c) (drop c data) d1 = (d', Inr ())" "dev_ok d'"
      "bd_sector_count bd d' = bd_sector_count bd d"
      "\<And>a. gbyte d' a =
        (if start * SECTOR_SIZE + (position + c) \<le> a \<and>
            a < start * SECTOR_SIZE + (position + c) + length (drop c data)
         then drop c data ! (a - (start * SECTOR_SIZE + (position + c))) else gbyte d1 a)"
      using less.hyps [OF short(1) d1(2) short(2,3)] unfolding d1(3) by blast
    have H: "gbyte d' a = (if start * SECTOR_SIZE + position \<le> a \<and>
        a < start * SECTOR_SIZE + position + length data
        then data ! (a - (start * SECTOR_SIZE + position)) else gbyte d a)" for a
      unfolding d'(4) d1(4) using splice_chunk [OF c(2), of "start * SECTOR_SIZE + position" a]
      by (simp only: add.assoc [symmetric])
    show ?thesis unfolding step by (intro exI [of _ d'] conjI allI d'(1-3) H)
  qed
qed

lemma zero_loop_write:
  "zero_loop bd start position fin = write_loop bd start position (replicate (fin - position) 0)"
proof (induction bd start position fin rule: zero_loop.induct)
  case (1 bd start position fin)
  show ?case
  proof (cases "fin \<le> position")
    case True
    then show ?thesis by (simp add: zero_loop.simps write_loop.simps)
  next
    case False
    let ?c = "chunk position (fin - position)"
    have c: "?c \<le> fin - position" by (simp add: chunk_def)
    with 1 [OF False refl refl refl] False c show ?thesis
      unfolding zero_loop.simps [of bd start position] write_loop.simps [of bd start position] Let_def
      by (simp add: min_absorb1 min_absorb2)
  qed
qed

lemma read_loop_spec:
  assumes "dev_ok d" "bd_sector_count bd d < 2 ^ 64" "start * SECTOR_SIZE + position + left \<le> dev_bytes d"
  shows "read_loop bd start position left d =
    Inr (map (gbyte d) [start * SECTOR_SIZE + position..<start * SECTOR_SIZE + position + left])"
  using assms(3)
proof (induction left arbitrary: position rule: less_induct)
  case (less left)
  show ?case
  proof (cases "left = 0")
    case True
    then show ?thesis by (simp add: read_loop.simps)
  next
    case False
    define c where "c = chunk position left"
    have c: "0 < c" "c \<le> left" "position mod SECTOR_SIZE + c \<le> SECTOR_SIZE"
      using False chunk_pos [of left position] by (auto simp: c_def chunk_def SECTOR_SIZE_def)
    let ?n = "start + position div SECTOR_SIZE" and ?a = "start * SECTOR_SIZE + position"
    have n: "?n < bd_sector_count bd d"
      using in_device [of ?a d] less.prems False by (simp add: SECTOR_SIZE_def)
    have add: "u64_add start (position div SECTOR_SIZE) = ?n" using n assms(2) by (intro u64_add_small) simp
    have a: "?a = ?n * SECTOR_SIZE + position mod SECTOR_SIZE" by (simp add: add_mult_distrib div_mult_mod_eq)
    have "take c (drop (position mod SECTOR_SIZE) (sector_of d ?n)) = map (gbyte d) [?a..<?a + c]"
      unfolding sector_bytes [OF assms(1) n] drop_map take_map drop_upt take_upt a using c(3)
      by (simp add: take_upt)
    moreover have "read_loop bd start (position + c) (left - c) d =
        Inr (map (gbyte d) [?a + c..<?a + left])"
      using less.IH [of "left - c" "position + c"] c False less.prems by (simp add: add.assoc)
    moreover have "[?a..<?a + left] = [?a..<?a + c] @ [?a + c..<?a + left]"
      using c(2) upt_add_eq_append [of ?a "?a + c" "left - c"] by (simp add: add.assoc)
    ultimately show ?thesis
      using False gfs_read_in [OF assms(1) n]
      unfolding read_loop.simps [of bd start position left] c_def [symmetric] add by simp
  qed
qed

end

end
