(* ===== verification/Generic_Fs_Write.thy ===== *)
theory Generic_Fs_Write
  imports Generic_Fs_Data
begin

text \<open>
  Growing, writing and reading the files of \<open>GenericFs\<close> on a working device.
\<close>

context block_device
begin

lemma zero_sectors_spec:
  assumes "dev_ok d" "bd_sector_count bd d < 2 ^ 64" "\<And>n. n \<in> set ns \<Longrightarrow> start + n < bd_sector_count bd d"
  shows "\<exists>d'. zero_sectors bd start ns d = (d', Inr ()) \<and> dev_ok d' \<and>
    bd_sector_count bd d' = bd_sector_count bd d \<and>
    sector_of d' = (\<lambda>m. if \<exists>n\<in>set ns. m = start + n then replicate SECTOR_SIZE 0 else sector_of d m)"
  using assms
proof (induction ns arbitrary: d)
  case (Cons n ns)
  have n: "start + n < bd_sector_count bd d" using Cons.prems(3) by simp
  then have add: "u64_add start n = start + n" using Cons.prems(2) by (intro u64_add_small) simp
  obtain d1 where d1: "gfs_write_sector bd (start + n) (replicate SECTOR_SIZE 0) d = (d1, Inr ())" "dev_ok d1"
    "bd_sector_count bd d1 = bd_sector_count bd d"
    "sector_of d1 = (sector_of d)(start + n := replicate SECTOR_SIZE 0)"
    using gfs_write_in [OF Cons.prems(1) n, of "replicate SECTOR_SIZE 0"] by auto
  obtain d' where d': "zero_sectors bd start ns d1 = (d', Inr ())" "dev_ok d'"
    "bd_sector_count bd d' = bd_sector_count bd d"
    "sector_of d' = (\<lambda>m. if \<exists>n\<in>set ns. m = start + n then replicate SECTOR_SIZE 0 else sector_of d1 m)"
    using Cons.IH [OF d1(2)] Cons.prems d1(3) by auto
  have "zero_sectors bd start (n # ns) d = (d', Inr ())" using d1(1) d'(1) by (simp add: add sbind_ok)
  then show ?case using d' d1(4) by (auto simp: fun_eq_iff)
qed auto

lemma copy_sectors_spec:
  assumes "dev_ok d" "bd_sector_count bd d < 2 ^ 64"
    and "\<And>n. n \<in> set ns \<Longrightarrow> old + n < bd_sector_count bd d \<and> new + n < bd_sector_count bd d"
    and "\<And>n m. \<lbrakk>n \<in> set ns; m \<in> set ns\<rbrakk> \<Longrightarrow> old + n \<noteq> new + m"
  shows "\<exists>d'. copy_sectors bd old new ns d = (d', Inr ()) \<and> dev_ok d' \<and>
    bd_sector_count bd d' = bd_sector_count bd d \<and>
    (\<forall>m. sector_of d' m = (if \<exists>n\<in>set ns. m = new + n then sector_of d (old + (m - new)) else sector_of d m))"
  using assms
proof (induction ns arbitrary: d)
  case (Cons n ns)
  have n: "old + n < bd_sector_count bd d" "new + n < bd_sector_count bd d" using Cons.prems(3) [of n] by auto
  then have add: "u64_add old n = old + n" "u64_add new n = new + n"
    using Cons.prems(2) by (auto intro!: u64_add_small)
  obtain d1 where d1: "gfs_write_sector bd (new + n) (sector_of d (old + n)) d = (d1, Inr ())" "dev_ok d1"
    "bd_sector_count bd d1 = bd_sector_count bd d"
    "sector_of d1 = (sector_of d)(new + n := sector_of d (old + n))"
    using gfs_write_in [OF Cons.prems(1) n(2) sector_length [OF Cons.prems(1) n(1)]] by blast
  obtain d' where d': "copy_sectors bd old new ns d1 = (d', Inr ())" "dev_ok d'"
    "bd_sector_count bd d' = bd_sector_count bd d"
    "\<And>m. sector_of d' m = (if \<exists>n\<in>set ns. m = new + n then sector_of d1 (old + (m - new)) else sector_of d1 m)"
    using Cons.IH [OF d1(2)] Cons.prems d1(3) by auto
  have c: "copy_sectors bd old new (n # ns) d = (d', Inr ())"
    using d1(1) d'(1) gfs_read_in [OF Cons.prems(1) n(1)] by (simp add: add sbind_ok)
  have "sector_of d' m = (if \<exists>k\<in>set (n # ns). m = new + k then sector_of d (old + (m - new)) else sector_of d m)" for m
    using Cons.prems(4) [of _ n] by (auto simp: d'(4) d1(4))
  then show ?case using c d'(2,3) by blast
qed auto

lemma read_inode_cong:
  assumes "dev_ok d" "dev_ok d'" "bd_sector_count bd d' = bd_sector_count bd d" "DATA_START \<le> bd_sector_count bd d"
    and "\<And>n. n < DATA_START \<Longrightarrow> sector_of d' n = sector_of d n"
  shows "read_inode bd i d' = read_inode bd i d"
  using assms inode_sector_bounds [of i] by (simp add: read_inode_raw inode_raw_def)

lemma gfs_inv_valid:
  assumes "gfs_inv bd dev_ok d" and "read_inode bd i d = Inr e"
  shows "valid_inode i" and "disk_inode_ok e" and "file_ok (bd_sector_count bd d) e"
proof -
  show v: "valid_inode i" and "disk_inode_ok e"
    using read_inode_ok [OF gfs_invD(1) [OF assms(1)] _ assms(2)] gfs_invD(2) [OF assms(1)] by auto
  show "file_ok (bd_sector_count bd d) e" using gfs_invD(4) [OF assms(1) v] assms(2) by auto
qed

text \<open>
  Room for a longer file: the file keeps its bytes if the new extent does not overlap the old one,
  and no sector outside the extent that the file has afterwards changes.
\<close>

definition file_bytes :: "'d \<Rightarrow> disk_inode \<Rightarrow> byte list" where
  "file_bytes d e =
     map (gbyte d) [di_start_sector e * SECTOR_SIZE..<di_start_sector e * SECTOR_SIZE + di_len e]"

lemma moved_bytes:
  assumes "di_len e1 = di_len e" "di_len e \<le> di_sector_count e * SECTOR_SIZE"
    and "\<And>m. m < di_sector_count e \<Longrightarrow> sector_of d1 (di_start_sector e1 + m) = sector_of d (di_start_sector e + m)"
  shows "file_bytes d1 e1 = file_bytes d e"
proof (rule nth_equalityI)
  fix x assume "x < length (file_bytes d1 e1)"
  then have x: "x < di_len e" using assms(1) by (simp add: file_bytes_def)
  then have "x div SECTOR_SIZE < di_sector_count e" using assms(2) by (intro less_mult_imp_div_less) simp
  then have "sector_of d1 (di_start_sector e1 + x div SECTOR_SIZE) = sector_of d (di_start_sector e + x div SECTOR_SIZE)"
    by (rule assms(3))
  then show "file_bytes d1 e1 ! x = file_bytes d e ! x"
    using x assms(1) by (simp add: file_bytes_def gbyte_def SECTOR_SIZE_def)
qed (simp add: file_bytes_def assms(1))

definition grown :: "'d \<Rightarrow> inode \<Rightarrow> disk_inode \<Rightarrow> nat \<Rightarrow> 'd \<Rightarrow> disk_inode \<Rightarrow> bool" where
  "grown d i e needed d1 e1 \<longleftrightarrow>
     dev_ok d1 \<and> bd_sector_count bd d1 = bd_sector_count bd d \<and>
     (\<exists>c k. e1 = e\<lparr>di_start_sector := c, di_sector_count := k\<rparr>) \<and>
     di_sector_count e1 = max (di_sector_count e) needed \<and>
     file_ok (bd_sector_count bd d) e1 \<and> disk_inode_ok e1 \<and>
     (has_extent e1 \<longrightarrow> (\<forall>x\<in>other_extents bd d i. apart (extent_of e1) x)) \<and>
     (\<forall>m. \<not> (fst (extent_of e1) \<le> m \<and> m < snd (extent_of e1)) \<longrightarrow> sector_of d1 m = sector_of d m)"

lemma ensure_capacity_spec:
  assumes inv: "gfs_inv bd dev_ok d" and e: "read_inode bd i d = Inr e" "di_kind e = 1"
    and needed: "needed \<le> 2 ^ 55"
    and safe: "\<And>c. \<lbrakk>di_sector_count e < needed; find_extent bd needed i d = Inr c\<rbrakk> \<Longrightarrow>
      apart (c, c + needed) (extent_of e)"
  shows "(\<exists>d1 e1. ensure_capacity bd i e needed d = (d1, Inr e1) \<and> grown d i e needed d1 e1 \<and>
      file_bytes d1 e1 = file_bytes d e) \<or>
    (ensure_capacity bd i e needed d = (d, Inl NoSpace) \<and> di_sector_count e < needed \<and>
      find_extent bd needed i d = Inl NoSpace)"
proof -
  let ?n = "bd_sector_count bd d"
  have I: "dev_ok d" "?n < 2 ^ 32" "DATA_START + 1 < ?n" by (rule gfs_invD [OF inv])+
  note V = gfs_inv_valid [OF inv]
  have ex: "apart (extent_of e) x" if "has_extent e" "x \<in> other_extents bd d i" for x
    using gfs_invD(6) [OF inv not_sym e(1)] that unfolding other_extents_def by blast
  show ?thesis
  proof (cases "needed \<le> di_sector_count e")
    case True
    have "e = e\<lparr>di_start_sector := di_start_sector e, di_sector_count := di_sector_count e\<rparr>" by simp
    then have "grown d i e needed d e"
      unfolding grown_def using True I V(2,3) [OF e(1)] ex
      by (intro conjI allI impI ballI) (blast | simp add: max_def)+
    then show ?thesis using True by (simp add: ensure_capacity_def)
  next
    case False
    have fe: "case find_extent bd needed i d of
        Inr c \<Rightarrow> DATA_START \<le> c \<and> c + needed \<le> ?n \<and> (\<forall>x\<in>other_extents bd d i. apart (c, c + needed) x)
      | Inl err \<Rightarrow> err = NoSpace"
      using find_extent_spec [OF inv, of needed i] V(1) needed False by (auto split: sum.splits)
    show ?thesis
    proof (cases "find_extent bd needed i d")
      case (Inl err)
      then show ?thesis using fe False by (simp add: ensure_capacity_def)
    next
      case (Inr c)
      let ?e1 = "e\<lparr>di_start_sector := c, di_sector_count := needed\<rparr>"
      have c: "DATA_START \<le> c" "c + needed \<le> ?n" "\<And>x. x \<in> other_extents bd d i \<Longrightarrow> apart (c, c + needed) x"
        using fe Inr by auto
      have old: "di_start_sector e + di_sector_count e \<le> ?n" using V(3) [OF e(1)] e(2) by (simp add: file_ok_def extent_of_def)
      have "di_sector_count e * SECTOR_SIZE \<le> needed * SECTOR_SIZE" using False by (intro mult_le_mono1) simp
      then have len: "di_len e \<le> needed * SECTOR_SIZE"
        using V(3) [OF e(1)] e(2) unfolding file_ok_def by linarith
      have ap: "apart (c, c + needed) (extent_of e)" using safe False Inr by auto
      obtain d0 where d0: "zero_sectors bd c [0..<needed] d = (d0, Inr ())" "dev_ok d0" "bd_sector_count bd d0 = ?n"
        "sector_of d0 = (\<lambda>m. if \<exists>n\<in>set [0..<needed]. m = c + n then replicate SECTOR_SIZE 0 else sector_of d m)"
        using zero_sectors_spec [OF I(1), of "[0..<needed]" c] c(2) I(2) by auto
      obtain d1 where d1: "copy_sectors bd (di_start_sector e) c [0..<di_sector_count e] d0 = (d1, Inr ())" "dev_ok d1"
        "bd_sector_count bd d1 = ?n"
        "\<And>m. sector_of d1 m = (if \<exists>n\<in>set [0..<di_sector_count e]. m = c + n
           then sector_of d0 (di_start_sector e + (m - c)) else sector_of d0 m)"
        using copy_sectors_spec [OF d0(2), of "[0..<di_sector_count e]" "di_start_sector e" c]
          c(2) I(2) d0(3) old ap False by (auto simp: apart_def extent_of_def)
      have "ensure_capacity bd i e needed d = (d1, Inr ?e1)"
        using False Inr d0(1) d1(1) I(2) c(2) by (simp add: ensure_capacity_def sbind_ok)
      moreover have "sector_of d1 m = sector_of d m" if "\<not> (c \<le> m \<and> m < c + needed)" for m
        using that False by (auto simp: d1(4) d0(4))
      moreover have "file_ok ?n ?e1" "disk_inode_ok ?e1"
        using V(2,3) [OF e(1)] e(2) c(1,2) I(2) False len
        by (auto simp: file_ok_def disk_inode_ok_def extent_of_def has_extent_def)
      ultimately have "grown d i e needed d1 ?e1"
        unfolding grown_def using d1(2,3) False c(3) by (intro conjI) (auto simp: extent_of_def)
      moreover have "sector_of d1 (c + m) = sector_of d (di_start_sector e + m)" if "m < di_sector_count e" for m
        using that ap False by (auto simp: d1(4) d0(4) apart_def extent_of_def)
      then have "file_bytes d1 ?e1 = file_bytes d e"
        using V(3) [OF e(1)] e(2) by (intro moved_bytes) (auto simp: file_ok_def)
      ultimately show ?thesis using \<open>ensure_capacity bd i e needed d = (d1, Inr ?e1)\<close> by blast
    qed
  qed
qed

lemma file_in_device:
  assumes "file_ok (bd_sector_count bd d) e" and "di_kind e = 1"
  shows "(di_start_sector e + di_sector_count e) * SECTOR_SIZE \<le> dev_bytes d"
    and "di_start_sector e * SECTOR_SIZE + di_len e \<le> dev_bytes d"
proof -
  have e: "di_start_sector e + di_sector_count e \<le> bd_sector_count bd d"
    "di_len e \<le> di_sector_count e * SECTOR_SIZE"
    using assms by (auto simp: file_ok_def extent_of_def)
  then show "(di_start_sector e + di_sector_count e) * SECTOR_SIZE \<le> dev_bytes d"
    unfolding dev_bytes_def by (intro mult_le_mono1)
  then show "di_start_sector e * SECTOR_SIZE + di_len e \<le> dev_bytes d" using e(2) by (simp add: add_mult_distrib)
qed

lemma gfs_read_spec:
  assumes inv: "gfs_inv bd dev_ok d" and e: "read_inode bd i d = Inr e" "di_kind e = 1"
  shows "gfs_read bd d i off n = Inr (take n (drop off (file_bytes d e)))"
proof (cases "di_len e \<le> off")
  case True
  then show ?thesis using e by (simp add: gfs_read_def di_node_kind_def file_bytes_def)
next
  case False
  let ?s = "di_start_sector e * SECTOR_SIZE" and ?t = "min n (di_len e - off)"
  have "?s + di_len e \<le> dev_bytes d" by (rule file_in_device(2) [OF gfs_inv_valid(3) [OF inv e(1)] e(2)])
  then have "read_loop bd (di_start_sector e) off ?t d = Inr (map (gbyte d) [?s + off..<?s + off + ?t])"
    using gfs_invD(1,3) [OF inv] False by (intro read_loop_spec) auto
  moreover have "take n (drop off [?s..<?s + di_len e]) = [?s + off..<?s + off + ?t]"
    using False by (auto simp: min_def take_all_iff)
  ultimately show ?thesis
    using e False by (simp add: gfs_read_def di_node_kind_def file_bytes_def drop_map take_map)
qed

lemma sector_same:
  assumes "dev_ok d" "dev_ok d'" "bd_sector_count bd d' = bd_sector_count bd d" "m < bd_sector_count bd d"
    and "\<And>a. a div SECTOR_SIZE = m \<Longrightarrow> gbyte d' a = gbyte d a"
  shows "sector_of d' m = sector_of d m"
  unfolding sector_bytes [OF assms(1,4)] sector_bytes [OF assms(2) assms(4) [folded assms(3)]]
  by (intro map_cong refl assms(5) div_nat_eqI) (auto simp: mult.commute)

text \<open>The bytes of a file are in its extent.\<close>

lemma file_address:
  assumes "file_ok n e" and "di_kind e = 1" and "x < di_len e"
  shows "fst (extent_of e) \<le> (di_start_sector e * SECTOR_SIZE + x) div SECTOR_SIZE"
    and "(di_start_sector e * SECTOR_SIZE + x) div SECTOR_SIZE < snd (extent_of e)"
    and "has_extent e" and "DATA_START \<le> (di_start_sector e * SECTOR_SIZE + x) div SECTOR_SIZE"
proof -
  have x: "x < di_sector_count e * SECTOR_SIZE" using assms by (simp add: file_ok_def)
  have a: "(di_start_sector e * SECTOR_SIZE + x) div SECTOR_SIZE = di_start_sector e + x div SECTOR_SIZE"
    by (simp add: SECTOR_SIZE_def)
  show "fst (extent_of e) \<le> (di_start_sector e * SECTOR_SIZE + x) div SECTOR_SIZE"
    "(di_start_sector e * SECTOR_SIZE + x) div SECTOR_SIZE < snd (extent_of e)"
    using x unfolding a by (simp_all add: extent_of_def less_mult_imp_div_less)
  show h: "has_extent e" using x assms(2) by (cases "di_sector_count e") (auto simp: has_extent_def)
  then show "DATA_START \<le> (di_start_sector e * SECTOR_SIZE + x) div SECTOR_SIZE"
    using assms(1) unfolding a file_ok_def by simp
qed

lemma file_bytes_cong:
  assumes "di_start_sector f = di_start_sector e" "di_len f = di_len e"
    and "\<And>x. x < di_len e \<Longrightarrow>
      gbyte d' (di_start_sector e * SECTOR_SIZE + x) = gbyte d (di_start_sector e * SECTOR_SIZE + x)"
  shows "file_bytes d' f = file_bytes d e"
  unfolding file_bytes_def assms(1,2)
  using assms(3) by (intro map_cong refl) (metis add_diff_inverse_nat atLeastLessThan_iff nat_add_left_cancel_less
      not_less set_upt)

text \<open>
  The end of \<open>write\<close> and \<open>truncate\<close>: after the bytes of the file's extent were changed, the inode is
  written. Nothing else in the filesystem changes.
\<close>

lemma finish_file:
  assumes inv: "gfs_inv bd dev_ok d" and e: "read_inode bd i d = Inr e" "di_kind e = 1"
    and g: "grown d i e needed d1 e1" and d2: "dev_ok d2" "bd_sector_count bd d2 = bd_sector_count bd d"
    and out: "\<And>a. \<not> (fst (extent_of e1) \<le> a div SECTOR_SIZE \<and> a div SECTOR_SIZE < snd (extent_of e1)) \<Longrightarrow>
      gbyte d2 a = gbyte d1 a"
    and len: "len \<le> di_sector_count e1 * SECTOR_SIZE" "len < 2 ^ 64"
  shows "\<exists>d'. write_inode bd i (e1\<lparr>di_len := len\<rparr>) d2 = (d', Inr ()) \<and> gfs_inv bd dev_ok d' \<and>
    bd_sector_count bd d' = bd_sector_count bd d \<and>
    (\<forall>j. read_inode bd j d' = (if j = i then Inr (e1\<lparr>di_len := len\<rparr>) else read_inode bd j d)) \<and>
    file_bytes d' (e1\<lparr>di_len := len\<rparr>) = file_bytes d2 (e1\<lparr>di_len := len\<rparr>) \<and>
    (\<forall>j f. j \<noteq> i \<and> read_inode bd j d = Inr f \<and> di_kind f = 1 \<longrightarrow> file_bytes d' f = file_bytes d f)"
proof -
  let ?n = "bd_sector_count bd d" and ?f = "e1\<lparr>di_len := len\<rparr>"
  note I = gfs_invD [OF inv]
  have G: "dev_ok d1" "bd_sector_count bd d1 = ?n" "file_ok ?n e1" "disk_inode_ok e1"
    "has_extent e1 \<Longrightarrow> x \<in> other_extents bd d i \<Longrightarrow> apart (extent_of e1) x"
    "\<not> (fst (extent_of e1) \<le> m \<and> m < snd (extent_of e1)) \<Longrightarrow> sector_of d1 m = sector_of d m" for x m
    using g by (auto simp: grown_def)
  have k1: "di_kind e1 = 1" using g e(2) by (auto simp: grown_def)
  have outside: "gbyte d2 a = gbyte d a"
    if "\<not> (fst (extent_of e1) \<le> a div SECTOR_SIZE \<and> a div SECTOR_SIZE < snd (extent_of e1))" for a
    using out [OF that] G(6) [OF that] by (simp add: gbyte_def)
  have low: "\<not> (fst (extent_of e1) \<le> m \<and> m < snd (extent_of e1))" if "m < DATA_START" for m
    using that G(3) k1 by (cases "di_sector_count e1 = 0") (auto simp: file_ok_def has_extent_def extent_of_def)
  have tab: "read_inode bd j d2 = read_inode bd j d" for j
    using I(1,2) d2 low outside by (intro read_inode_cong sector_same) auto
  have f: "file_ok ?n ?f" "disk_inode_ok ?f" "extent_of ?f = extent_of e1" "has_extent ?f = has_extent e1"
    using G(3,4) len by (auto simp: file_ok_def disk_inode_ok_def extent_of_def has_extent_def)
  have i: "valid_inode i" by (rule gfs_inv_valid(1) [OF inv e(1)])
  obtain d' where d': "write_inode bd i ?f d2 = (d', Inr ())" "dev_ok d'" "bd_sector_count bd d' = ?n"
    "\<And>n. n \<noteq> inode_sector (i - 1) \<Longrightarrow> sector_of d' n = sector_of d2 n"
    "\<And>j. read_inode bd j d' = (if j = i then Inr ?f else read_inode bd j d2)"
    by (rule write_inode_step [OF d2(1) _ i f(2)]) (use d2(2) I(2) in auto)
  have high: "gbyte d' a = gbyte d2 a" if "DATA_START \<le> a div SECTOR_SIZE" for a
    using that inode_sector_bounds [OF i] d'(4) [of "a div SECTOR_SIZE"] by (auto simp: gbyte_def)
  have bytes: "file_bytes d' ?f = file_bytes d2 ?f"
    using file_address(4) [OF f(1)] k1 by (intro file_bytes_cong refl high) auto
  have other: "file_bytes d' h = file_bytes d h" if j: "j \<noteq> i" "read_inode bd j d = Inr h" "di_kind h = 1" for j h
  proof (rule file_bytes_cong [OF refl refl])
    fix x assume x: "x < di_len h"
    let ?a = "di_start_sector h * SECTOR_SIZE + x"
    note A = file_address [OF gfs_inv_valid(3) [OF inv j(2)] j(3) x]
    have "extent_of h \<in> other_extents bd d i" using j A(3) by (auto simp: other_extents_def)
    then have "\<not> (fst (extent_of e1) \<le> ?a div SECTOR_SIZE \<and> ?a div SECTOR_SIZE < snd (extent_of e1))"
      using G(5) [of "extent_of h"] A(1,2) k1 by (cases "has_extent e1") (auto simp: apart_def has_extent_def extent_of_def)
    then show "gbyte d' ?a = gbyte d ?a" using high [OF A(4)] outside by simp
  qed
  have "sector_of d' 0 = sector_of d 0"
    using d'(4) [of 0] inode_sector_bounds [OF i] I(1,2) d2 low [of 0] outside
    by (auto simp: DATA_START_def INODE_TABLE_START_def intro!: sector_same)
  then have super: "bd_read_sector bd d' 0 = Inr (gfs_superblock ?n)"
    using I(2,7) read_in [OF I(1), of 0] read_in [OF d'(2), of 0] d'(3) by simp
  have "gfs_inv bd dev_ok d'"
    unfolding gfs_inv_def d'(3,5) tab
  proof (intro conjI allI impI)
    show "\<exists>h. (if 1 = i then Inr ?f else read_inode bd 1 d) = Inr h \<and> di_kind h = 2" using I(5) e by auto
    show "\<exists>h. (if j = i then Inr ?f else read_inode bd j d) = Inr h \<and> file_ok ?n h" if "valid_inode j" for j
      using I(4) [OF that] f(1) by auto
    fix a b h k
    assume *: "a \<noteq> b \<and> (if a = i then Inr ?f else read_inode bd a d) = Inr h \<and>
      (if b = i then Inr ?f else read_inode bd b d) = Inr k \<and> has_extent h \<and> has_extent k"
    consider "a = i" "b \<noteq> i" | "a \<noteq> i" "b = i" | "a \<noteq> i" "b \<noteq> i" using * by blast
    then show "apart (extent_of h) (extent_of k)"
    proof cases
      case 1
      then have h: "h = ?f" "read_inode bd b d = Inr k" using * by auto
      have "apart (extent_of e1) (extent_of k)" using 1 h * f(4) by (intro G(5)) (auto simp: other_extents_def)
      then show ?thesis by (simp add: h f(3))
    next
      case 2
      then have h: "k = ?f" "read_inode bd a d = Inr h" using * by auto
      have "apart (extent_of e1) (extent_of h)" using 2 h * f(4) by (intro G(5)) (auto simp: other_extents_def)
      then have "apart (extent_of h) (extent_of e1)" by (auto simp: apart_def)
      then show ?thesis by (simp only: h(1) f(3))
    next
      case 3
      then show ?thesis using * by (intro I(6) [of a b]) simp_all
    qed
  qed (rule d'(2) I super)+
  moreover have "read_inode bd j d' = (if j = i then Inr ?f else read_inode bd j d)" for j
    by (simp only: d'(5) tab)
  ultimately show ?thesis using d'(1,3) bytes other by blast
qed

lemma zero_stage:
  assumes d: "dev_ok d" "bd_sector_count bd d < 2 ^ 64" and fits: "di_start_sector e * SECTOR_SIZE + off \<le> dev_bytes d"
  shows "\<exists>d'. (if di_len e < off then zero_range bd e (di_len e) off else sret ()) d = (d', Inr ()) \<and> dev_ok d' \<and>
    bd_sector_count bd d' = bd_sector_count bd d \<and>
    (\<forall>a. gbyte d' a =
      (if di_start_sector e * SECTOR_SIZE + di_len e \<le> a \<and> a < di_start_sector e * SECTOR_SIZE + off
       then 0 else gbyte d a))"
proof (cases "di_len e < off")
  case True
  let ?s = "di_start_sector e * SECTOR_SIZE + di_len e"
  have len: "?s + length (replicate (off - di_len e) (0 :: byte)) = di_start_sector e * SECTOR_SIZE + off"
    using True by simp
  obtain d' where d': "zero_loop bd (di_start_sector e) (di_len e) off d = (d', Inr ())" "dev_ok d'"
    "bd_sector_count bd d' = bd_sector_count bd d"
    "\<And>a. gbyte d' a = (if ?s \<le> a \<and> a < ?s + length (replicate (off - di_len e) (0 :: byte))
       then replicate (off - di_len e) 0 ! (a - ?s) else gbyte d a)"
    using write_loop_spec [OF d, of "di_start_sector e" "di_len e" "replicate (off - di_len e) 0"] fits
    unfolding zero_loop_write len by blast
  have "gbyte d' a = (if ?s \<le> a \<and> a < di_start_sector e * SECTOR_SIZE + off then 0 else gbyte d a)" for a
    unfolding d'(4) len using True by auto
  then show ?thesis using d'(1-3) True by (simp add: zero_range_def)
qed (use d in auto)

lemma write_stage:
  assumes d: "dev_ok d" "bd_sector_count bd d < 2 ^ 64"
    and fits: "di_start_sector e * SECTOR_SIZE + off + length data \<le> dev_bytes d"
  shows "\<exists>d'. sbind (if di_len e < off then zero_range bd e (di_len e) off else sret ())
      (\<lambda>_. write_loop bd (di_start_sector e) off data) d = (d', Inr ()) \<and> dev_ok d' \<and>
    bd_sector_count bd d' = bd_sector_count bd d \<and>
    (\<forall>a. gbyte d' a =
      (if di_start_sector e * SECTOR_SIZE + off \<le> a \<and> a < di_start_sector e * SECTOR_SIZE + off + length data
       then data ! (a - (di_start_sector e * SECTOR_SIZE + off))
       else if di_start_sector e * SECTOR_SIZE + di_len e \<le> a \<and> a < di_start_sector e * SECTOR_SIZE + off
       then 0 else gbyte d a))"
proof -
  have "di_start_sector e * SECTOR_SIZE + off \<le> dev_bytes d" using fits by simp
  from zero_stage [OF d this] obtain d1 where
    d1: "(if di_len e < off then zero_range bd e (di_len e) off else sret ()) d = (d1, Inr ())" "dev_ok d1"
    "bd_sector_count bd d1 = bd_sector_count bd d"
    "\<forall>a. gbyte d1 a =
      (if di_start_sector e * SECTOR_SIZE + di_len e \<le> a \<and> a < di_start_sector e * SECTOR_SIZE + off
       then 0 else gbyte d a)" by blast
  have "dev_bytes d1 = dev_bytes d" by (simp add: dev_bytes_def d1(3))
  with fits d(2) have "bd_sector_count bd d1 < 2 ^ 64"
    "di_start_sector e * SECTOR_SIZE + off + length data \<le> dev_bytes d1" by (simp_all add: d1(3))
  from write_loop_spec [OF d1(2) this] show ?thesis
    unfolding sbind_ok [where s = d and m = "if di_len e < off then zero_range bd e (di_len e) off else sret ()",
        OF d1(1)] d1(3) d1(4) [rule_format] by blast
qed

lemma splice_bytes:
  assumes "di_start_sector f = di_start_sector e1" "di_len f = max (di_len e1) (off + length data)"
    and new: "\<And>a. gbyte d2 a =
      (if di_start_sector e1 * SECTOR_SIZE + off \<le> a \<and> a < di_start_sector e1 * SECTOR_SIZE + off + length data
       then data ! (a - (di_start_sector e1 * SECTOR_SIZE + off))
       else if di_start_sector e1 * SECTOR_SIZE + di_len e1 \<le> a \<and> a < di_start_sector e1 * SECTOR_SIZE + off
       then 0 else gbyte d1 a)"
  shows "file_bytes d2 f = overwrite (file_bytes d1 e1) off data"
proof (rule nth_equalityI)
  let ?old = "file_bytes d1 e1" and ?s = "di_start_sector e1 * SECTOR_SIZE"
  have l: "length ?old = di_len e1" by (simp add: file_bytes_def)
  show len: "length (file_bytes d2 f) = length (overwrite ?old off data)"
    by (simp add: file_bytes_def assms(1,2) length_splice)
  fix x assume x: "x < length (file_bytes d2 f)"
  have "file_bytes d2 f ! x = gbyte d2 (?s + x)" using x by (simp add: file_bytes_def assms(1))
  also have "\<dots> = (if off \<le> x \<and> x < off + length data then data ! (x - off)
      else if x < di_len e1 then ?old ! x else 0)"
    using x assms(2) unfolding new by (auto simp: file_bytes_def)
  finally show "file_bytes d2 f ! x = overwrite ?old off data ! x"
    using nth_splice [of x ?old off data] x len l by simp
qed

lemma in_extent:
  assumes "di_start_sector e * SECTOR_SIZE \<le> a" and "a < (di_start_sector e + di_sector_count e) * SECTOR_SIZE"
  shows "fst (extent_of e) \<le> a div SECTOR_SIZE \<and> a div SECTOR_SIZE < snd (extent_of e)"
proof -
  have "a div SECTOR_SIZE < di_start_sector e + di_sector_count e" by (rule less_mult_imp_div_less [OF assms(2)])
  moreover have "di_start_sector e \<le> a div SECTOR_SIZE"
    using div_le_mono [OF assms(1), of SECTOR_SIZE] by (simp add: SECTOR_SIZE_def)
  ultimately show ?thesis by (simp add: extent_of_def)
qed

lemma open_file: "\<lbrakk>read_inode bd i d = Inr e; di_kind e = 1\<rbrakk> \<Longrightarrow> gfs_open_file bd i d = Inr e"
  by (simp add: gfs_open_file_def di_node_kind_def)

text \<open>What a successful change of the file \<open>i\<close> leaves behind.\<close>

definition file_changed :: "'d \<Rightarrow> 'd \<Rightarrow> inode \<Rightarrow> byte list \<Rightarrow> nat \<Rightarrow> bool" where
  "file_changed d d' i new sectors \<longleftrightarrow>
     gfs_inv bd dev_ok d' \<and> bd_sector_count bd d' = bd_sector_count bd d \<and>
     (\<forall>j. j \<noteq> i \<longrightarrow> read_inode bd j d' = read_inode bd j d) \<and>
     (\<exists>f. read_inode bd i d' = Inr f \<and> di_kind f = 1 \<and> file_bytes d' f = new \<and> di_sector_count f = sectors) \<and>
     (\<forall>j f. j \<noteq> i \<and> read_inode bd j d = Inr f \<and> di_kind f = 1 \<longrightarrow> file_bytes d' f = file_bytes d f)"

lemma write_after_growth:
  assumes inv: "gfs_inv bd dev_ok d" and e: "read_inode bd i d = Inr e" "di_kind e = 1"
    and bound: "off + length data \<le> 2 ^ 64 - 512"
    and ok: "ensure_capacity bd i e (sectors_for_len (off + length data)) d = (d1, Inr e1)"
      "grown d i e (sectors_for_len (off + length data)) d1 e1"
  shows "\<exists>d'. gfs_write bd d i off data = (d', Inr (length data)) \<and>
    file_changed d d' i (overwrite (file_bytes d1 e1) off data)
      (max (di_sector_count e) (sectors_for_len (off + length data)))"
proof -
  let ?upto = "off + length data" and ?n = "sectors_for_len (off + length data)"
  let ?s = "di_start_sector e1 * SECTOR_SIZE" and ?f = "e1\<lparr>di_len := max (di_len e1) (off + length data)\<rparr>"
  note S = sectors_for_len_bounds [OF bound] and I = gfs_invD [OF inv]
  have add: "usize_add off (length data) = Some ?upto" using bound by (simp add: usize_add_def)
  have G: "dev_ok d1" "bd_sector_count bd d1 = bd_sector_count bd d" "?n \<le> di_sector_count e1"
    "file_ok (bd_sector_count bd d) e1" "di_len e1 = di_len e" "di_kind e1 = 1"
    "di_sector_count e1 = max (di_sector_count e) ?n"
    using ok(2) e(2) by (auto simp: grown_def)
  have cap: "?upto \<le> di_sector_count e1 * SECTOR_SIZE" "di_len e \<le> di_sector_count e1 * SECTOR_SIZE"
    using order_trans [OF S(1) mult_le_mono1 [OF G(3)]] G(4-6) by (auto simp: file_ok_def)
  have "(di_start_sector e1 + di_sector_count e1) * SECTOR_SIZE \<le> dev_bytes d1"
    using file_in_device(1) [of d1 e1] G(2,4,6) by simp
  then have "?s + off + length data \<le> dev_bytes d1" using cap(1) by (simp add: add_mult_distrib)
  then obtain d2 where d2: "sbind (if di_len e1 < off then zero_range bd e1 (di_len e1) off else sret ())
      (\<lambda>_. write_loop bd (di_start_sector e1) off data) d1 = (d2, Inr ())" "dev_ok d2"
    "bd_sector_count bd d2 = bd_sector_count bd d"
    "\<And>a. gbyte d2 a = (if ?s + off \<le> a \<and> a < ?s + off + length data then data ! (a - (?s + off))
       else if ?s + di_len e1 \<le> a \<and> a < ?s + off then 0 else gbyte d1 a)"
    using write_stage [OF G(1), of e1 off data] G(2) I(3) by auto
  have out: "gbyte d2 a = gbyte d1 a"
    if "\<not> (fst (extent_of e1) \<le> a div SECTOR_SIZE \<and> a div SECTOR_SIZE < snd (extent_of e1))" for a
    using that in_extent [of e1 a] cap(1) unfolding d2(4) by (auto simp: add_mult_distrib)
  have "max (di_len e1) ?upto \<le> di_sector_count e1 * SECTOR_SIZE" "max (di_len e1) ?upto < 2 ^ 64"
    using cap G(5) bound gfs_inv_valid(2) [OF inv e(1)] by (auto simp: disk_inode_ok_def)
  from finish_file [OF inv e ok(2) d2(2,3) out this]
  obtain d' where d': "write_inode bd i ?f d2 = (d', Inr ())" "gfs_inv bd dev_ok d'"
    "\<And>j. read_inode bd j d' = (if j = i then Inr ?f else read_inode bd j d)"
    "file_bytes d' ?f = file_bytes d2 ?f"
    "\<And>j f. j \<noteq> i \<Longrightarrow> read_inode bd j d = Inr f \<Longrightarrow> di_kind f = 1 \<Longrightarrow> file_bytes d' f = file_bytes d f"
    "bd_sector_count bd d' = bd_sector_count bd d"
    by blast
  have "file_bytes d2 ?f = overwrite (file_bytes d1 e1) off data"
    using d2(4) by (intro splice_bytes [of _ e1]) simp_all
  then have "file_changed d d' i (overwrite (file_bytes d1 e1) off data)
      (max (di_sector_count e) (sectors_for_len (off + length data)))"
    unfolding file_changed_def using d' G(6,7) by auto
  moreover have "gfs_write bd d i off data = (d', Inr (length data))"
    using open_file [OF e] ok(1) d2(1) d'(1)
    by (cases "di_len e1 < off") (auto simp: gfs_write_def add sbind_def sget_def split: prod.splits sum.splits)
  ultimately show ?thesis by blast
qed

lemma gfs_write_spec:
  assumes inv: "gfs_inv bd dev_ok d" and e: "read_inode bd i d = Inr e" "di_kind e = 1"
    and bound: "off + length data \<le> 2 ^ 64 - 512"
    and safe: "growth_safe bd d i e (sectors_for_len (off + length data))"
  shows "(\<exists>d'. gfs_write bd d i off data = (d', Inr (length data)) \<and>
      file_changed d d' i (overwrite (file_bytes d e) off data)
        (max (di_sector_count e) (sectors_for_len (off + length data)))) \<or>
    (gfs_write bd d i off data = (d, Inl NoSpace) \<and> di_sector_count e < sectors_for_len (off + length data) \<and>
      find_extent bd (sectors_for_len (off + length data)) i d = Inl NoSpace)"
proof -
  let ?n = "sectors_for_len (off + length data)"
  consider (full) "ensure_capacity bd i e ?n d = (d, Inl NoSpace)" "di_sector_count e < ?n"
      "find_extent bd ?n i d = Inl NoSpace"
    | (ok) d1 e1 where "ensure_capacity bd i e ?n d = (d1, Inr e1)" "grown d i e ?n d1 e1"
      "file_bytes d1 e1 = file_bytes d e"
    using ensure_capacity_spec [OF inv e sectors_for_len_bounds(2) [OF bound]] safe
    unfolding growth_safe_def by (metis not_less)
  then show ?thesis
  proof cases
    case full
    moreover have "usize_add off (length data) = Some (off + length data)" using bound by (simp add: usize_add_def)
    ultimately show ?thesis using open_file [OF e] by (simp add: gfs_write_def sbind_err)
  next
    case ok
    then show ?thesis using write_after_growth [OF inv e bound] by metis
  qed
qed

lemma gfs_truncate_spec:
  assumes inv: "gfs_inv bd dev_ok d" and e: "read_inode bd i d = Inr e" "di_kind e = 1"
    and bound: "len \<le> 2 ^ 64 - 512" and safe: "growth_safe bd d i e (sectors_for_len len)"
  shows "(\<exists>d'. gfs_truncate bd d i len = (d', Inr ()) \<and> file_changed d d' i (resize (file_bytes d e) len)
        (max (di_sector_count e) (sectors_for_len len))) \<or>
    (gfs_truncate bd d i len = (d, Inl NoSpace) \<and> di_sector_count e < sectors_for_len len \<and>
      find_extent bd (sectors_for_len len) i d = Inl NoSpace)"
proof -
  let ?n = "sectors_for_len len"
  note S = sectors_for_len_bounds [OF bound] and I = gfs_invD [OF inv]
  consider (full) "ensure_capacity bd i e ?n d = (d, Inl NoSpace)" "di_sector_count e < ?n"
      "find_extent bd ?n i d = Inl NoSpace"
    | (ok) d1 e1 where "ensure_capacity bd i e ?n d = (d1, Inr e1)" "grown d i e ?n d1 e1"
      "file_bytes d1 e1 = file_bytes d e"
    using ensure_capacity_spec [OF inv e S(2)] safe unfolding growth_safe_def by (metis not_less)
  then show ?thesis
  proof cases
    case full
    then show ?thesis using open_file [OF e] by (simp add: gfs_truncate_def sbind_err)
  next
    case ok
    let ?s = "di_start_sector e1 * SECTOR_SIZE"
    have G: "dev_ok d1" "bd_sector_count bd d1 = bd_sector_count bd d" "?n \<le> di_sector_count e1"
      "file_ok (bd_sector_count bd d) e1" "di_len e1 = di_len e" "di_kind e1 = 1"
      "di_sector_count e1 = max (di_sector_count e) ?n"
      using ok(2) e(2) by (auto simp: grown_def)
    have cap: "len \<le> di_sector_count e1 * SECTOR_SIZE" by (rule order_trans [OF S(1) mult_le_mono1 [OF G(3)]])
    have dev: "(di_start_sector e1 + di_sector_count e1) * SECTOR_SIZE \<le> dev_bytes d1"
      using file_in_device(1) [of d1 e1] G(2,4,6) by simp
    then have "?s + len \<le> dev_bytes d1" using cap by (simp add: add_mult_distrib)
    then obtain d2 where d2: "(if di_len e1 < len then zero_range bd e1 (di_len e1) len else sret ()) d1 = (d2, Inr ())"
      "dev_ok d2" "bd_sector_count bd d2 = bd_sector_count bd d"
      "\<And>a. gbyte d2 a = (if ?s + di_len e1 \<le> a \<and> a < ?s + len then 0 else gbyte d1 a)"
      using zero_stage [OF G(1), of e1 len] G(2) I(3) by auto
    have out: "gbyte d2 a = gbyte d1 a"
      if "\<not> (fst (extent_of e1) \<le> a div SECTOR_SIZE \<and> a div SECTOR_SIZE < snd (extent_of e1))" for a
      using that in_extent [of e1 a] cap unfolding d2(4) by (auto simp: add_mult_distrib)
    let ?f = "e1\<lparr>di_len := len\<rparr>"
    have "len < 2 ^ 64" using bound by simp
    from finish_file [OF inv e ok(2) d2(2,3) out cap this]
    obtain d' where d': "write_inode bd i ?f d2 = (d', Inr ())" "gfs_inv bd dev_ok d'"
      "\<And>j. read_inode bd j d' = (if j = i then Inr ?f else read_inode bd j d)"
      "file_bytes d' ?f = file_bytes d2 ?f"
      "\<And>j f. j \<noteq> i \<Longrightarrow> read_inode bd j d = Inr f \<Longrightarrow> di_kind f = 1 \<Longrightarrow> file_bytes d' f = file_bytes d f"
      "bd_sector_count bd d' = bd_sector_count bd d"
      by blast
    have "file_bytes d2 ?f = resize (file_bytes d e) len"
    proof (rule nth_equalityI)
      show len: "length (file_bytes d2 ?f) = length (resize (file_bytes d e) len)"
        by (simp add: file_bytes_def resize_def)
      fix x assume "x < length (file_bytes d2 ?f)"
      then show "file_bytes d2 ?f ! x = resize (file_bytes d e) len ! x"
        unfolding ok(3) [symmetric] using G(5)
        by (auto simp: file_bytes_def resize_def d2(4) nth_append)
    qed
    then have "file_changed d d' i (resize (file_bytes d e) len) (max (di_sector_count e) ?n)"
      unfolding file_changed_def using d' G(6,7) by auto
    moreover have "gfs_truncate bd d i len = (d', Inr ())"
      using open_file [OF e] ok(1) d2(1) d'(1)
      by (cases "di_len e1 < len") (simp_all add: gfs_truncate_def sbind_def sget_def)
    ultimately show ?thesis by blast
  qed
qed

text \<open>
  The other case of growth: the extent that is chosen contains the old one. The sectors are zeroed
  before they are copied, so that nothing of the file is left.
\<close>

lemma copy_zeroed:
  assumes "dev_ok d" "bd_sector_count bd d < 2 ^ 64" "new + needed \<le> bd_sector_count bd d"
    and "\<And>n. n \<in> set ns \<Longrightarrow> new \<le> old + n \<and> old + n < new + needed \<and> n < needed"
    and "\<And>m. \<lbrakk>new \<le> m; m < new + needed\<rbrakk> \<Longrightarrow> sector_of d m = replicate SECTOR_SIZE 0"
  shows "\<exists>d'. copy_sectors bd old new ns d = (d', Inr ()) \<and> dev_ok d' \<and>
    bd_sector_count bd d' = bd_sector_count bd d \<and> sector_of d' = sector_of d"
  using assms
proof (induction ns arbitrary: d)
  case (Cons n ns)
  have n: "old + n < bd_sector_count bd d" "new + n < bd_sector_count bd d"
    "new \<le> old + n" "old + n < new + needed" "n < needed" using Cons.prems(3) Cons.prems(4) [of n] by auto
  then have add: "u64_add old n = old + n" "u64_add new n = new + n"
    using Cons.prems(2) by (auto intro!: u64_add_small)
  have z: "sector_of d (old + n) = replicate SECTOR_SIZE 0" "sector_of d (new + n) = replicate SECTOR_SIZE 0"
    using Cons.prems(5) n by auto
  obtain d1 where d1: "gfs_write_sector bd (new + n) (sector_of d (old + n)) d = (d1, Inr ())" "dev_ok d1"
    "bd_sector_count bd d1 = bd_sector_count bd d" "sector_of d1 = (sector_of d)(new + n := sector_of d (old + n))"
    using gfs_write_in [OF Cons.prems(1) n(2) sector_length [OF Cons.prems(1) n(1)]] by blast
  then have "sector_of d1 = sector_of d" using z by (simp add: fun_upd_idem)
  then obtain d' where "copy_sectors bd old new ns d1 = (d', Inr ())" "dev_ok d'"
    "bd_sector_count bd d' = bd_sector_count bd d" "sector_of d' = sector_of d"
    using Cons.IH [OF d1(2)] Cons.prems d1(3) by auto
  then show ?case using d1(1) gfs_read_in [OF Cons.prems(1) n(1)] by (auto simp: add sbind_ok)
qed auto

lemma ensure_capacity_loses:
  assumes inv: "gfs_inv bd dev_ok d" and e: "read_inode bd i d = Inr e" "di_kind e = 1"
    and needed: "di_sector_count e < needed" "needed \<le> 2 ^ 55"
    and c: "find_extent bd needed i d = Inr c" "c \<le> di_start_sector e"
      "di_start_sector e + di_sector_count e \<le> c + needed"
  shows "\<exists>d1 e1. ensure_capacity bd i e needed d = (d1, Inr e1) \<and> grown d i e needed d1 e1 \<and>
    file_bytes d1 e1 = replicate (di_len e) 0"
proof -
  let ?n = "bd_sector_count bd d"
  note I = gfs_invD [OF inv]
  have fit: "DATA_START \<le> c" "c + needed \<le> ?n" "\<forall>x\<in>other_extents bd d i. apart (c, c + needed) x"
    using find_extent_spec [OF inv, of needed i] gfs_inv_valid(1) [OF inv] needed c(1) by (auto split: sum.splits)
  have len: "di_len e \<le> di_sector_count e * SECTOR_SIZE"
    using gfs_inv_valid(3) [OF inv e(1)] e(2) by (simp add: file_ok_def)
  obtain d0 where d0: "zero_sectors bd c [0..<needed] d = (d0, Inr ())" "dev_ok d0" "bd_sector_count bd d0 = ?n"
    "sector_of d0 = (\<lambda>m. if \<exists>n\<in>set [0..<needed]. m = c + n then replicate SECTOR_SIZE 0 else sector_of d m)"
    using zero_sectors_spec [OF I(1), of "[0..<needed]" c] fit I(3) by auto
  have z: "sector_of d0 m = replicate SECTOR_SIZE 0" if "c \<le> m" "m < c + needed" for m
    using that bexI [of "\<lambda>n. m = c + n" "m - c" "set [0..<needed]"] unfolding d0(4) by simp
  obtain d1 where d1: "copy_sectors bd (di_start_sector e) c [0..<di_sector_count e] d0 = (d1, Inr ())"
    "sector_of d1 = sector_of d0" "dev_ok d1" "bd_sector_count bd d1 = ?n"
    using copy_zeroed [OF d0(2), of c needed "[0..<di_sector_count e]" "di_start_sector e"] z c needed fit I(3) d0(3)
    by auto
  let ?e1 = "e\<lparr>di_start_sector := c, di_sector_count := needed\<rparr>"
  have "ensure_capacity bd i e needed d = (d1, Inr ?e1)"
    using needed c(1) d0(1) d1(1) fit I(3) by (simp add: ensure_capacity_def sbind_ok)
  moreover have "file_ok ?n ?e1" "disk_inode_ok ?e1"
    using gfs_inv_valid(2,3) [OF inv e(1)] e(2) fit(1,2) I(3) needed(1)
      order_trans [OF len mult_le_mono1 [of "di_sector_count e" needed]]
    by (auto simp: file_ok_def disk_inode_ok_def extent_of_def has_extent_def)
  then have "grown d i e needed d1 ?e1"
    unfolding grown_def using d1(2-4) d0(4) needed(1) fit(3) by (intro conjI) (auto simp: extent_of_def)
  moreover have "file_bytes d1 ?e1 = replicate (di_len e) 0"
  proof (rule nth_equalityI)
    fix x assume "x < length (file_bytes d1 ?e1)"
    then have x: "x < di_len e" by (simp add: file_bytes_def)
    then have "x div SECTOR_SIZE < di_sector_count e" using len by (intro less_mult_imp_div_less) simp
    then have "sector_of d1 (c + x div SECTOR_SIZE) = replicate SECTOR_SIZE 0"
      unfolding d1(2) using needed by (intro z) auto
    then show "file_bytes d1 ?e1 ! x = replicate (di_len e) 0 ! x"
      using x by (simp add: file_bytes_def gbyte_def SECTOR_SIZE_def)
  qed (simp add: file_bytes_def)
  ultimately show ?thesis by blast
qed

lemma gfs_write_loses:
  assumes inv: "gfs_inv bd dev_ok d" and e: "read_inode bd i d = Inr e" "di_kind e = 1"
    and bound: "off + length data \<le> 2 ^ 64 - 512" and more: "di_sector_count e < sectors_for_len (off + length data)"
    and c: "find_extent bd (sectors_for_len (off + length data)) i d = Inr c" "c \<le> di_start_sector e"
      "di_start_sector e + di_sector_count e \<le> c + sectors_for_len (off + length data)"
  shows "\<exists>d'. gfs_write bd d i off data = (d', Inr (length data)) \<and>
    file_changed d d' i (overwrite (replicate (di_len e) 0) off data)
      (sectors_for_len (off + length data))"
proof -
  obtain d1 e1 where g: "ensure_capacity bd i e (sectors_for_len (off + length data)) d = (d1, Inr e1)"
    "grown d i e (sectors_for_len (off + length data)) d1 e1" "file_bytes d1 e1 = replicate (di_len e) 0"
    using ensure_capacity_loses [OF inv e more sectors_for_len_bounds(2) [OF bound] c] by blast
  show ?thesis using write_after_growth [OF inv e bound g(1,2)] g(3) more by (simp add: max_def)
qed

end

end
