(* ===== verification/Generic_Fs_Tree.thy ===== *)
theory Generic_Fs_Tree
  imports Generic_Fs_Write
begin

text \<open>
  Formatting, mounting, and the directory operations of \<open>GenericFs\<close> on a working device.
\<close>

section \<open>Names\<close>

lemma str_bytes [simp]: "str_of_bytes (bytes_of_str s) = s"
proof -
  have "char_of (unat (of_nat (of_char c) :: byte)) = c" for c
    by (simp add: unat_of_nat)
  then show ?thesis by (simp add: str_of_bytes_def bytes_of_str_def comp_def)
qed

lemma length_bytes_of_str [simp]: "length (bytes_of_str s) = length s"
  by (simp add: bytes_of_str_def)

lemma di_empty_sel:
  "di_kind di_empty = 0" "di_sector_count di_empty = 0" "di_start_sector di_empty = 0" "di_len di_empty = 0"
  by (simp_all add: di_empty_def)

text \<open>The bytes of a \<open>str\<close> are UTF-8.\<close>

definition utf8_str :: "string \<Rightarrow> bool" where
  "utf8_str s \<longleftrightarrow> from_utf8 (bytes_of_str s) \<noteq> None"

lemma new_entry_name:
  assumes "length n \<le> MAX_DISK_NAME" and "utf8_str n"
  shows "di_name_str (new_entry p n k) = Inr n"
proof -
  have "take (length n) (put_field (replicate 64 0) 0 (bytes_of_str n)) = bytes_of_str n"
    by (simp add: put_field_def)
  then show ?thesis
    using assms by (auto simp: di_name_str_def new_entry_def di_empty_def MAX_DISK_NAME_def utf8_str_def
        split: option.splits)
qed

lemma new_entry_ok:
  assumes "length n \<le> MAX_DISK_NAME" and "k \<le> 2" and "p < 2 ^ 64"
  shows "disk_inode_ok (new_entry p n k)"
  using assms by (simp add: disk_inode_ok_def new_entry_def di_empty_def MAX_DISK_NAME_def put_field_def)

text \<open>Which inode is the entry \<open>n\<close> of the directory \<open>p\<close>.\<close>

definition is_entry :: "'d block_ops \<Rightarrow> 'd \<Rightarrow> inode \<Rightarrow> string \<Rightarrow> inode \<Rightarrow> bool" where
  "is_entry bd d p n i \<longleftrightarrow>
     i \<noteq> 1 \<and> (\<exists>e. read_inode bd i d = Inr e \<and> di_kind e \<noteq> 0 \<and> di_parent e = p \<and> di_name_str e = Inr n)"

definition gfs_names :: "'d block_ops \<Rightarrow> 'd \<Rightarrow> bool" where
  "gfs_names bd d \<longleftrightarrow>
     (\<forall>i e. i \<noteq> 1 \<and> read_inode bd i d = Inr e \<and> di_kind e \<noteq> 0 \<longrightarrow> (\<exists>n. di_name_str e = Inr n)) \<and>
     (\<forall>p n i j. is_entry bd d p n i \<and> is_entry bd d p n j \<longrightarrow> i = j)"

lemma find_child_loop_spec:
  assumes "\<And>i. i \<in> set is \<Longrightarrow> i \<noteq> 1 \<and> (\<exists>e. read_inode bd i d = Inr e \<and> (di_kind e \<noteq> 0 \<longrightarrow> (\<exists>n. di_name_str e = Inr n)))"
  shows "find_child_loop bd p n is d = ok_or (find (is_entry bd d p n) is) NotFound"
  using assms
proof (induction "is")
  case (Cons i "is")
  obtain e where e: "read_inode bd i d = Inr e" "di_kind e \<noteq> 0 \<longrightarrow> (\<exists>n. di_name_str e = Inr n)" "i \<noteq> 1"
    using Cons.prems [of i] by auto
  show ?case
  proof (cases "di_kind e \<noteq> 0 \<and> di_parent e = p")
    case True
    then obtain m where "di_name_str e = Inr m" using e(2) by blast
    then show ?thesis using True e Cons by (auto simp: is_entry_def)
  next
    case False
    then have "\<not> is_entry bd d p n i" using e(1) by (auto simp: is_entry_def)
    then show ?thesis using False e(1) Cons by auto
  qed
qed simp

lemma find_unique:
  assumes "\<And>x y. \<lbrakk>P x; P y\<rbrakk> \<Longrightarrow> x = y" and "\<And>x. P x \<Longrightarrow> x \<in> set xs"
  shows "find P xs = Some i \<longleftrightarrow> P i"
proof
  assume i: "P i"
  then obtain j where "find P xs = Some j" using assms(2) by (cases "find P xs") (auto simp: find_None_iff)
  then show "find P xs = Some i" using i assms(1) [of i j] by (auto simp: find_Some_iff)
qed (auto simp: find_Some_iff)

lemma find_child_spec:
  assumes inv: "gfs_inv bd ok d" and names: "gfs_names bd d" and valid: "\<And>j e. read_inode bd j d = Inr e \<Longrightarrow> valid_inode j"
  shows "find_child bd p n d = Inr i \<longleftrightarrow> is_entry bd d p n i"
    and "find_child bd p n d = Inl e \<longleftrightarrow> e = NotFound \<and> (\<forall>i. \<not> is_entry bd d p n i)"
proof -
  have loop: "find_child bd p n d = ok_or (find (is_entry bd d p n) inode_range) NotFound"
    unfolding find_child_def
  proof (rule find_child_loop_spec)
    fix i assume "i \<in> set inode_range"
    then have i: "valid_inode i" "i \<noteq> 1" using inode_range_valid [of i] by blast+
    then show "i \<noteq> 1 \<and> (\<exists>e. read_inode bd i d = Inr e \<and> (di_kind e \<noteq> 0 \<longrightarrow> (\<exists>n. di_name_str e = Inr n)))"
      using gfs_invD(4) [OF inv i(1)] names unfolding gfs_names_def by blast
  qed
  have range: "i \<in> set inode_range" if "is_entry bd d p n i" for i
    using that valid unfolding inode_range_valid is_entry_def by blast
  have uniq: "i = j" if "is_entry bd d p n i" "is_entry bd d p n j" for i j
    using names that unfolding gfs_names_def by blast
  have some: "find (is_entry bd d p n) inode_range = Some i \<longleftrightarrow> is_entry bd d p n i" for i
    by (rule find_unique [OF uniq range])
  show "find_child bd p n d = Inr i \<longleftrightarrow> is_entry bd d p n i" by (simp only: loop ok_or_eq_Inr some)
  show "find_child bd p n d = Inl e \<longleftrightarrow> e = NotFound \<and> (\<forall>i. \<not> is_entry bd d p n i)"
    unfolding loop ok_or_eq_Inl using some by (metis not_None_eq)
qed

lemma allocate_inode_spec:
  assumes inv: "gfs_inv bd ok d"
  shows "(\<exists>i e. allocate_inode bd d = Inr i \<and> valid_inode i \<and> i \<noteq> 1 \<and> read_inode bd i d = Inr e \<and> di_kind e = 0) \<or>
    (allocate_inode bd d = Inl NoSpace \<and>
      (\<forall>i e. valid_inode i \<and> i \<noteq> 1 \<and> read_inode bd i d = Inr e \<longrightarrow> di_kind e \<noteq> 0))"
proof -
  have loop: "(\<exists>i e. allocate_inode_loop bd is d = Inr i \<and> i \<in> set is \<and> read_inode bd i d = Inr e \<and> di_kind e = 0) \<or>
      (allocate_inode_loop bd is d = Inl NoSpace \<and>
        (\<forall>i e. i \<in> set is \<and> read_inode bd i d = Inr e \<longrightarrow> di_kind e \<noteq> 0))"
    if "\<And>i. i \<in> set is \<Longrightarrow> valid_inode i" for "is"
    using that
  proof (induction "is")
    case (Cons i "is")
    obtain e where "read_inode bd i d = Inr e" using gfs_invD(4) [OF inv Cons.prems [of i]] by auto
    then show ?case using Cons by (cases "di_kind e = 0") auto
  qed simp
  have r: "i \<in> set inode_range \<longleftrightarrow> valid_inode i \<and> i \<noteq> 1" for i by (rule inode_range_valid)
  show ?thesis unfolding allocate_inode_def using loop [of inode_range] unfolding r by blast
qed

context block_device
begin

text \<open>Writing an inode without data keeps the files.\<close>

lemma write_dataless:
  assumes inv: "gfs_inv bd dev_ok d" and i: "valid_inode i" "i \<noteq> 1" and f: "disk_inode_ok f" "di_sector_count f = 0"
    "di_start_sector f = 0" "di_len f = 0"
  obtains d' where "write_inode bd i f d = (d', Inr ())" and "gfs_inv bd dev_ok d'"
    and "\<And>j. read_inode bd j d' = (if j = i then Inr f else read_inode bd j d)"
    and "\<And>j g. \<lbrakk>j \<noteq> i; read_inode bd j d = Inr g; di_kind g = 1\<rbrakk> \<Longrightarrow> file_bytes d' g = file_bytes d g"
    and "bd_sector_count bd d' = bd_sector_count bd d"
proof -
  note I = gfs_invD [OF inv]
  obtain d' where d': "write_inode bd i f d = (d', Inr ())" "dev_ok d'"
    "bd_sector_count bd d' = bd_sector_count bd d"
    "\<And>n. n \<noteq> inode_sector (i - 1) \<Longrightarrow> sector_of d' n = sector_of d n"
    "\<And>j. read_inode bd j d' = (if j = i then Inr f else read_inode bd j d)"
    using write_inode_step [OF I(1) _ i(1) f(1)] I(2) by (metis add.commute add_lessD1 less_imp_le)
  have ok: "file_ok n f" "\<not> has_extent f" for n using f by (auto simp: file_ok_def has_extent_def extent_of_def)
  have "sector_of d' 0 = sector_of d 0" using d'(4) [of 0] inode_sector_bounds [OF i(1)] by auto
  then have super: "bd_read_sector bd d' 0 = Inr (gfs_superblock (bd_sector_count bd d))"
    using I(2,7) read_in [OF I(1), of 0] read_in [OF d'(2), of 0] d'(3) by simp
  have inv': "gfs_inv bd dev_ok d'"
    unfolding gfs_inv_def d'(3,5)
  proof (intro conjI allI impI)
    show "\<exists>h. (if 1 = i then Inr f else read_inode bd 1 d) = Inr h \<and> di_kind h = 2" using I(5) i(2) by auto
    show "\<exists>h. (if j = i then Inr f else read_inode bd j d) = Inr h \<and> file_ok (bd_sector_count bd d) h"
      if "valid_inode j" for j using I(4) [OF that] ok(1) by auto
    fix a b h k
    assume *: "a \<noteq> b \<and> (if a = i then Inr f else read_inode bd a d) = Inr h \<and>
      (if b = i then Inr f else read_inode bd b d) = Inr k \<and> has_extent h \<and> has_extent k"
    then have "a \<noteq> i" "b \<noteq> i" using ok(2) by (auto split: if_splits)
    with * show "apart (extent_of h) (extent_of k)" by (intro I(6) [of a b]) simp_all
  qed (rule d'(2) I super)+
  moreover have "file_bytes d' g = file_bytes d g" if "j \<noteq> i" "read_inode bd j d = Inr g" "di_kind g = 1" for j g
  proof (rule file_bytes_cong [OF refl refl])
    fix x assume "x < di_len g"
    from file_address(4) [OF gfs_inv_valid(3) [OF inv that(2)] that(3) this]
    show "gbyte d' (di_start_sector g * SECTOR_SIZE + x) = gbyte d (di_start_sector g * SECTOR_SIZE + x)"
      using inode_sector_bounds [OF i(1)] d'(4) by (auto simp: gbyte_def)
  qed
  ultimately show ?thesis using that d'(1,3,5) by blast
qed

lemma read_valid: "gfs_inv bd dev_ok d \<Longrightarrow> read_inode bd j d = Inr e \<Longrightarrow> valid_inode j"
  by (rule gfs_inv_valid(1))

lemma find_child_on:
  assumes "gfs_inv bd dev_ok d" and "gfs_names bd d"
  shows "find_child bd p n d = Inr i \<longleftrightarrow> is_entry bd d p n i"
    and "find_child bd p n d = Inl e \<longleftrightarrow> e = NotFound \<and> (\<forall>i. \<not> is_entry bd d p n i)"
  by (rule find_child_spec [OF assms], erule read_valid [OF assms(1)])+

lemma gfs_create_spec:
  assumes inv: "gfs_inv bd dev_ok d" and names: "gfs_names bd d"
    and p: "read_inode bd p d = Inr pe" "di_kind pe = 2"
    and n: "validate_disk_name n = Inr ()" "utf8_str n" and k: "k = 1 \<or> k = 2"
  shows "(gfs_create bd k p n d = (d, Inl AlreadyExists) \<and> (\<exists>i. is_entry bd d p n i)) \<or>
    (gfs_create bd k p n d = (d, Inl NoSpace) \<and> allocate_inode bd d = Inl NoSpace) \<or>
    (\<exists>d' i. gfs_create bd k p n d = (d', Inr i) \<and> (\<forall>j. \<not> is_entry bd d p n j) \<and>
      valid_inode i \<and> i \<noteq> 1 \<and> (\<exists>e. read_inode bd i d = Inr e \<and> di_kind e = 0) \<and>
      gfs_inv bd dev_ok d' \<and> gfs_names bd d' \<and> bd_sector_count bd d' = bd_sector_count bd d \<and>
      (\<forall>j. read_inode bd j d' = (if j = i then Inr (new_entry p n k) else read_inode bd j d)) \<and>
      (\<forall>q m j. is_entry bd d' q m j \<longleftrightarrow> is_entry bd d q m j \<or> (q = p \<and> m = n \<and> j = i)) \<and>
      (\<forall>j g. j \<noteq> i \<and> read_inode bd j d = Inr g \<and> di_kind g = 1 \<longrightarrow> file_bytes d' g = file_bytes d g))"
proof -
  have pk: "rbind (read_inode bd p d) di_node_kind = Inr Directory" using p by (simp add: di_node_kind_def)
  have len: "length n \<le> MAX_DISK_NAME" using n(1) by (auto simp: validate_disk_name_def split: if_splits)
  have pv: "p < 2 ^ 64" using gfs_inv_valid(1) [OF inv p(1)] by (simp add: valid_inode_def INODE_COUNT_def)
  note F = find_child_on [OF inv names]
  show ?thesis
  proof (cases "\<exists>i. is_entry bd d p n i")
    case True
    then obtain i where "find_child bd p n d = Inr i" using F(1) by blast
    then have "gfs_create bd k p n d = (d, Inl AlreadyExists)" using n(1) pk by (simp add: gfs_create_def)
    then show ?thesis using True by blast
  next
    case False
    then have nf: "find_child bd p n d = Inl NotFound" using F(2) by blast
    consider (full) "allocate_inode bd d = Inl NoSpace"
      | (free) i e where "allocate_inode bd d = Inr i" "valid_inode i" "i \<noteq> 1" "read_inode bd i d = Inr e" "di_kind e = 0"
      using allocate_inode_spec [OF inv] by blast
    then show ?thesis
    proof cases
      case full
      then have "gfs_create bd k p n d = (d, Inl NoSpace)" using n(1) pk nf by (simp add: gfs_create_def)
      then show ?thesis using full by blast
    next
      case free
      let ?f = "new_entry p n k"
      have f: "disk_inode_ok ?f" "di_sector_count ?f = 0" "di_start_sector ?f = 0" "di_len ?f = 0"
        "di_kind ?f = k" "di_parent ?f = p" "di_name_str ?f = Inr n"
        using new_entry_ok [OF len _ pv, of k] new_entry_name [OF len n(2)] k by (auto simp: new_entry_def di_empty_def)
      obtain d' where d': "write_inode bd i ?f d = (d', Inr ())" "gfs_inv bd dev_ok d'"
        "\<And>j. read_inode bd j d' = (if j = i then Inr ?f else read_inode bd j d)"
        "\<And>j g. \<lbrakk>j \<noteq> i; read_inode bd j d = Inr g; di_kind g = 1\<rbrakk> \<Longrightarrow> file_bytes d' g = file_bytes d g"
        "bd_sector_count bd d' = bd_sector_count bd d"
        using write_dataless [OF inv free(2,3) f(1-4)] by blast
      have c: "gfs_create bd k p n d = (d', Inr i)"
        using n(1) pk nf free(1) d'(1) by (simp add: gfs_create_def sbind_ok)
      have old: "\<not> is_entry bd d q m i" for q m using free(4,5) by (auto simp: is_entry_def)
      have ent: "is_entry bd d' q m j \<longleftrightarrow> is_entry bd d q m j \<or> (q = p \<and> m = n \<and> j = i)" for q m j
        using old [of q m] f(5-7) k free(3) by (cases "j = i") (auto simp: is_entry_def d'(3))
      have uniq: "x = y" if "is_entry bd d q m x" "is_entry bd d q m y" for q m x y
        using names that unfolding gfs_names_def by blast
      have named: "\<exists>m. di_name_str g = Inr m" if "j \<noteq> 1" "read_inode bd j d' = Inr g" "di_kind g \<noteq> 0" for j g
        using that names f(7) unfolding gfs_names_def d'(3) by (cases "j = i") auto
      have "gfs_names bd d'"
        unfolding gfs_names_def ent using named uniq False by blast
      with c False free(2-5) d' ent show ?thesis by blast
    qed
  qed
qed

lemma has_child_loop_spec:
  assumes "\<And>i. i \<in> set is \<Longrightarrow> \<exists>e. read_inode bd i d = Inr e"
  shows "has_child_loop bd p is d =
    Inr (\<exists>i\<in>set is. \<exists>e. read_inode bd i d = Inr e \<and> di_kind e \<noteq> 0 \<and> di_parent e = p)"
  using assms
proof (induction "is")
  case (Cons i "is")
  obtain e where "read_inode bd i d = Inr e" using Cons.prems [of i] by auto
  then show ?case using Cons by auto
qed simp

lemma gfs_remove_spec:
  assumes inv: "gfs_inv bd dev_ok d" and names: "gfs_names bd d"
  shows "(gfs_remove bd d p n = (d, Inl NotFound) \<and> (\<forall>i. \<not> is_entry bd d p n i)) \<or>
    (\<exists>i e. is_entry bd d p n i \<and> read_inode bd i d = Inr e \<and>
      ((gfs_remove bd d p n = (d, Inl DirectoryNotEmpty) \<and> di_kind e = 2 \<and> (\<exists>m j. is_entry bd d i m j)) \<or>
       (\<exists>d'. gfs_remove bd d p n = (d', Inr ()) \<and> (di_kind e = 2 \<longrightarrow> (\<forall>m j. \<not> is_entry bd d i m j)) \<and>
         gfs_inv bd dev_ok d' \<and> gfs_names bd d' \<and> bd_sector_count bd d' = bd_sector_count bd d \<and>
         (\<forall>j. read_inode bd j d' = (if j = i then Inr di_empty else read_inode bd j d)) \<and>
         (\<forall>q m j. is_entry bd d' q m j \<longleftrightarrow> is_entry bd d q m j \<and> j \<noteq> i) \<and>
         (\<forall>j g. j \<noteq> i \<and> read_inode bd j d = Inr g \<and> di_kind g = 1 \<longrightarrow> file_bytes d' g = file_bytes d g))))"
proof -
  note F = find_child_on [OF inv names]
  show ?thesis
  proof (cases "\<exists>i. is_entry bd d p n i")
    case False
    then have "find_child bd p n d = Inl NotFound" using F(2) by blast
    then show ?thesis using False by (simp add: gfs_remove_def)
  next
    case True
    then obtain i where i: "is_entry bd d p n i" by blast
    then obtain e where e: "read_inode bd i d = Inr e" "i \<noteq> 1" by (auto simp: is_entry_def)
    have fc: "find_child bd p n d = Inr i" using F(1) i by blast
    have v: "valid_inode i" by (rule gfs_inv_valid(1) [OF inv e(1)])
    have kids: "has_child_loop bd i inode_range d = Inr (\<exists>m j. is_entry bd d i m j)"
    proof -
      have "has_child_loop bd i inode_range d = Inr (\<exists>j\<in>set inode_range. \<exists>e. read_inode bd j d = Inr e \<and>
          di_kind e \<noteq> 0 \<and> di_parent e = i)"
        using gfs_invD(4) [OF inv] inode_range_valid by (intro has_child_loop_spec) blast
      moreover have "(\<exists>j\<in>set inode_range. \<exists>e. read_inode bd j d = Inr e \<and> di_kind e \<noteq> 0 \<and> di_parent e = i) \<longleftrightarrow>
          (\<exists>m j. is_entry bd d i m j)"
        using names read_valid [OF inv] unfolding is_entry_def gfs_names_def Bex_def inode_range_valid by blast
      ultimately show ?thesis by simp
    qed
    show ?thesis
    proof (cases "di_kind e = 2 \<and> (\<exists>m j. is_entry bd d i m j)")
      case True
      then have "gfs_remove bd d p n = (d, Inl DirectoryNotEmpty)" using fc e kids by (simp add: gfs_remove_def)
      then show ?thesis using True i e by blast
    next
      case False
      obtain d' where d': "write_inode bd i di_empty d = (d', Inr ())" "gfs_inv bd dev_ok d'"
        "\<And>j. read_inode bd j d' = (if j = i then Inr di_empty else read_inode bd j d)"
        "\<And>j g. \<lbrakk>j \<noteq> i; read_inode bd j d = Inr g; di_kind g = 1\<rbrakk> \<Longrightarrow> file_bytes d' g = file_bytes d g"
        "bd_sector_count bd d' = bd_sector_count bd d"
        using write_dataless [OF inv v e(2) di_ok_consts(1) di_empty_sel(2-4)] by blast
      have r: "gfs_remove bd d p n = (d', Inr ())" using fc e kids False d'(1) by (auto simp: gfs_remove_def)
      have ent: "is_entry bd d' q m j \<longleftrightarrow> is_entry bd d q m j \<and> j \<noteq> i" for q m j
        by (cases "j = i") (auto simp: is_entry_def d'(3) di_empty_def)
      have named: "\<exists>m. di_name_str g = Inr m" if "j \<noteq> 1" "read_inode bd j d' = Inr g" "di_kind g \<noteq> 0" for j g
        using that names unfolding gfs_names_def d'(3) by (cases "j = i") (auto simp: di_empty_def)
      have "gfs_names bd d'"
        unfolding gfs_names_def ent using named names unfolding gfs_names_def by blast
      with r False i e d' ent show ?thesis by blast
    qed
  qed
qed

section \<open>Formatting and mounting\<close>

lemma format_loop_zero: "\<forall>n\<in>set ns. n < 2 ^ 64 \<Longrightarrow> format_loop bd ns = zero_sectors bd 0 ns"
  by (induction ns) (simp_all add: u64_add_def)

lemma decode_zero: "decode_inode (replicate INODE_SIZE 0) = Inr di_empty"
proof -
  have "le_nat (replicate k 0) = 0" for k by (induction k) simp_all
  then show ?thesis
    by (simp add: decode_inode_def gfs_read_u32_def gfs_read_u64_def field_def di_empty_def INODE_SIZE_def)
qed

lemma di_root_kind: "di_kind di_root = 2"
  by (simp add: di_root_def)

lemma gfs_format_spec:
  assumes d: "dev_ok d" "DATA_START + 1 < bd_sector_count bd d" "bd_sector_count bd d < 2 ^ 32"
  shows "\<exists>d'. gfs_format bd d = (d', Inr ()) \<and> gfs_inv bd dev_ok d' \<and> gfs_names bd d' \<and>
    bd_sector_count bd d' = bd_sector_count bd d \<and>
    (\<forall>i. valid_inode i \<longrightarrow> read_inode bd i d' = Inr (if i = 1 then di_root else di_empty))"
proof -
  let ?n = "bd_sector_count bd d" and ?sb = "gfs_superblock (bd_sector_count bd d)"
  have sb: "length ?sb = SECTOR_SIZE"
    by (simp add: gfs_superblock_def Let_def gfs_write_u32_def gfs_write_u64_def MAGIC_def SECTOR_SIZE_def)
  obtain d1 where d1: "format_loop bd [0..<DATA_START] d = (d1, Inr ())" "dev_ok d1" "bd_sector_count bd d1 = ?n"
    "sector_of d1 = (\<lambda>m. if \<exists>n\<in>set [0..<DATA_START]. m = 0 + n then replicate SECTOR_SIZE 0 else sector_of d m)"
    using zero_sectors_spec [OF d(1), of "[0..<DATA_START]" 0] d(2,3) format_loop_zero [of "[0..<DATA_START]"] by auto
  obtain d2 where d2: "gfs_write_sector bd 0 ?sb d1 = (d2, Inr ())" "dev_ok d2" "bd_sector_count bd d2 = ?n"
    "sector_of d2 = (sector_of d1)(0 := ?sb)"
    using gfs_write_in [OF d1(2) _ sb, of 0] d(2) d1(3) by auto
  have zero: "read_inode bd i d2 = Inr di_empty" if "valid_inode i" for i
  proof -
    have s: "sector_of d2 (inode_sector (i - 1)) = replicate SECTOR_SIZE 0"
      using inode_sector_bounds [OF that] by (auto simp: d2(4) d1(4))
    have "inode_raw d2 i = replicate INODE_SIZE 0"
      using inode_offset_fits [of "i - 1"] unfolding inode_raw_def s by simp
    then show ?thesis using that d2(2,3) d(2) decode_zero by (simp add: read_inode_raw)
  qed
  have one: "valid_inode 1" by (simp add: valid_inode_def INODE_COUNT_def)
  obtain d' where d': "write_inode bd 1 di_root d2 = (d', Inr ())" "dev_ok d'" "bd_sector_count bd d' = ?n"
    "\<And>n. n \<noteq> inode_sector (1 - 1) \<Longrightarrow> sector_of d' n = sector_of d2 n"
    "\<And>j. read_inode bd j d' = (if j = 1 then Inr di_root else read_inode bd j d2)"
    by (rule write_inode_step [OF d2(2) _ one di_ok_consts(2)]) (use d2(3) d(2) in auto)
  have super: "bd_read_sector bd d' 0 = Inr ?sb"
    using read_in [OF d'(2), of 0] d'(3) d(2) d'(4) [of 0] inode_sector_bounds [OF one] by (auto simp: d2(4))
  have tab: "read_inode bd i d' = Inr (if i = 1 then di_root else di_empty)" if "valid_inode i" for i
    using zero [OF that] by (simp add: d'(5))
  have only: "e = (if i = 1 then di_root else di_empty)" if "read_inode bd i d' = Inr e" for i e
    using tab [OF read_inode_ok(2) [OF d'(2) _ that]] that d(2) d'(3) by simp
  have "file_ok ?n di_root" "file_ok ?n di_empty" "\<not> has_extent di_root" "\<not> has_extent di_empty"
    by (simp_all add: file_ok_def has_extent_def di_root_def di_empty_def)
  then have "gfs_inv bd dev_ok d'"
    unfolding gfs_inv_def d'(3) using d'(2) d(2,3) super tab tab [OF one] only
    by (intro conjI allI impI) (metis di_root_kind)+
  moreover have "gfs_names bd d'"
    unfolding gfs_names_def is_entry_def using only di_empty_sel(1) by metis
  moreover have "gfs_format bd d = (d', Inr ())"
    using d1(1,3) d2(1) d'(1) by (simp add: gfs_format_def sbind_def sget_def)
  ultimately show ?thesis using d'(3) tab by blast
qed

lemma gfs_mount_again:
  assumes inv: "gfs_inv bd dev_ok d"
  shows "gfs_mount bd b d = (d, Inr False)"
proof -
  note I = gfs_invD [OF inv]
  let ?sb = "gfs_superblock (bd_sector_count bd d)"
  have r: "gfs_read_sector bd 0 d = Inr ?sb" using I(7) by (simp add: gfs_read_sector_def)
  have m: "take 8 ?sb = MAGIC"
    by (simp add: gfs_superblock_def Let_def gfs_write_u32_def gfs_write_u64_def put_field_simps MAGIC_def SECTOR_SIZE_def)
  have f: "gfs_read_u32 ?sb 8 = VERSION" "gfs_read_u32 ?sb 12 = INODE_COUNT" "gfs_read_u64 ?sb 16 = DATA_START"
    "gfs_read_u64 ?sb 24 = bd_sector_count bd d"
    using I(3) by (simp_all add: gfs_superblock_def Let_def gfs_write_u32_def gfs_write_u64_def put_field_simps
        MAGIC_def VERSION_def gfs_consts gfs_read_u32_def gfs_read_u64_def field_def le_nat_fits)
  obtain e where "read_inode bd 1 d = Inr e" "di_kind e = 2" using I(5) by blast
  then show ?thesis using I(2) r m f by (simp add: gfs_mount_def)
qed

section \<open>Observations through read\<close>

lemma gfs_read_same:
  assumes inv: "gfs_inv bd dev_ok d" "gfs_inv bd dev_ok d'" and same: "read_inode bd j d' = read_inode bd j d"
    and bytes: "\<And>f. \<lbrakk>read_inode bd j d = Inr f; di_kind f = 1\<rbrakk> \<Longrightarrow> file_bytes d' f = file_bytes d f"
  shows "gfs_read bd d' j off n = gfs_read bd d j off n"
proof (cases "\<exists>f. read_inode bd j d = Inr f \<and> di_kind f = 1")
  case True
  then obtain f where f: "read_inode bd j d = Inr f" "di_kind f = 1" by blast
  show ?thesis
    using gfs_read_spec [OF inv(1) f] gfs_read_spec [OF inv(2) f(1) [folded same] f(2)] bytes [OF f] by simp
next
  case False
  then show ?thesis
    unfolding gfs_read_def same by (cases "read_inode bd j d") (auto simp: di_node_kind_def rbind_def)
qed

lemma file_changed_reads:
  assumes inv: "gfs_inv bd dev_ok d" and ch: "file_changed d d' i new k"
  shows "gfs_inv bd dev_ok d'" and "gfs_read bd d' i off n = Inr (take n (drop off new))"
    and "j \<noteq> i \<Longrightarrow> read_inode bd j d' = read_inode bd j d"
    and "j \<noteq> i \<Longrightarrow> gfs_read bd d' j off n = gfs_read bd d j off n"
proof -
  show inv': "gfs_inv bd dev_ok d'" and same: "j \<noteq> i \<Longrightarrow> read_inode bd j d' = read_inode bd j d" for j
    using ch by (auto simp: file_changed_def)
  obtain f where f: "read_inode bd i d' = Inr f" "di_kind f = 1" "file_bytes d' f = new"
    using ch by (auto simp: file_changed_def)
  show "gfs_read bd d' i off n = Inr (take n (drop off new))" using gfs_read_spec [OF inv' f(1,2)] f(3) by simp
  show "gfs_read bd d' j off n = gfs_read bd d j off n" if "j \<noteq> i"
    using ch that by (intro gfs_read_same [OF inv inv' same]) (auto simp: file_changed_def)
qed

lemma gfs_read_whole:
  assumes "gfs_inv bd dev_ok d" "read_inode bd i d = Inr e" "di_kind e = 1"
  shows "gfs_read bd d i 0 (di_len e) = Inr (file_bytes d e)"
  using gfs_read_spec [OF assms] by (simp add: file_bytes_def)

text \<open>The only file of a volume is placed at the start of the data area.\<close>

lemma find_extent_alone:
  assumes inv: "gfs_inv bd dev_ok d" and alone: "other_extents bd d i = {}"
    and n: "0 < n" "DATA_START + n \<le> bd_sector_count bd d"
  shows "find_extent bd n i d = Inr DATA_START"
proof -
  have "\<And>j. j \<in> set inode_range \<Longrightarrow> \<exists>e. read_inode bd j d = Inr e \<and> file_ok (bd_sector_count bd d) e"
    using gfs_invD(4) [OF inv] inode_range_valid by blast
  from used_extents_spec [OF this gfs_invD(3) [OF inv], where ex = i] obtain used where
    used: "used_extents bd i inode_range d = Inr used"
    "set used = {extent_of e | j e. j \<in> set inode_range \<and> j \<noteq> i \<and> read_inode bd j d = Inr e \<and> has_extent e}"
    by blast
  then have "set used \<subseteq> other_extents bd d i" by (auto simp: other_extents_def)
  then have u: "used = []" using alone by simp
  have "u64_add DATA_START n = DATA_START + n" using n(2) gfs_invD(3) [OF inv] by (intro u64_add_small) simp
  then show ?thesis using n used(1) unfolding find_extent_def u by simp
qed

end

end
