(* ===== verification/Generic_Fs_Volume.thy ===== *)
theory Generic_Fs_Volume
  imports Generic_Fs_Tree
begin

text \<open>
  What \<open>GenericFs\<close> guarantees for a volume on the memory device, stated over its operations.
\<close>

section \<open>A small volume\<close>

lemma example_volume:
  obtains d i e where "gfs_inv smb_ops smb_ok d" "gfs_names smb_ops d" "read_inode smb_ops i d = Inr e"
    "di_kind e = 1" "di_sector_count e = 0" "di_len e = 0" "di_start_sector e = 0" "smb_sectors d = 19"
    "\<And>j g. read_inode smb_ops j d = Inr g \<Longrightarrow> \<not> has_extent g"
proof -
  let ?d0 = "smb_new 19"
  have c: "bd_sector_count smb_ops ?d0 = 19" by (simp add: smb_ops_def smb_new_def)
  obtain d1 where d1: "gfs_inv smb_ops smb_ok d1" "gfs_names smb_ops d1" "bd_sector_count smb_ops d1 = 19"
    "\<And>i. valid_inode i \<Longrightarrow> read_inode smb_ops i d1 = Inr (if i = 1 then di_root else di_empty)"
    using smb.gfs_format_spec [of ?d0] c by (auto simp: gfs_consts)
  have one: "valid_inode 1" "valid_inode 2" by (simp_all add: valid_inode_def INODE_COUNT_def)
  have root: "read_inode smb_ops 1 d1 = Inr di_root" "di_kind di_root = 2"
    using d1(4) [OF one(1)] by (simp_all add: di_root_def)
  have name: "validate_disk_name ''f'' = Inr ()" "utf8_str ''f''"
    by (simp_all add: validate_disk_name_def MAX_DISK_NAME_def utf8_str_def bytes_of_str_def from_utf8.simps)
  have "\<exists>e. read_inode smb_ops 2 d1 = Inr e \<and> di_kind e = 0"
    using d1(4) [OF one(2)] by (simp add: di_empty_sel)
  then have free: "allocate_inode smb_ops d1 \<noteq> Inl NoSpace"
    using allocate_inode_spec [OF d1(1)] one(2) by fastforce
  have none: "\<not> is_entry smb_ops d1 1 n j" for n j
    using d1(4) [of j] smb.read_valid [OF d1(1), of j] di_empty_sel(1) unfolding is_entry_def by fastforce
  obtain d i where d: "gfs_inv smb_ops smb_ok d" "gfs_names smb_ops d" "i \<noteq> 1"
    "\<And>j. read_inode smb_ops j d = (if j = i then Inr (new_entry 1 ''f'' 1) else read_inode smb_ops j d1)"
    "bd_sector_count smb_ops d = bd_sector_count smb_ops d1"
    using smb.gfs_create_spec [OF d1(1,2) root name, of 1] free none by blast
  have i: "read_inode smb_ops i d = Inr (new_entry 1 ''f'' 1)" using d(4) by simp
  moreover have "\<not> has_extent g" if "read_inode smb_ops j d = Inr g" for j g
    using that smb.read_valid [OF d1(1), of j] d1(4) [of j]
    by (auto simp: d(4) has_extent_def new_entry_def di_empty_def di_root_def split: if_splits)
  ultimately show ?thesis
    by (intro that [of d i "new_entry 1 ''f'' 1"])
      (use d d1(3) in \<open>simp_all add: new_entry_def di_empty_def smb_ops_def\<close>)
qed

lemma example_root:
  obtains d where "gfs_inv smb_ops smb_ok d" "gfs_names smb_ops d"
    "read_inode smb_ops 1 d = Inr di_root" "di_kind di_root = 2"
proof -
  have "DATA_START + 1 < bd_sector_count smb_ops (smb_new 19)" "bd_sector_count smb_ops (smb_new 19) < 2 ^ 32"
    by (simp_all add: smb_ops_def smb_new_def gfs_consts)
  from smb.gfs_format_spec [OF smb_new_ok this] obtain d where
    d: "gfs_inv smb_ops smb_ok d" "gfs_names smb_ops d"
    "\<forall>i. valid_inode i \<longrightarrow> read_inode smb_ops i d = Inr (if i = 1 then di_root else di_empty)" by blast
  have "valid_inode 1" by (simp add: valid_inode_def INODE_COUNT_def)
  with d(3) have "read_inode smb_ops 1 d = Inr di_root" by simp
  with d(1,2) that show ?thesis by (simp add: smb.di_root_kind)
qed

lemma example_name: "validate_disk_name ''f'' = Inr ()" "utf8_str ''f''"
  by (simp_all add: validate_disk_name_def MAX_DISK_NAME_def utf8_str_def bytes_of_str_def from_utf8.simps)

section \<open>Writing and reading\<close>

text \<open>
  C8: A write to a file of a GenericFS volume either fails with \<open>NoSpace\<close>, when no free extent is
  large enough, and then leaves the volume as it was, or it writes all bytes: the file then reads as the old
  contents with the new bytes at the offset, a gap reads as zeros, every other inode and the
  contents of every other file are as before, and the volume is still in order. The file must not
  have to move onto its own old extent.
\<close>

theorem gfs_write_correct:
  assumes inv: "gfs_inv smb_ops smb_ok d" and e: "read_inode smb_ops i d = Inr e" "di_kind e = 1"
    and bound: "off + length data \<le> 2 ^ 64 - 512"
    and safe: "growth_safe smb_ops d i e (sectors_for_len (off + length data))"
  shows "(\<exists>d' old. gfs_write smb_ops d i off data = (d', Inr (length data)) \<and> gfs_inv smb_ops smb_ok d' \<and>
      gfs_read smb_ops d i 0 (di_len e) = Inr old \<and>
      (\<forall>o' n. gfs_read smb_ops d' i o' n = Inr (take n (drop o' (overwrite old off data)))) \<and>
      (\<forall>j. j \<noteq> i \<longrightarrow> read_inode smb_ops j d' = read_inode smb_ops j d \<and>
        (\<forall>o' n. gfs_read smb_ops d' j o' n = gfs_read smb_ops d j o' n))) \<or>
    (gfs_write smb_ops d i off data = (d, Inl NoSpace) \<and>
      find_extent smb_ops (sectors_for_len (off + length data)) i d = Inl NoSpace)"
  using smb.gfs_write_spec [OF inv e bound safe]
proof (elim disjE exE conjE)
  fix d' assume w: "gfs_write smb_ops d i off data = (d', Inr (length data))"
    and ch: "smb.file_changed d d' i (overwrite (smb.file_bytes d e) off data)
      (max (di_sector_count e) (sectors_for_len (off + length data)))"
  note R = smb.file_changed_reads [OF inv ch]
  show ?thesis
    by (rule disjI1, rule exI [of _ d'], rule exI [of _ "smb.file_bytes d e"])
      (intro conjI allI impI w R smb.gfs_read_whole [OF inv e])
qed simp

theorem gfs_write_correct_witness:
  "\<exists>d i e. gfs_inv smb_ops smb_ok d \<and> read_inode smb_ops i d = Inr e \<and> di_kind e = 1 \<and>
    (gfs_write smb_ops d i 0 [7] = (d, Inl NoSpace) \<or>
     (\<exists>d'. gfs_write smb_ops d i 0 [7] = (d', Inr 1) \<and> gfs_read smb_ops d' i 0 1 = Inr [7]))"
proof -
  obtain d i e where d: "gfs_inv smb_ops smb_ok d" "read_inode smb_ops i d = Inr e" "di_kind e = 1"
    "di_sector_count e = 0" "di_len e = 0" "\<And>j g. read_inode smb_ops j d = Inr g \<Longrightarrow> \<not> has_extent g"
    using example_volume by metis
  have old: "gfs_read smb_ops d i 0 (di_len e) = Inr []" using smb.gfs_read_spec [OF d(1-3), of 0 0] d(5) by simp
  have safe: "growth_safe smb_ops d i e (sectors_for_len (0 + length [7 :: byte]))"
    unfolding growth_safe_def
  proof (intro disjI2 allI impI)
    fix c assume c: "find_extent smb_ops (sectors_for_len (0 + length [7 :: byte])) i d = Inr c"
    have st: "snd (extent_of e) \<le> bd_sector_count smb_ops d"
      using smb.gfs_inv_valid(3) [OF d(1,2)] d(3) by (simp add: file_ok_def)
    show "apart (c, c + sectors_for_len (0 + length [7 :: byte])) (extent_of e)"
      by (cases "c + sectors_for_len (0 + length [7 :: byte]) \<le> di_start_sector e")
        (auto simp: apart_def extent_of_def d(4) sectors_for_len_def u64_add_def SECTOR_SIZE_def)
  qed
  have "0 + length [7 :: byte] \<le> 2 ^ 64 - 512" by simp
  from gfs_write_correct [OF d(1-3) this safe] have "gfs_write smb_ops d i 0 [7] = (d, Inl NoSpace) \<or>
     (\<exists>d'. gfs_write smb_ops d i 0 [7] = (d', Inr 1) \<and> gfs_read smb_ops d' i 0 1 = Inr [7])"
    using old by (elim disjE exE conjE) (auto simp: overwrite_def)
  then show ?thesis using d(1-3) by blast
qed

text \<open>
  C30: When a file has to grow and the extent that is chosen for it contains its old extent, the new
  sectors are cleared before the old ones are copied: the write succeeds, and the old contents of the
  file then read as zeros. The choice ignores the file's own extent, so a file that is alone on a
  volume is always placed where it was.
\<close>

theorem gfs_growth_loses_data:
  assumes inv: "gfs_inv smb_ops smb_ok d" and e: "read_inode smb_ops i d = Inr e" "di_kind e = 1"
    and bound: "off + length data \<le> 2 ^ 64 - 512"
    and more: "di_sector_count e < sectors_for_len (off + length data)"
    and c: "find_extent smb_ops (sectors_for_len (off + length data)) i d = Inr c" "c \<le> di_start_sector e"
      "di_start_sector e + di_sector_count e \<le> c + sectors_for_len (off + length data)"
  shows "\<exists>d'. gfs_write smb_ops d i off data = (d', Inr (length data)) \<and>
    (\<forall>o' n. gfs_read smb_ops d' i o' n =
      Inr (take n (drop o' (overwrite (replicate (di_len e) 0) off data))))"
  using smb.gfs_write_loses [OF inv e bound more c] smb.file_changed_reads(2) [OF inv] by blast

lemma sectors_for_len_small: "sectors_for_len 1 = 1" "sectors_for_len (Suc 0) = Suc 0" "sectors_for_len 513 = 2"
  by (simp_all add: sectors_for_len_def SECTOR_SIZE_def u64_add_def)

theorem gfs_growth_loses_data_witness:
  "\<exists>d i d' d''. gfs_write smb_ops d i 0 [7] = (d', Inr 1) \<and> gfs_read smb_ops d' i 0 1 = Inr [7] \<and>
    gfs_write smb_ops d' i 512 [8] = (d'', Inr 1) \<and> gfs_read smb_ops d'' i 0 1 = Inr [0]"
proof -
  obtain d i e where d: "gfs_inv smb_ops smb_ok d" "read_inode smb_ops i d = Inr e" "di_kind e = 1"
    "di_sector_count e = 0" "di_len e = 0" "di_start_sector e = 0" "smb_sectors d = 19"
    "\<And>j g. read_inode smb_ops j d = Inr g \<Longrightarrow> \<not> has_extent g"
    using example_volume by metis
  have n: "bd_sector_count smb_ops d = 19" using d(7) by (simp add: smb_ops_def)
  have D: "DATA_START = 17" by (simp add: gfs_consts)
  have "other_extents smb_ops d i = {}" using d(8) by (auto simp: other_extents_def)
  from smb.find_extent_alone [OF d(1) this, of 1] have c1: "find_extent smb_ops 1 i d = Inr 17" using n by (simp add: D)
  have safe: "growth_safe smb_ops d i e (sectors_for_len (0 + length [7 :: byte]))"
    using c1 d(4,6) by (simp add: growth_safe_def sectors_for_len_small apart_def extent_of_def)
  have bytes: "smb.file_bytes d e = []" using d(5) by (simp add: smb.file_bytes_def)
  obtain d' where d': "gfs_write smb_ops d i 0 [7] = (d', Inr 1)" "smb.file_changed d d' i [7] 1"
    using smb.gfs_write_spec [OF d(1-3) _ safe] c1 d(4)
    by (auto simp: sectors_for_len_small bytes overwrite_def)
  obtain f where f: "read_inode smb_ops i d' = Inr f" "di_kind f = 1" "smb.file_bytes d' f = [7]"
    "di_sector_count f = 1" "gfs_inv smb_ops smb_ok d'" "bd_sector_count smb_ops d' = 19"
    "\<And>j. j \<noteq> i \<Longrightarrow> read_inode smb_ops j d' = read_inode smb_ops j d"
    using d'(2) n by (auto simp: smb.file_changed_def)
  have "length (smb.file_bytes d' f) = 1" using f(3) by simp
  then have len: "di_len f = 1" by (simp add: smb.file_bytes_def)
  have st: "17 \<le> di_start_sector f" "di_start_sector f + 1 \<le> 19"
    using smb.gfs_inv_valid(3) [OF f(5,1)] f(2,4,6) by (simp_all add: file_ok_def has_extent_def extent_of_def D)
  have "other_extents smb_ops d' i = {}" using d(8) f(7) by (auto simp: other_extents_def)
  from smb.find_extent_alone [OF f(5) this, of 2] have c2: "find_extent smb_ops 2 i d' = Inr 17" using f(6) by (simp add: D)
  obtain d'' where d'': "gfs_write smb_ops d' i 512 [8] = (d'', Inr 1)" "gfs_read smb_ops d'' i 0 1 =
      Inr (take 1 (overwrite (replicate 1 0) 512 [8]))"
    using gfs_growth_loses_data [OF f(5,1,2), of 512 "[8]" 17] c2 st f(4) len by (auto simp: sectors_for_len_small)
  have "gfs_read smb_ops d' i 0 1 = Inr [7]" using smb.gfs_read_spec [OF f(5,1,2)] f(3) by simp
  then show ?thesis using d'(1) d'' by (auto simp: overwrite_def)
qed

section \<open>Extents\<close>

text \<open>
  C29: The choice of an extent is exact: an extent that is returned lies in the data area and on the
  device and overlaps the extent of no other file; \<open>NoSpace\<close> is returned only when every position
  overlaps another file's extent.
\<close>

theorem find_extent_correct:
  assumes inv: "gfs_inv smb_ops smb_ok d" and n: "0 < n" "n \<le> 2 ^ 55"
  shows "case find_extent smb_ops n i d of
      Inr c \<Rightarrow> DATA_START \<le> c \<and> c + n \<le> bd_sector_count smb_ops d \<and>
        (\<forall>x\<in>other_extents smb_ops d i. apart (c, c + n) x)
    | Inl err \<Rightarrow> err = NoSpace \<and>
        (\<forall>c\<ge>DATA_START. c + n \<le> bd_sector_count smb_ops d \<longrightarrow>
          (\<exists>x\<in>other_extents smb_ops d i. \<not> apart (c, c + n) x))"
  by (rule find_extent_spec [OF inv n]) (rule smb.read_valid [OF inv])

theorem find_extent_correct_witness:
  "\<exists>d i. case find_extent smb_ops 1 i d of
      Inr c \<Rightarrow> DATA_START \<le> c \<and> c + 1 \<le> bd_sector_count smb_ops d | Inl err \<Rightarrow> err = NoSpace"
proof -
  obtain d where "gfs_inv smb_ops smb_ok d" using example_root by metis
  from find_extent_correct [OF this, of 1 2] show ?thesis
    by (intro exI [of _ d] exI [of _ 2]) (auto split: sum.splits)
qed

section \<open>Directories\<close>

text \<open>
  C26: Creating an entry in a directory of a GenericFS volume: a name that the directory has is refused
  with \<open>AlreadyExists\<close>, a full inode table with \<open>NoSpace\<close>, and the volume is unchanged. Otherwise a free
  inode becomes the entry, looking the name up finds it, every other lookup and every other inode is as
  before, and the volume is in order.
\<close>

theorem gfs_create_correct:
  assumes inv: "gfs_inv smb_ops smb_ok d" and names: "gfs_names smb_ops d"
    and p: "read_inode smb_ops p d = Inr pe" "di_kind pe = 2"
    and n: "validate_disk_name n = Inr ()" "utf8_str n" and k: "k = 1 \<or> k = 2"
  shows "(gfs_create smb_ops k p n d = (d, Inl AlreadyExists) \<and> (\<exists>i. gfs_lookup smb_ops d p n = Inr i)) \<or>
    (gfs_create smb_ops k p n d = (d, Inl NoSpace) \<and> allocate_inode smb_ops d = Inl NoSpace) \<or>
    (\<exists>d' i. gfs_create smb_ops k p n d = (d', Inr i) \<and> gfs_lookup smb_ops d p n = Inl NotFound \<and>
      gfs_inv smb_ops smb_ok d' \<and> gfs_names smb_ops d' \<and> gfs_lookup smb_ops d' p n = Inr i \<and>
      (\<forall>q m. (q, m) \<noteq> (p, n) \<longrightarrow> gfs_lookup smb_ops d' q m = gfs_lookup smb_ops d q m) \<and>
      (\<forall>j. j \<noteq> i \<longrightarrow> read_inode smb_ops j d' = read_inode smb_ops j d))"
proof -
  note F = smb.find_child_on [OF inv names]
  from smb.gfs_create_spec [OF inv names p n k] show ?thesis
  proof (elim disjE exE conjE)
    fix d' i
    assume c: "gfs_create smb_ops k p n d = (d', Inr i)" "\<forall>j. \<not> is_entry smb_ops d p n j"
      and inv': "gfs_inv smb_ops smb_ok d'" "gfs_names smb_ops d'"
      and tab: "\<forall>j. read_inode smb_ops j d' = (if j = i then Inr (new_entry p n k) else read_inode smb_ops j d)"
      and ent: "\<forall>q m j. is_entry smb_ops d' q m j \<longleftrightarrow> is_entry smb_ops d q m j \<or> (q = p \<and> m = n \<and> j = i)"
    note F' = smb.find_child_on [OF inv']
    have same: "find_child smb_ops q m d' = find_child smb_ops q m d" if "(q, m) \<noteq> (p, n)" for q m
    proof (cases "find_child smb_ops q m d")
      case (Inl e)
      then show ?thesis using F(2) [of q m e] F'(2) [of q m e] ent that by auto
    next
      case (Inr j)
      then show ?thesis using F(1) [of q m j] F'(1) [of q m j] ent by auto
    qed
    have "find_child smb_ops p n d' = Inr i" "find_child smb_ops p n d = Inl NotFound"
      using F'(1) [of p n i] F(2) [of p n NotFound] ent c(2) by auto
    then show ?thesis using c(1) inv' tab same unfolding gfs_lookup_def by auto
  qed (use F(1) in \<open>auto simp: gfs_lookup_def\<close>)
qed

theorem gfs_create_correct_witness:
  "\<exists>d. gfs_inv smb_ops smb_ok d \<and> gfs_names smb_ops d \<and> validate_disk_name ''f'' = Inr () \<and>
    (gfs_create smb_ops 1 1 ''f'' d = (d, Inl AlreadyExists) \<or> gfs_create smb_ops 1 1 ''f'' d = (d, Inl NoSpace) \<or>
     (\<exists>d' i. gfs_create smb_ops 1 1 ''f'' d = (d', Inr i) \<and> gfs_lookup smb_ops d' 1 ''f'' = Inr i))"
proof -
  obtain d where d: "gfs_inv smb_ops smb_ok d" "gfs_names smb_ops d" "read_inode smb_ops 1 d = Inr di_root"
    "di_kind di_root = 2" using example_root .
  show ?thesis using gfs_create_correct [OF d example_name, of 1] d(1,2) example_name(1) by blast
qed

text \<open>
  C27: Removing an entry: an unknown name gives \<open>NotFound\<close> and a directory with entries
  \<open>DirectoryNotEmpty\<close>, with the volume unchanged. Otherwise the name is gone, its inode is free, every other
  lookup and inode is as before, and the volume is in order.
\<close>

theorem gfs_remove_correct:
  assumes inv: "gfs_inv smb_ops smb_ok d" and names: "gfs_names smb_ops d"
  shows "(gfs_remove smb_ops d p n = (d, Inl NotFound) \<and> gfs_lookup smb_ops d p n = Inl NotFound) \<or>
    (\<exists>i e. gfs_lookup smb_ops d p n = Inr i \<and> read_inode smb_ops i d = Inr e \<and>
      ((gfs_remove smb_ops d p n = (d, Inl DirectoryNotEmpty) \<and> di_kind e = 2 \<and>
          (\<exists>m j. gfs_lookup smb_ops d i m = Inr j)) \<or>
       (\<exists>d'. gfs_remove smb_ops d p n = (d', Inr ()) \<and> gfs_inv smb_ops smb_ok d' \<and> gfs_names smb_ops d' \<and>
         gfs_lookup smb_ops d' p n = Inl NotFound \<and> read_inode smb_ops i d' = Inr di_empty \<and>
         (\<forall>q m j. j \<noteq> i \<longrightarrow> (gfs_lookup smb_ops d' q m = Inr j \<longleftrightarrow> gfs_lookup smb_ops d q m = Inr j)) \<and>
         (\<forall>j. j \<noteq> i \<longrightarrow> read_inode smb_ops j d' = read_inode smb_ops j d))))"
proof -
  note F = smb.find_child_on [OF inv names]
  from smb.gfs_remove_spec [OF inv names, of p n] show ?thesis
  proof (elim disjE exE conjE)
    fix i e d'
    assume i: "is_entry smb_ops d p n i" "read_inode smb_ops i d = Inr e" and r: "gfs_remove smb_ops d p n = (d', Inr ())"
      and inv': "gfs_inv smb_ops smb_ok d'" "gfs_names smb_ops d'"
      and tab: "\<forall>j. read_inode smb_ops j d' = (if j = i then Inr di_empty else read_inode smb_ops j d)"
      and ent: "\<forall>q m j. is_entry smb_ops d' q m j \<longleftrightarrow> is_entry smb_ops d q m j \<and> j \<noteq> i"
    note F' = smb.find_child_on [OF inv']
    have "\<not> is_entry smb_ops d' p n j" for j using ent i(1) names unfolding gfs_names_def by blast
    then have "find_child smb_ops p n d' = Inl NotFound" using F'(2) by blast
    moreover have "find_child smb_ops p n d = Inr i" using F(1) i(1) by blast
    moreover have "find_child smb_ops q m d' = Inr j \<longleftrightarrow> find_child smb_ops q m d = Inr j" if "j \<noteq> i" for q m j
      using F(1) F'(1) ent that by blast
    ultimately show ?thesis using i(2) r inv' tab unfolding gfs_lookup_def by auto
  qed (use F in \<open>auto simp: gfs_lookup_def\<close>)
qed

theorem gfs_remove_correct_witness:
  "\<exists>d. gfs_inv smb_ops smb_ok d \<and> gfs_names smb_ops d \<and>
    (gfs_lookup smb_ops d 1 ''f'' = Inl NotFound \<or>
     gfs_lookup smb_ops (fst (gfs_remove smb_ops d 1 ''f'')) 1 ''f'' = Inl NotFound \<or>
     snd (gfs_remove smb_ops d 1 ''f'') = Inl DirectoryNotEmpty)"
proof -
  obtain d where d: "gfs_inv smb_ops smb_ok d" "gfs_names smb_ops d" using example_root by metis
  from gfs_remove_correct [OF d, of 1 "''f''"] have "gfs_lookup smb_ops d 1 ''f'' = Inl NotFound \<or>
     gfs_lookup smb_ops (fst (gfs_remove smb_ops d 1 ''f'')) 1 ''f'' = Inl NotFound \<or>
     snd (gfs_remove smb_ops d 1 ''f'') = Inl DirectoryNotEmpty"
    by (elim disjE exE conjE) (simp_all only: fst_conv snd_conv simp_thms)
  then show ?thesis using d by blast
qed

section \<open>Mounting\<close>

text \<open>
  C28: Mounting a device that carries no GenericFS superblock, with formatting allowed, formats it: the
  result is a volume in order with an empty root directory. Mounting a volume in order again, after any
  number of operations, neither fails nor changes the device.
\<close>

theorem gfs_mount_correct:
  assumes d: "smb_ok d" "DATA_START + 1 < smb_sectors d" "smb_sectors d < 2 ^ 32"
    and blank: "take 8 (smb_sector d 0) \<noteq> MAGIC"
  shows "gfs_mount smb_ops False d = (d, Inl CorruptFilesystem) \<and>
    (\<exists>d'. gfs_mount smb_ops True d = (d', Inr True) \<and> gfs_inv smb_ops smb_ok d' \<and> gfs_names smb_ops d' \<and>
      (\<forall>i. valid_inode i \<longrightarrow> read_inode smb_ops i d' = Inr (if i = 1 then di_root else di_empty))) \<and>
    (\<forall>v b. gfs_inv smb_ops smb_ok v \<longrightarrow> gfs_mount smb_ops b v = (v, Inr False))"
proof -
  have n: "bd_sector_count smb_ops d = smb_sectors d" by (simp add: smb_ops_def)
  have r: "gfs_read_sector smb_ops 0 d = Inr (smb_sector d 0)" using smb.gfs_read_in [OF d(1)] d(2) n by simp
  obtain d' where d': "gfs_format smb_ops d = (d', Inr ())" "gfs_inv smb_ops smb_ok d'" "gfs_names smb_ops d'"
    "\<forall>i. valid_inode i \<longrightarrow> read_inode smb_ops i d' = Inr (if i = 1 then di_root else di_empty)"
    using smb.gfs_format_spec [OF d(1)] d(2,3) n by auto
  have "gfs_mount smb_ops True d = (d', Inr True)" "gfs_mount smb_ops False d = (d, Inl CorruptFilesystem)"
    using d(2) r blank d'(1) n by (simp_all add: gfs_mount_def sbind_ok)
  then show ?thesis using d' smb.gfs_mount_again by blast
qed

theorem gfs_mount_correct_witness:
  "\<exists>d'. gfs_mount smb_ops True (smb_new 19) = (d', Inr True) \<and> gfs_mount smb_ops False d' = (d', Inr False)"
proof -
  have d: "smb_ok (smb_new 19)" "DATA_START + 1 < smb_sectors (smb_new 19)" "smb_sectors (smb_new 19) < 2 ^ 32"
    by (simp_all add: smb_new_def gfs_consts smb_ok_def)
  have "take 8 (smb_sector (smb_new 19) 0) \<noteq> MAGIC"
  proof
    assume eq: "take 8 (smb_sector (smb_new 19) 0) = MAGIC"
    have "take 8 (smb_sector (smb_new 19) 0) = replicate 8 0"
      by (simp add: smb_sector_def smb_new_def SECTOR_SIZE_def)
    then have "MAGIC ! 0 = replicate 8 0 ! 0" using eq by simp
    then show False by (simp add: MAGIC_def)
  qed
  from gfs_mount_correct [OF d this] show ?thesis by blast
qed

text \<open>
  C31: The disk format of an inode loses nothing: what \<open>encode_inode\<close> writes into a slot of the table,
  \<open>decode_inode\<close> reads back, for every inode whose fields fit.
\<close>

theorem inode_format_roundtrip:
  assumes "length raw = INODE_SIZE" and "disk_inode_ok e"
  shows "decode_inode (encode_inode raw e) = Inr e"
  by (rule decode_encode [OF assms])

theorem inode_format_roundtrip_witness:
  "decode_inode (encode_inode (replicate 128 9) (new_entry 1 ''f'' 2)) = Inr (new_entry 1 ''f'' 2)"
  by (rule inode_format_roundtrip) (simp_all add: INODE_SIZE_def new_entry_ok MAX_DISK_NAME_def)

text \<open>The size in sectors wraps around for lengths in the last sector below \<open>2\<^sup>6\<^sup>4\<close>.\<close>

lemma sectors_for_len_wraps: "sectors_for_len (2 ^ 64 - 1) = 0"
  by (simp add: sectors_for_len_def u64_add_def SECTOR_SIZE_def)

end
