(* ===== verification/BTree_Map.thy ===== *)
theory BTree_Map
  imports Main
begin

text \<open>
  \<open>BTreeMap\<close> of the Rust library: a finite map whose iteration is in the order of the keys. It
  is an association list with strictly increasing keys.
\<close>

type_synonym ('k, 'v) btree_map = "('k \<times> 'v) list"

abbreviation bt_get :: "('k, 'v) btree_map \<Rightarrow> 'k \<Rightarrow> 'v option" where
  "bt_get \<equiv> map_of"

fun bt_insert :: "'k::linorder \<Rightarrow> 'v \<Rightarrow> ('k, 'v) btree_map \<Rightarrow> ('k, 'v) btree_map" where
  "bt_insert k v [] = [(k, v)]"
| "bt_insert k v ((k', v') # m) =
     (if k < k' then (k, v) # (k', v') # m
      else if k = k' then (k, v) # m
      else (k', v') # bt_insert k v m)"

definition bt_remove :: "'k \<Rightarrow> ('k, 'v) btree_map \<Rightarrow> ('k, 'v) btree_map" where
  "bt_remove k m = filter (\<lambda>(k', v). k' \<noteq> k) m"

definition bt_wf :: "('k::linorder, 'v) btree_map \<Rightarrow> bool" where
  "bt_wf m \<longleftrightarrow> sorted_wrt (<) (map fst m)"

lemma bt_wf_simps [simp]:
  "bt_wf []" "bt_wf ((k, v) # m) \<longleftrightarrow> (\<forall>k'\<in>fst ` set m. k < k') \<and> bt_wf m"
  by (simp_all add: bt_wf_def)

lemma bt_wf_distinct: "bt_wf m \<Longrightarrow> distinct (map fst m)"
  by (auto simp: bt_wf_def strict_sorted_iff)

lemma bt_get_insert [simp]: "bt_wf m \<Longrightarrow> bt_get (bt_insert k v m) = (bt_get m)(k \<mapsto> v)"
proof (induction k v m rule: bt_insert.induct)
  case (2 k v k' v' m)
  have "bt_get m k = None" if "k < k'" using "2.prems" that by (force simp: map_of_eq_None_iff)
  with 2 show ?case by (auto simp: fun_upd_twist)
qed simp

lemma bt_insert_keys: "fst ` set (bt_insert k v m) = insert k (fst ` set m)"
  by (induction k v m rule: bt_insert.induct) auto

lemma bt_wf_insert [simp]: "bt_wf m \<Longrightarrow> bt_wf (bt_insert k v m)"
proof (induction k v m rule: bt_insert.induct)
  case (2 k v k' v' m)
  then show ?case by (auto simp: bt_insert_keys)
qed simp

lemma bt_get_remove [simp]: "bt_get (bt_remove k m) = (bt_get m)(k := None)"
  by (rule ext) (induction m, auto simp: bt_remove_def)

lemma bt_wf_remove [simp]: "bt_wf m \<Longrightarrow> bt_wf (bt_remove k m)"
  by (induction m) (auto simp: bt_remove_def)

lemma bt_empty_iff: "m = [] \<longleftrightarrow> bt_get m = Map.empty"
  by (metis map_of_eq_empty_iff)

end
