(* ===== verification/Ram_Fs.thy ===== *)
theory Ram_Fs
  imports Fs_Contract BTree_Map
begin

text \<open>
  The memory filesystem \<open>RamFs\<close> of \<open>crates/kernel-core/src/vfs.rs\<close> and that it keeps the
  contract of a filesystem. Inodes are numbers below \<open>2\<^sup>6\<^sup>4\<close>; \<open>checked_add\<close> on the next inode and
  on file offsets is written out. Memory for nodes and data is assumed to be available.
\<close>

record ram_node =
  rn_kind :: node_kind
  rn_children :: "(string, inode) btree_map"
  rn_data :: "byte list"

definition ram_directory :: ram_node where
  "ram_directory = \<lparr>rn_kind = Directory, rn_children = [], rn_data = []\<rparr>"

definition ram_file :: ram_node where
  "ram_file = \<lparr>rn_kind = File, rn_children = [], rn_data = []\<rparr>"

record ramfs =
  rf_nodes :: "(inode, ram_node) btree_map"
  rf_next_inode :: inode

definition ramfs_new :: ramfs where
  "ramfs_new = \<lparr>rf_nodes = bt_insert 1 ram_directory [], rf_next_inode = 2\<rparr>"

definition ramfs_node :: "ramfs \<Rightarrow> inode \<Rightarrow> vfs_error + ram_node" where
  "ramfs_node s i = ok_or (bt_get (rf_nodes s) i) NotFound"

text \<open>Writing through the reference that \<open>node_mut\<close> returns.\<close>

definition ramfs_node_mut :: "ramfs \<Rightarrow> inode \<Rightarrow> ram_node \<Rightarrow> ramfs" where
  "ramfs_node_mut s i nd = s\<lparr>rf_nodes := bt_insert i nd (rf_nodes s)\<rparr>"

definition ramfs_create_node ::
  "node_kind \<Rightarrow> ramfs \<Rightarrow> inode \<Rightarrow> string \<Rightarrow> ramfs \<times> (vfs_error + inode)" where
  "ramfs_create_node k s parent name =
     (case rbind (validate_name name) (\<lambda>_.
           rbind (ramfs_node s parent) (\<lambda>directory.
           if rn_kind directory \<noteq> Directory then Inl NotDirectory
           else if bt_get (rn_children directory) name \<noteq> None then Inl AlreadyExists
           else ok_or (usize_add (rf_next_inode s) 1) InodeExhausted)) of
        Inl e \<Rightarrow> (s, Inl e)
      | Inr next \<Rightarrow>
          (let inode = rf_next_inode s;
               nd = (case k of File \<Rightarrow> ram_file | Directory \<Rightarrow> ram_directory);
               s = s\<lparr>rf_next_inode := next, rf_nodes := bt_insert inode nd (rf_nodes s)\<rparr>
           in case ramfs_node s parent of
                Inl e \<Rightarrow> (s, Inl e)
              | Inr directory \<Rightarrow>
                  (ramfs_node_mut s parent
                     (directory\<lparr>rn_children := bt_insert name inode (rn_children directory)\<rparr>),
                   Inr inode)))"

definition ramfs_metadata :: "ramfs \<Rightarrow> inode \<Rightarrow> vfs_error + metadata" where
  "ramfs_metadata s inode =
     rbind (ramfs_node s inode) (\<lambda>nd.
     Inr \<lparr>md_inode = inode, md_kind = rn_kind nd,
          md_len = (case rn_kind nd of File \<Rightarrow> length (rn_data nd) | Directory \<Rightarrow> 0)\<rparr>)"

definition ramfs_lookup :: "ramfs \<Rightarrow> inode \<Rightarrow> string \<Rightarrow> vfs_error + inode" where
  "ramfs_lookup s parent name =
     rbind (validate_name name) (\<lambda>_.
     rbind (ramfs_node s parent) (\<lambda>directory.
     if rn_kind directory \<noteq> Directory then Inl NotDirectory
     else ok_or (bt_get (rn_children directory) name) NotFound))"

fun ramfs_entries :: "ramfs \<Rightarrow> (string \<times> inode) list \<Rightarrow> dir_entry list \<Rightarrow> vfs_error + dir_entry list" where
  "ramfs_entries s [] entries = Inr entries"
| "ramfs_entries s ((name, child) # rest) entries =
     rbind (ramfs_metadata s child) (\<lambda>m.
     ramfs_entries s rest (entries @ [\<lparr>de_name = name, de_metadata = m\<rparr>]))"

definition ramfs_read_dir :: "ramfs \<Rightarrow> inode \<Rightarrow> vfs_error + dir_entry list" where
  "ramfs_read_dir s inode =
     rbind (ramfs_node s inode) (\<lambda>directory.
     if rn_kind directory \<noteq> Directory then Inl NotDirectory
     else ramfs_entries s (rn_children directory) [])"

definition ramfs_read :: "ramfs \<Rightarrow> inode \<Rightarrow> nat \<Rightarrow> nat \<Rightarrow> vfs_error + byte list" where
  "ramfs_read s inode offset len =
     rbind (ramfs_node s inode) (\<lambda>nd.
     if rn_kind nd = Directory then Inl IsDirectory
     else if length (rn_data nd) \<le> offset then Inr []
     else (let count = min len (length (rn_data nd) - offset)
           in Inr (take count (drop offset (rn_data nd)))))"

text \<open>\<open>Vec::resize\<close> with zeros.\<close>

definition vec_resize :: "byte list \<Rightarrow> nat \<Rightarrow> byte list" where
  "vec_resize xs n = (if n \<le> length xs then take n xs else xs @ replicate (n - length xs) 0)"

definition ramfs_write :: "ramfs \<Rightarrow> inode \<Rightarrow> nat \<Rightarrow> byte list \<Rightarrow> ramfs \<times> (vfs_error + nat)" where
  "ramfs_write s inode offset data =
     (case ramfs_node s inode of
        Inl e \<Rightarrow> (s, Inl e)
      | Inr nd \<Rightarrow>
          (if rn_kind nd = Directory then (s, Inl IsDirectory)
           else case usize_add offset (length data) of
                  None \<Rightarrow> (s, Inl OffsetOverflow)
                | Some end' \<Rightarrow>
                    (let d = (if length (rn_data nd) < end' then vec_resize (rn_data nd) end' else rn_data nd);
                         d = take offset d @ data @ drop end' d
                     in (ramfs_node_mut s inode (nd\<lparr>rn_data := d\<rparr>), Inr (length data)))))"

definition ramfs_truncate :: "ramfs \<Rightarrow> inode \<Rightarrow> nat \<Rightarrow> ramfs \<times> (vfs_error + unit)" where
  "ramfs_truncate s inode len =
     (case ramfs_node s inode of
        Inl e \<Rightarrow> (s, Inl e)
      | Inr nd \<Rightarrow>
          (if rn_kind nd = Directory then (s, Inl IsDirectory)
           else (ramfs_node_mut s inode (nd\<lparr>rn_data := vec_resize (rn_data nd) len\<rparr>), Inr ())))"

definition ramfs_remove :: "ramfs \<Rightarrow> inode \<Rightarrow> string \<Rightarrow> ramfs \<times> (vfs_error + unit)" where
  "ramfs_remove s parent name =
     (case rbind (validate_name name) (\<lambda>_.
           rbind (ramfs_node s parent) (\<lambda>directory.
           if rn_kind directory \<noteq> Directory then Inl NotDirectory
           else rbind (ok_or (bt_get (rn_children directory) name) NotFound) (\<lambda>child.
           rbind (ramfs_node s child) (\<lambda>child_node.
           if rn_kind child_node = Directory \<and> rn_children child_node \<noteq> [] then Inl DirectoryNotEmpty
           else Inr (directory, child))))) of
        Inl e \<Rightarrow> (s, Inl e)
      | Inr (directory, child) \<Rightarrow>
          (let s = ramfs_node_mut s parent
                 (directory\<lparr>rn_children := bt_remove name (rn_children directory)\<rparr>)
           in (s\<lparr>rf_nodes := bt_remove child (rf_nodes s)\<rparr>, Inr ())))"

definition ramfs_ops :: "ramfs fs_ops" where
  "ramfs_ops =
     \<lparr>fs_name = \<lambda>_. ''ramfs'', fs_root_inode = \<lambda>_. 1, fs_metadata = ramfs_metadata,
      fs_lookup = ramfs_lookup, fs_read_dir = ramfs_read_dir,
      fs_create_file = ramfs_create_node File, fs_create_dir = ramfs_create_node Directory,
      fs_read = ramfs_read, fs_write = ramfs_write, fs_truncate = ramfs_truncate,
      fs_remove = ramfs_remove\<rparr>"

section \<open>The tree of a memory filesystem\<close>

definition ram_kind :: "ramfs \<Rightarrow> inode \<Rightarrow> node_kind option" where
  "ram_kind s i = map_option rn_kind (bt_get (rf_nodes s) i)"

definition ram_child :: "ramfs \<Rightarrow> inode \<Rightarrow> string \<Rightarrow> inode option" where
  "ram_child s i n = (case bt_get (rf_nodes s) i of None \<Rightarrow> None | Some nd \<Rightarrow> bt_get (rn_children nd) n)"

definition ram_content :: "ramfs \<Rightarrow> inode \<Rightarrow> byte list" where
  "ram_content s i = (case bt_get (rf_nodes s) i of None \<Rightarrow> [] | Some nd \<Rightarrow> rn_data nd)"

text \<open>
  Every directory entry names an existing node, no node has two entries, the root has none, files
  have no entries, and the numbers that are in use are below the next one.
\<close>

definition ram_tree :: "(inode \<Rightarrow> node_kind option) \<Rightarrow> (inode \<Rightarrow> string \<Rightarrow> inode option) \<Rightarrow> bool" where
  "ram_tree k t \<longleftrightarrow>
     k 1 = Some Directory \<and>
     (\<forall>i n j. t i n = Some j \<longrightarrow> k i = Some Directory \<and> k j \<noteq> None \<and> j \<noteq> 1 \<and> name_ok n) \<and>
     (\<forall>i n i' n' j. t i n = Some j \<and> t i' n' = Some j \<longrightarrow> i = i' \<and> n = n')"

definition ramfs_inv :: "ramfs \<Rightarrow> bool" where
  "ramfs_inv s \<longleftrightarrow>
     bt_wf (rf_nodes s) \<and> (\<forall>i nd. bt_get (rf_nodes s) i = Some nd \<longrightarrow> bt_wf (rn_children nd)) \<and>
     (\<forall>i. ram_kind s i \<noteq> None \<longrightarrow> i < rf_next_inode s) \<and> rf_next_inode s < 2 ^ 64 \<and>
     ram_tree (ram_kind s) (ram_child s)"

lemma ram_node_mut:
  assumes "bt_wf (rf_nodes s)"
  shows "ram_kind (ramfs_node_mut s i nd) = (ram_kind s)(i \<mapsto> rn_kind nd)"
    and "ram_child (ramfs_node_mut s i nd) = (ram_child s)(i := bt_get (rn_children nd))"
    and "ram_content (ramfs_node_mut s i nd) = (ram_content s)(i := rn_data nd)"
    and "rf_next_inode (ramfs_node_mut s i nd) = rf_next_inode s"
    and "bt_wf (rf_nodes (ramfs_node_mut s i nd))"
  using assms by (auto simp: fun_eq_iff ram_kind_def ram_child_def ram_content_def ramfs_node_mut_def)

lemma ramfs_inv_node:
  assumes "ramfs_inv s" and "bt_get (rf_nodes s) i = Some nd"
  shows "ram_kind s i = Some (rn_kind nd)" and "ram_child s i = bt_get (rn_children nd)"
    and "ram_content s i = rn_data nd" and "bt_wf (rn_children nd)"
  using assms by (auto simp: ramfs_inv_def ram_kind_def ram_child_def ram_content_def fun_eq_iff)

lemma ramfs_inv_wf: "ramfs_inv s \<Longrightarrow> bt_wf (rf_nodes s)"
  by (simp add: ramfs_inv_def)

lemma ramfs_new_inv: "ramfs_inv ramfs_new"
  by (auto simp: ramfs_inv_def ramfs_new_def ram_directory_def ram_kind_def ram_child_def ram_tree_def
      split: if_splits)

text \<open>Replacing the data of a node.\<close>

lemma ramfs_data_update:
  fixes d :: "byte list"
  assumes inv: "ramfs_inv s" and nd: "bt_get (rf_nodes s) i = Some nd"
  defines "s' \<equiv> ramfs_node_mut s i (nd\<lparr>rn_data := d\<rparr>)"
  shows "ramfs_inv s'" and "ram_kind s' = ram_kind s" and "ram_child s' = ram_child s"
    and "ram_content s' = (ram_content s)(i := d)"
proof -
  note N = ramfs_inv_node [OF inv nd] and M = ram_node_mut [OF ramfs_inv_wf [OF inv], of i]
  show K: "ram_kind s' = ram_kind s" "ram_child s' = ram_child s" "ram_content s' = (ram_content s)(i := d)"
    using N by (auto simp: s'_def M fun_upd_idem)
  have "bt_wf (rn_children x)" if "bt_get (rf_nodes s') j = Some x" for j x
    using that inv N(4) by (auto simp: s'_def ramfs_node_mut_def ramfs_inv_def split: if_splits)
  then show "ramfs_inv s'"
    using inv M(4,5) K unfolding ramfs_inv_def by (simp add: s'_def)
qed

lemma vec_resize_resize: "vec_resize xs n = resize xs n"
  by (simp add: vec_resize_def resize_def)

lemma splice_vec:
  "(let d = if length old < off + length new then vec_resize old (off + length new) else old
    in take off d @ new @ drop (off + length new) d) = overwrite old off new"
  by (auto simp: overwrite_def vec_resize_def Let_def not_less)

lemma ram_tree_add:
  assumes T: "ram_tree k t" and "t p n = None" "k p = Some Directory" "k j = None" "name_ok n"
  shows "ram_tree (k(j \<mapsto> kd)) (t(p := (t p)(n \<mapsto> j)))"
proof -
  have "j \<noteq> 1" using assms by (auto simp: ram_tree_def)
  moreover have "t i m \<noteq> Some j" for i m using T assms(4) unfolding ram_tree_def by (metis option.distinct(1))
  moreover have "p \<noteq> j" using assms by auto
  ultimately show ?thesis using T assms(2-) unfolding ram_tree_def by (auto split: if_splits) metis+
qed

lemma ram_tree_remove:
  assumes T: "ram_tree k t" and "t p n = Some j" "\<And>m. t j m = None"
  shows "ram_tree (k(j := None)) (t(p := (t p)(n := None)))"
proof -
  have j: "j \<noteq> 1" "p \<noteq> j" using T assms(2,3) by (auto simp: ram_tree_def)
  have "x \<noteq> j" if "(t(p := (t p)(n := None))) i m = Some x" for i m x
    using that T assms(2) by (auto simp: ram_tree_def split: if_splits) metis+
  moreover have "i \<noteq> j" if "(t(p := (t p)(n := None))) i m = Some x" for i m x
    using that assms(3) j by (auto split: if_splits)
  ultimately show ?thesis using T j unfolding ram_tree_def by (auto split: if_splits) metis+
qed

section \<open>The contract holds\<close>

lemma ramfs_create_ok:
  assumes inv: "ramfs_inv s" and c: "ramfs_create_node kd s p n = (s', Inr j)"
  shows "ramfs_inv s' \<and> name_ok n \<and> ram_kind s p = Some Directory \<and> ram_child s p n = None \<and>
    ram_kind s j = None \<and> ram_kind s' = (ram_kind s)(j \<mapsto> kd) \<and>
    ram_child s' = (ram_child s)(p := (ram_child s p)(n \<mapsto> j)) \<and> ram_content s' = (ram_content s)(j := [])"
proof -
  define nd where "nd = (case kd of File \<Rightarrow> ram_file | Directory \<Rightarrow> ram_directory)"
  have nd: "rn_kind nd = kd" "rn_children nd = []" "rn_data nd = []"
    by (simp_all add: nd_def ram_file_def ram_directory_def split: node_kind.splits)
  obtain dir where dir: "bt_get (rf_nodes s) p = Some dir" "rn_kind dir = Directory"
    "bt_get (rn_children dir) n = None" "name_ok n" and j: "j = rf_next_inode s"
    and bound: "rf_next_inode s + 1 < 2 ^ 64"
    using c unfolding ramfs_create_node_def
    by (auto simp: ramfs_node_def usize_add_def validate_name_ok Let_def result_simps
        split: sum.splits if_splits)
  note N = ramfs_inv_node [OF inv dir(1)] and wf = ramfs_inv_wf [OF inv]
  have free: "bt_get (rf_nodes s) j = None"
    using inv by (auto simp: ramfs_inv_def ram_kind_def j)
  then have pj: "p \<noteq> j" using dir(1) by auto
  define s1 where "s1 = s\<lparr>rf_next_inode := j + 1, rf_nodes := bt_insert j nd (rf_nodes s)\<rparr>"
  define d' where "d' = dir\<lparr>rn_children := bt_insert n j (rn_children dir)\<rparr>"
  have v: "validate_name n = Inr ()" using dir(4) by (simp add: validate_name_ok)
  have s': "s' = ramfs_node_mut s1 p d'"
    using c dir(1-3) v bound wf pj unfolding ramfs_create_node_def
    by (simp add: ramfs_node_def usize_add_def validate_name_ok Let_def j [symmetric] nd_def [symmetric]
        s1_def d'_def)
  have wf1: "bt_wf (rf_nodes s1)" using wf by (simp add: s1_def)
  have d': "rn_kind d' = Directory" "bt_get (rn_children d') = (ram_child s p)(n \<mapsto> j)" "rn_data d' = rn_data dir"
    using dir(2) N by (simp_all add: d'_def)
  have K: "ram_kind s' = (ram_kind s)(j \<mapsto> kd)"
    and C: "ram_child s' = (ram_child s)(p := (ram_child s p)(n \<mapsto> j))"
    and D: "ram_content s' = (ram_content s)(j := [])"
    using dir(2) N pj nd free unfolding s' ram_node_mut [OF wf1] d'
    by (auto simp: fun_eq_iff s1_def ram_kind_def ram_child_def ram_content_def wf)
  have "bt_wf (rn_children x)" if "bt_get (rf_nodes s') i = Some x" for i x
    using that inv N(4) nd(2) wf1 wf
    by (auto simp: s' s1_def d'_def ramfs_node_mut_def ramfs_inv_def split: if_splits)
  moreover have "ram_tree (ram_kind s') (ram_child s')"
    unfolding K C using inv dir N free
    by (intro ram_tree_add) (auto simp: ramfs_inv_def ram_kind_def)
  moreover have "bt_wf (rf_nodes s')" "rf_next_inode s' = rf_next_inode s + 1"
    using ram_node_mut(4,5) [OF wf1] by (simp_all add: s' j) (simp add: s1_def j)
  ultimately have "ramfs_inv s'"
    using inv bound unfolding ramfs_inv_def K by (auto simp: j less_Suc_eq)
  then show ?thesis using K C D dir N free by (simp add: ram_kind_def)
qed

lemma ramfs_remove_ok:
  assumes inv: "ramfs_inv s" and c: "ramfs_remove s p n = (s', Inr ())"
  shows "\<exists>j. ramfs_inv s' \<and> name_ok n \<and> ram_child s p n = Some j \<and> (\<forall>m. ram_child s j m = None) \<and>
    ram_kind s' = (ram_kind s)(j := None) \<and> ram_child s' = (ram_child s)(p := (ram_child s p)(n := None)) \<and>
    ram_content s' = (ram_content s)(j := [])"
proof -
  obtain dir j cn where dir: "bt_get (rf_nodes s) p = Some dir" "name_ok n"
    "bt_get (rn_children dir) n = Some j" "bt_get (rf_nodes s) j = Some cn"
    "rn_kind cn = Directory \<Longrightarrow> rn_children cn = []" "rn_kind dir = Directory"
    and s': "s' = (let s = ramfs_node_mut s p (dir\<lparr>rn_children := bt_remove n (rn_children dir)\<rparr>)
      in s\<lparr>rf_nodes := bt_remove j (rf_nodes s)\<rparr>)"
    using c unfolding ramfs_remove_def
    by (auto simp: ramfs_node_def validate_name_ok Let_def result_simps split: sum.splits if_splits)
  note N = ramfs_inv_node [OF inv dir(1)] and J = ramfs_inv_node [OF inv dir(4)] and wf = ramfs_inv_wf [OF inv]
  have T: "ram_tree (ram_kind s) (ram_child s)" using inv by (simp add: ramfs_inv_def)
  have ch: "ram_child s p n = Some j" using N dir(3) by simp
  have leaf: "ram_child s j m = None" for m
  proof (cases "rn_kind cn")
    case File
    then have "ram_kind s j \<noteq> Some Directory" using J(1) by simp
    then show ?thesis using T unfolding ram_tree_def by (metis option.exhaust)
  qed (use J dir(5) in simp)
  have pj: "p \<noteq> j" using ch leaf by auto
  let ?d = "dir\<lparr>rn_children := bt_remove n (rn_children dir)\<rparr>"
  note M = ram_node_mut [OF wf, of p ?d]
  have d: "bt_get (rn_children ?d) = (ram_child s p)(n := None)" using N by simp
  have K: "ram_kind s' = (ram_kind s)(j := None)"
    and C: "ram_child s' = (ram_child s)(p := (ram_child s p)(n := None))"
    and D: "ram_content s' = (ram_content s)(j := [])"
    using dir(1,6) pj leaf N wf unfolding s' Let_def
    by (auto simp: fun_eq_iff ram_kind_def ram_child_def ram_content_def ramfs_node_mut_def)
  have "bt_wf (rn_children x)" if "bt_get (rf_nodes s') i = Some x" for i x
    using that inv N(4) wf
    by (auto simp: s' Let_def ramfs_node_mut_def ramfs_inv_def split: if_splits)
  moreover have "ram_tree (ram_kind s') (ram_child s')"
    unfolding K C by (rule ram_tree_remove [OF T ch leaf])
  ultimately have "ramfs_inv s'"
    using inv M(4,5) unfolding ramfs_inv_def K by (auto simp: s' Let_def)
  then show ?thesis using K C D ch leaf dir(2) by blast
qed

lemma ramfs_failed:
  assumes "ramfs_inv s"
    and "ramfs_write s i off data = (s', Inl e) \<or> ramfs_truncate s i len = (s', Inl e) \<or>
      ramfs_create_node k s i n = (s', Inl e) \<or> ramfs_remove s i n = (s', Inl e)"
  shows "s' = s"
proof -
  have "s' = s" if c: "ramfs_create_node k s i n = (s', Inl e)"
  proof (rule ccontr)
    assume "s' \<noteq> s"
    then obtain nd where "bt_get (rf_nodes s) i \<noteq> None" "bt_get (bt_insert (rf_next_inode s) nd (rf_nodes s)) i = None"
      using c unfolding ramfs_create_node_def
      by (auto simp: ramfs_node_def Let_def result_simps split: sum.splits if_splits)
    then show False using ramfs_inv_wf [OF assms(1)] by (simp split: if_splits)
  qed
  then show ?thesis
    using assms(2) unfolding ramfs_write_def ramfs_truncate_def ramfs_remove_def
    by (auto simp: Let_def split: sum.splits if_splits option.splits prod.splits)
qed

lemma not_directory: "k \<noteq> Directory \<longleftrightarrow> k = File"
  by (cases k) auto

lemma ramfs_write_ok:
  assumes inv: "ramfs_inv s" and w: "ramfs_write s i off data = (s', Inr count)"
  shows "ramfs_inv s' \<and> count = length data \<and> ram_kind s i = Some File \<and> ram_kind s' = ram_kind s \<and>
    ram_child s' = ram_child s \<and> ram_content s' = (ram_content s)(i := overwrite (ram_content s i) off data)"
proof -
  obtain nd where nd: "bt_get (rf_nodes s) i = Some nd" "rn_kind nd = File" "count = length data"
    "s' = ramfs_node_mut s i (nd\<lparr>rn_data := overwrite (rn_data nd) off data\<rparr>)"
    using w unfolding ramfs_write_def splice_vec [symmetric]
    by (auto simp: ramfs_node_def usize_add_def ok_or_eq_Inr not_directory Let_def
        split: sum.splits if_split_asm)
  show ?thesis
    using ramfs_data_update [OF inv nd(1), of "overwrite (rn_data nd) off data"] nd
      ramfs_inv_node [OF inv nd(1)] by simp
qed

lemma ramfs_truncate_ok:
  assumes inv: "ramfs_inv s" and w: "ramfs_truncate s i len = (s', Inr ())"
  shows "ramfs_inv s' \<and> ram_kind s i = Some File \<and> ram_kind s' = ram_kind s \<and>
    ram_child s' = ram_child s \<and> ram_content s' = (ram_content s)(i := resize (ram_content s i) len)"
proof -
  obtain nd where nd: "bt_get (rf_nodes s) i = Some nd" "rn_kind nd = File"
    "s' = ramfs_node_mut s i (nd\<lparr>rn_data := resize (rn_data nd) len\<rparr>)"
    using w unfolding ramfs_truncate_def vec_resize_resize
    by (auto simp: ramfs_node_def ok_or_eq_Inr not_directory split: sum.splits if_splits)
  show ?thesis
    using ramfs_data_update [OF inv nd(1), of "resize (rn_data nd) len"] nd
      ramfs_inv_node [OF inv nd(1)] by simp
qed

interpretation ram: file_system ramfs_ops ramfs_inv ram_kind ram_child ram_content
proof unfold_locales
  fix s i n j k off len data s' count
  assume inv: "ramfs_inv s"
  have T: "ram_tree (ram_kind s) (ram_child s)" using inv by (simp add: ramfs_inv_def)
  show "ram_kind s (fs_root_inode ramfs_ops s) = Some Directory" using T by (simp add: ramfs_ops_def ram_tree_def)
  show "ram_kind s i = Some Directory \<and> ram_kind s j \<noteq> None" if "ram_child s i n = Some j"
    using T that unfolding ram_tree_def by blast
  show "fs_lookup ramfs_ops s i n = (case ram_child s i n of None \<Rightarrow> Inl NotFound | Some j \<Rightarrow> Inr j)"
    if "ram_kind s i = Some Directory" "name_ok n"
    using that by (auto simp: ramfs_ops_def ramfs_lookup_def ram_kind_def ram_child_def ramfs_node_def
        validate_name_ok [THEN iffD2] split: option.split)
  show "name_ok n \<and> ram_child s i n = Some j" if "fs_lookup ramfs_ops s i n = Inr j"
    using that by (auto simp: ramfs_ops_def ramfs_lookup_def ram_child_def ramfs_node_def validate_name_ok
        result_simps split: if_splits)
  show "fs_metadata ramfs_ops s i =
      Inr \<lparr>md_inode = i, md_kind = k, md_len = (if k = File then length (ram_content s i) else 0)\<rparr>"
    if "ram_kind s i = Some k"
    using that by (auto simp: ramfs_ops_def ramfs_metadata_def ram_kind_def ram_content_def ramfs_node_def
        split: node_kind.split)
  show "fs_read ramfs_ops s i off len = Inr (take len (drop off (ram_content s i)))"
    if "ram_kind s i = Some File"
    using that by (auto simp: ramfs_ops_def ramfs_read_def ram_kind_def ram_content_def ramfs_node_def
        Let_def min_def)
  show "ramfs_inv s' \<and> count = length data \<and> ram_kind s i = Some File \<and> ram_kind s' = ram_kind s \<and>
      ram_child s' = ram_child s \<and> fs_root_inode ramfs_ops s' = fs_root_inode ramfs_ops s \<and>
      ram_content s' = (ram_content s)(i := overwrite (ram_content s i) off data)"
    if "fs_write ramfs_ops s i off data = (s', Inr count)"
    using ramfs_write_ok [OF inv, of i off data s' count] that by (simp add: ramfs_ops_def)
  show "ramfs_inv s' \<and> ram_kind s i = Some File \<and> ram_kind s' = ram_kind s \<and>
      ram_child s' = ram_child s \<and> fs_root_inode ramfs_ops s' = fs_root_inode ramfs_ops s \<and>
      ram_content s' = (ram_content s)(i := resize (ram_content s i) len)"
    if "fs_truncate ramfs_ops s i len = (s', Inr ())"
    using ramfs_truncate_ok [OF inv, of i len s'] that by (simp add: ramfs_ops_def)
next
  fix s k p n s' j
  assume "ramfs_inv s" and "(k = File \<and> fs_create_file ramfs_ops s p n = (s', Inr j)) \<or>
    (k = Directory \<and> fs_create_dir ramfs_ops s p n = (s', Inr j))"
  then show "ramfs_inv s' \<and> name_ok n \<and> ram_kind s p = Some Directory \<and> ram_child s p n = None \<and>
      ram_kind s j = None \<and> ram_kind s' = (ram_kind s)(j \<mapsto> k) \<and>
      ram_child s' = (ram_child s)(p := (ram_child s p)(n \<mapsto> j)) \<and>
      fs_root_inode ramfs_ops s' = fs_root_inode ramfs_ops s \<and> ram_content s' = (ram_content s)(j := [])"
    using ramfs_create_ok [of s k p n s' j] by (auto simp: ramfs_ops_def)
next
  fix s p n s'
  assume "ramfs_inv s" and "fs_remove ramfs_ops s p n = (s', Inr ())"
  then show "\<exists>j. ramfs_inv s' \<and> name_ok n \<and> ram_child s p n = Some j \<and> (\<forall>m. ram_child s j m = None) \<and>
      ram_kind s' = (ram_kind s)(j := None) \<and> ram_child s' = (ram_child s)(p := (ram_child s p)(n := None)) \<and>
      fs_root_inode ramfs_ops s' = fs_root_inode ramfs_ops s \<and> ram_content s' = (ram_content s)(j := [])"
    using ramfs_remove_ok [of s p n s'] by (simp add: ramfs_ops_def)
next
  fix s i off data s' e len n
  assume "ramfs_inv s" and "fs_write ramfs_ops s i off data = (s', Inl e) \<or>
    fs_truncate ramfs_ops s i len = (s', Inl e) \<or> fs_create_file ramfs_ops s i n = (s', Inl e) \<or>
    fs_create_dir ramfs_ops s i n = (s', Inl e) \<or> fs_remove ramfs_ops s i n = (s', Inl e)"
  then show "s' = s"
    using ramfs_failed [of s i off data s' e len _ n] by (auto simp: ramfs_ops_def)
qed

end
