(* ===== verification/Kernel_Vfs.thy ===== *)
theory Kernel_Vfs
  imports Ram_Fs Generic_Fs
begin

text \<open>
  The kernel's filesystem tree, \<open>kernel/src/vfs.rs\<close>. A mount holds a \<open>Box<dyn FileSystem>\<close>: either
  the memory filesystem or GenericFS on a block device, with the calls dispatched on which one it is.
  The global \<open>VFS\<close> behind its lock is the state; the functions that need it are defined on the tree
  after initialization, and using it earlier is the panic of \<open>with_vfs\<close>.
\<close>

datatype 'd any_fs = Ram ramfs | Disk 'd

fun on_fs :: "(ramfs \<Rightarrow> 'a) \<Rightarrow> ('d \<Rightarrow> 'a) \<Rightarrow> 'd any_fs \<Rightarrow> 'a" where
  "on_fs f g (Ram s) = f s"
| "on_fs f g (Disk d) = g d"

fun on_fs_mut :: "(ramfs \<Rightarrow> ramfs \<times> 'r) \<Rightarrow> ('d \<Rightarrow> 'd \<times> 'r) \<Rightarrow> 'd any_fs \<Rightarrow> 'd any_fs \<times> 'r" where
  "on_fs_mut f g (Ram s) = (case f s of (s', r) \<Rightarrow> (Ram s', r))"
| "on_fs_mut f g (Disk d) = (case g d of (d', r) \<Rightarrow> (Disk d', r))"

definition any_ops :: "'d block_ops \<Rightarrow> 'd any_fs fs_ops" where
  "any_ops bd =
     (let R = ramfs_ops; G = gfs_ops bd in
      \<lparr>fs_name = on_fs (fs_name R) (fs_name G), fs_root_inode = on_fs (fs_root_inode R) (fs_root_inode G),
       fs_metadata = on_fs (fs_metadata R) (fs_metadata G), fs_lookup = on_fs (fs_lookup R) (fs_lookup G),
       fs_read_dir = on_fs (fs_read_dir R) (fs_read_dir G),
       fs_create_file = (\<lambda>s p n. on_fs_mut (\<lambda>r. fs_create_file R r p n) (\<lambda>d. fs_create_file G d p n) s),
       fs_create_dir = (\<lambda>s p n. on_fs_mut (\<lambda>r. fs_create_dir R r p n) (\<lambda>d. fs_create_dir G d p n) s),
       fs_read = on_fs (fs_read R) (fs_read G),
       fs_write = (\<lambda>s i off data. on_fs_mut (\<lambda>r. fs_write R r i off data) (\<lambda>d. fs_write G d i off data) s),
       fs_truncate = (\<lambda>s i len. on_fs_mut (\<lambda>r. fs_truncate R r i len) (\<lambda>d. fs_truncate G d i len) s),
       fs_remove = (\<lambda>s p n. on_fs_mut (\<lambda>r. fs_remove R r p n) (\<lambda>d. fs_remove G d p n) s)\<rparr>)"

type_synonym 'd kernel_vfs = "'d any_fs vfs"

section \<open>The functions of the module\<close>

definition canonicalize :: "string \<Rightarrow> string \<Rightarrow> vfs_error + string" where
  "canonicalize cwd path = normalize_path cwd path"

definition read_file :: "'d block_ops \<Rightarrow> 'd kernel_vfs \<Rightarrow> string \<Rightarrow> vfs_error + byte list" where
  "read_file bd v path = vfs_read_all (any_ops bd) v path"

definition write_file ::
  "'d block_ops \<Rightarrow> 'd kernel_vfs \<Rightarrow> string \<Rightarrow> byte list \<Rightarrow> bool \<Rightarrow> 'd kernel_vfs \<times> (vfs_error + nat)" where
  "write_file bd v path data append' =
     sbind (\<lambda>v. case vfs_metadata (any_ops bd) v path of
         Inr m \<Rightarrow>
           (if md_kind m = Directory then (v, Inl IsDirectory)
            else if append' then (v, Inr (md_len m))
            else sbind (\<lambda>v. vfs_truncate (any_ops bd) v path 0) (\<lambda>_. sret 0) v)
       | Inl NotFound \<Rightarrow> sbind (\<lambda>v. vfs_create_file (any_ops bd) v path) (\<lambda>_. sret 0) v
       | Inl e \<Rightarrow> (v, Inl e))
     (\<lambda>offset v. vfs_write (any_ops bd) v path offset data) v"

definition touch :: "'d block_ops \<Rightarrow> 'd kernel_vfs \<Rightarrow> string \<Rightarrow> 'd kernel_vfs \<times> (vfs_error + unit)" where
  "touch bd v path =
     (case vfs_metadata (any_ops bd) v path of
        Inr m \<Rightarrow> (if md_kind m = File then (v, Inr ()) else (v, Inl IsDirectory))
      | Inl NotFound \<Rightarrow> sbind (\<lambda>v. vfs_create_file (any_ops bd) v path) (\<lambda>_. sret ()) v
      | Inl e \<Rightarrow> (v, Inl e))"

definition mkdir :: "'d block_ops \<Rightarrow> 'd kernel_vfs \<Rightarrow> string \<Rightarrow> 'd kernel_vfs \<times> (vfs_error + unit)" where
  "mkdir bd v path = sbind (\<lambda>v. vfs_create_dir (any_ops bd) v path) (\<lambda>_. sret ()) v"

definition remove_path :: "'d block_ops \<Rightarrow> 'd kernel_vfs \<Rightarrow> string \<Rightarrow> 'd kernel_vfs \<times> (vfs_error + unit)" where
  "remove_path bd v path = vfs_remove (any_ops bd) v path"

text \<open>\<open>seed_file\<close> ends in a panic where an operation fails.\<close>

datatype vfs_panic = Expect vfs_error | Exists_not_file | Readback_mismatch | Vfs_uninitialized | Vfs_twice

definition expect :: "'d kernel_vfs \<times> (vfs_error + 'a) \<Rightarrow> 'd kernel_vfs \<times> (vfs_panic + 'a)" where
  "expect r = (case r of (v, x) \<Rightarrow> (v, map_err Expect x))"

definition seed_file ::
  "'d block_ops \<Rightarrow> string \<Rightarrow> byte list \<Rightarrow> 'd kernel_vfs \<Rightarrow> 'd kernel_vfs \<times> (vfs_panic + unit)" where
  "seed_file bd path data =
     sbind (\<lambda>v. case vfs_metadata (any_ops bd) v path of
         Inr m \<Rightarrow>
           (if md_kind m = File then expect (vfs_truncate (any_ops bd) v path 0)
            else (v, Inl Exists_not_file))
       | Inl NotFound \<Rightarrow> sbind (\<lambda>v. expect (vfs_create_file (any_ops bd) v path)) (\<lambda>_. sret ()) v
       | Inl e \<Rightarrow> (v, Inl (Expect e)))
     (\<lambda>_. sbind (\<lambda>v. expect (vfs_write (any_ops bd) v path 0 data)) (\<lambda>_. sret ()))"

definition bytes_of :: "string \<Rightarrow> byte list" where
  "bytes_of s = map (\<lambda>c. of_nat (of_char c)) s"

definition verify_ramfs :: "'d block_ops \<Rightarrow> 'd kernel_vfs \<Rightarrow> 'd kernel_vfs \<times> (vfs_panic + unit)" where
  "verify_ramfs bd =
     sbind (\<lambda>v. expect (vfs_create_dir (any_ops bd) v ''/tmp/.vfs-smoke'')) (\<lambda>_.
     sbind (\<lambda>v. expect (vfs_create_file (any_ops bd) v ''/tmp/.vfs-smoke/probe'')) (\<lambda>_.
     sbind (\<lambda>v. expect (vfs_write (any_ops bd) v ''/tmp/.vfs-smoke/probe'' 0 (bytes_of ''generic-vfs''))) (\<lambda>_.
     sbind (\<lambda>v. expect (v, vfs_read_all (any_ops bd) v ''/tmp/.vfs-smoke/probe'')) (\<lambda>data.
     if data \<noteq> bytes_of ''generic-vfs'' then sfail Readback_mismatch
     else
     sbind (\<lambda>v. expect (v, vfs_read_dir (any_ops bd) v ''/tmp/.vfs-smoke'')) (\<lambda>entries.
     if \<not> list_ex (\<lambda>e. de_name e = ''probe'') entries then sfail Readback_mismatch
     else
     sbind (\<lambda>v. expect (vfs_remove (any_ops bd) v ''/tmp/.vfs-smoke/probe'')) (\<lambda>_.
     \<lambda>v. expect (vfs_remove (any_ops bd) v ''/tmp/.vfs-smoke'')))))))"

section \<open>The contract for the dispatched filesystem\<close>

text \<open>The contract holds where a mount is a memory filesystem.\<close>

fun any_inv :: "'d any_fs \<Rightarrow> bool" where
  "any_inv (Ram s) = ramfs_inv s"
| "any_inv (Disk d) = False"

definition any_kind :: "'d any_fs \<Rightarrow> inode \<Rightarrow> node_kind option" where
  "any_kind = on_fs ram_kind (\<lambda>_ _. None)"

definition any_child :: "'d any_fs \<Rightarrow> inode \<Rightarrow> string \<Rightarrow> inode option" where
  "any_child = on_fs ram_child (\<lambda>_ _ _. None)"

definition any_content :: "'d any_fs \<Rightarrow> inode \<Rightarrow> byte list" where
  "any_content = on_fs ram_content (\<lambda>_ _. [])"

lemma any_inv_Ram: "any_inv s \<longleftrightarrow> (\<exists>r. s = Ram r \<and> ramfs_inv r)"
  by (cases s) auto

lemmas any_defs = any_kind_def any_child_def any_content_def any_ops_def Let_def

lemma on_fs_mut_Ram: "on_fs_mut f g (Ram r) = (s', x) \<longleftrightarrow> (\<exists>r'. s' = Ram r' \<and> f r = (r', x))"
  by (auto split: prod.splits)

declare on_fs_mut.simps(1) [simp del]

interpretation any: file_system "any_ops bd" any_inv any_kind any_child any_content
  for bd :: "'d block_ops"
proof unfold_locales
  fix s s' :: "'d any_fs" and i n j k off len data count
  assume "any_inv s"
  then obtain r where s: "s = Ram r" and inv: "ramfs_inv r" by (auto simp: any_inv_Ram)
  show "any_kind s (fs_root_inode (any_ops bd) s) = Some Directory" using ram.root_dir [OF inv] by (simp add: s any_defs)
  show "any_kind s i = Some Directory \<and> any_kind s j \<noteq> None" if "any_child s i n = Some j"
    using ram.child_kind [OF inv] that by (simp add: s any_defs)
  show "fs_lookup (any_ops bd) s i n = (case any_child s i n of None \<Rightarrow> Inl NotFound | Some j \<Rightarrow> Inr j)"
    if "any_kind s i = Some Directory" "name_ok n" using ram.lookup_dir [OF inv] that by (simp add: s any_defs)
  show "name_ok n \<and> any_child s i n = Some j" if "fs_lookup (any_ops bd) s i n = Inr j"
    using ram.lookup_ok [OF inv] that by (simp add: s any_defs)
  show "fs_metadata (any_ops bd) s i =
      Inr \<lparr>md_inode = i, md_kind = k, md_len = (if k = File then length (any_content s i) else 0)\<rparr>"
    if "any_kind s i = Some k" using ram.metadata [OF inv] that by (simp add: s any_defs)
  show "fs_read (any_ops bd) s i off len = Inr (take len (drop off (any_content s i)))"
    if "any_kind s i = Some File" using ram.read_file [OF inv] that by (simp add: s any_defs)
  show "any_inv s' \<and> count = length data \<and> any_kind s i = Some File \<and> any_kind s' = any_kind s \<and>
      any_child s' = any_child s \<and> fs_root_inode (any_ops bd) s' = fs_root_inode (any_ops bd) s \<and>
      any_content s' = (any_content s)(i := overwrite (any_content s i) off data)"
    if "fs_write (any_ops bd) s i off data = (s', Inr count)"
    using ram.write_ok [OF inv, of i off data _ count] that by (auto simp: s any_defs on_fs_mut_Ram)
  show "any_inv s' \<and> any_kind s i = Some File \<and> any_kind s' = any_kind s \<and>
      any_child s' = any_child s \<and> fs_root_inode (any_ops bd) s' = fs_root_inode (any_ops bd) s \<and>
      any_content s' = (any_content s)(i := resize (any_content s i) len)"
    if "fs_truncate (any_ops bd) s i len = (s', Inr ())"
    using ram.truncate_ok [OF inv, of i len] that by (auto simp: s any_defs on_fs_mut_Ram)
next
  fix s s' :: "'d any_fs" and k p n j
  assume "any_inv s" and c: "(k = File \<and> fs_create_file (any_ops bd) s p n = (s', Inr j)) \<or>
    (k = Directory \<and> fs_create_dir (any_ops bd) s p n = (s', Inr j))"
  then obtain r where s: "s = Ram r" and inv: "ramfs_inv r" by (auto simp: any_inv_Ram)
  show "any_inv s' \<and> name_ok n \<and> any_kind s p = Some Directory \<and> any_child s p n = None \<and>
      any_kind s j = None \<and> any_kind s' = (any_kind s)(j \<mapsto> k) \<and>
      any_child s' = (any_child s)(p := (any_child s p)(n \<mapsto> j)) \<and>
      fs_root_inode (any_ops bd) s' = fs_root_inode (any_ops bd) s \<and> any_content s' = (any_content s)(j := [])"
    using ram.create_ok [OF inv, of k p n _ j] c by (auto simp: s any_defs on_fs_mut_Ram)
next
  fix s s' :: "'d any_fs" and p n
  assume "any_inv s" and c: "fs_remove (any_ops bd) s p n = (s', Inr ())"
  then obtain r where s: "s = Ram r" and inv: "ramfs_inv r" by (auto simp: any_inv_Ram)
  obtain r' where r': "s' = Ram r'" "fs_remove ramfs_ops r p n = (r', Inr ())"
    using c by (auto simp: s any_defs on_fs_mut_Ram)
  from ram.remove_ok [OF inv r'(2)] show "\<exists>j. any_inv s' \<and> name_ok n \<and> any_child s p n = Some j \<and>
      (\<forall>m. any_child s j m = None) \<and> any_kind s' = (any_kind s)(j := None) \<and>
      any_child s' = (any_child s)(p := (any_child s p)(n := None)) \<and>
      fs_root_inode (any_ops bd) s' = fs_root_inode (any_ops bd) s \<and> any_content s' = (any_content s)(j := [])"
    by (simp add: s r'(1) any_defs)
next
  fix s s' :: "'d any_fs" and i off data e len n
  assume "any_inv s" and f: "fs_write (any_ops bd) s i off data = (s', Inl e) \<or>
    fs_truncate (any_ops bd) s i len = (s', Inl e) \<or> fs_create_file (any_ops bd) s i n = (s', Inl e) \<or>
    fs_create_dir (any_ops bd) s i n = (s', Inl e) \<or> fs_remove (any_ops bd) s i n = (s', Inl e)"
  then obtain r where s: "s = Ram r" and inv: "ramfs_inv r" by (auto simp: any_inv_Ram)
  show "s' = s" using ram.failed [OF inv, of i off data _ e len n] f by (auto simp: s any_defs on_fs_mut_Ram)
qed

section \<open>What the functions guarantee\<close>

text \<open>A path into a memory filesystem.\<close>

definition on_ram :: "'d kernel_vfs \<Rightarrow> string \<Rightarrow> bool" where
  "on_ram v path \<longleftrightarrow> (\<forall>k ds. leads_to v path k ds \<longrightarrow> any_inv (mount_fs (v ! k)))"

lemma leads_to_unique: "\<lbrakk>leads_to v path k ds; leads_to v path l es\<rbrakk> \<Longrightarrow> k = l"
  by (auto simp: leads_to_def)

lemma on_ram_put:
  assumes "mounts_ok v" and "on_ram v path" and "locate (any_ops bd) v path = Inr (k, i)" and "any_inv s'"
  shows "on_ram (put_fs v k s') path"
proof -
  obtain ds where ds: "leads_to v path k ds" using located_leads_to [OF assms(1,3)] .
  then have k: "k < length v" by (simp add: leads_to_def)
  show ?thesis
    unfolding on_ram_def leads_to_put
  proof (intro allI impI)
    fix l es assume "leads_to v path l es"
    then have "l = k" using leads_to_unique ds by blast
    then show "any_inv (mount_fs (put_fs v k s' ! l))" using assms(4) by (simp add: nth_put_fs k)
  qed
qed

lemma on_ram_located:
  assumes "mounts_ok v" and "on_ram v path" and "locate (any_ops bd) v path = Inr (k, i)"
  shows "any_inv (mount_fs (v ! k))"
  using located_leads_to [OF assms(1,3)] assms(2) by (metis on_ram_def)

text \<open>The change of the contents of one file of the tree.\<close>

definition file_now ::
  "'d block_ops \<Rightarrow> 'd kernel_vfs \<Rightarrow> 'd kernel_vfs \<Rightarrow> string \<Rightarrow> byte list \<Rightarrow> bool" where
  "file_now bd v v' path new \<longleftrightarrow>
     mounts_ok v' \<and> on_ram v' path \<and> read_file bd v' path = Inr new \<and>
     (\<forall>q b. read_file bd v q = Inr b \<and> locate (any_ops bd) v q \<noteq> locate (any_ops bd) v' path \<longrightarrow>
        read_file bd v' q = Inr b \<and> locate (any_ops bd) v' q = locate (any_ops bd) v q)"

lemma read_file_located:
  "read_file bd v q = Inr b \<Longrightarrow> \<exists>l j. locate (any_ops bd) v q = Inr (l, j)"
  by (auto simp: read_file_def vfs_read_all_def vfs_metadata_locate result_simps)

lemma update_now:
  assumes v: "mounts_ok v" "on_ram v path" and loc: "locate (any_ops bd) v path = Inr (k, i)"
    and s': "any_inv s'" "any_kind s' = any_kind (mount_fs (v ! k))" "any_child s' = any_child (mount_fs (v ! k))"
      "fs_root_inode (any_ops bd) s' = fs_root_inode (any_ops bd) (mount_fs (v ! k))"
      "any_content s' = (any_content (mount_fs (v ! k)))(i := new)"
    and isf: "any_kind (mount_fs (v ! k)) i = Some File"
  shows "file_now bd v (put_fs v k s') path new" and "locate (any_ops bd) (put_fs v k s') path = Inr (k, i)"
proof -
  have s: "any_inv (mount_fs (v ! k))" by (rule on_ram_located [OF v loc])
  note C = any.content_update [OF v(1) loc s s' isf]
  have k: "k < length v" using located_leads_to [OF v(1) loc] by (auto simp: leads_to_def)
  show at: "locate (any_ops bd) (put_fs v k s') path = Inr (k, i)" using C(1) loc by blast
  have "read_file bd (put_fs v k s') q = Inr b \<and> locate (any_ops bd) (put_fs v k s') q = locate (any_ops bd) v q"
    if q: "read_file bd v q = Inr b" "locate (any_ops bd) v q \<noteq> Inr (k, i)" for q b
  proof -
    obtain l j where lj: "locate (any_ops bd) v q = Inr (l, j)" using read_file_located [OF q(1)] by blast
    then have lj': "locate (any_ops bd) (put_fs v k s') q = Inr (l, j)" using C(1) by blast
    have "(l, j) \<noteq> (k, i)" using q(2) lj by auto
    then have "vfs_read_all (any_ops bd) (put_fs v k s') q = vfs_read_all (any_ops bd) v q"
      using s s' k by (intro any.read_all_same [OF v(1) lj lj']) (cases "l = k"; auto simp: nth_put_fs)
    then show ?thesis using q(1) lj lj' by (simp add: read_file_def)
  qed
  then show "file_now bd v (put_fs v k s') path new"
    using v(1) on_ram_put [OF v loc s'(1)] C(3) at by (simp add: file_now_def read_file_def)
qed

lemma write_now:
  assumes v: "mounts_ok v" "on_ram v path" and w: "vfs_write (any_ops bd) v path off data = (v', Inr n)"
  shows "n = length data" and "locate (any_ops bd) v' path = locate (any_ops bd) v path"
    and "\<exists>old. read_file bd v path = Inr old \<and> file_now bd v v' path (overwrite old off data)"
proof -
  have s: "\<And>k i. locate (any_ops bd) v path = Inr (k, i) \<Longrightarrow> any_inv (mount_fs (v ! k))"
    by (rule on_ram_located [OF v])
  obtain k i s' where C: "locate (any_ops bd) v path = Inr (k, i)" "v' = put_fs v k s'" "k < length v"
    "n = length data" "any_inv s'" "any_kind (mount_fs (v ! k)) i = Some File"
    "any_kind s' = any_kind (mount_fs (v ! k))" "any_child s' = any_child (mount_fs (v ! k))"
    "fs_root_inode (any_ops bd) s' = fs_root_inode (any_ops bd) (mount_fs (v ! k))"
    "any_content s' = (any_content (mount_fs (v ! k)))(i := overwrite (any_content (mount_fs (v ! k)) i) off data)"
    by (rule any.vfs_write_cases [OF v(1) s w])
  show "n = length data" by (rule C(4))
  show "locate (any_ops bd) v' path = locate (any_ops bd) v path"
    using update_now(2) [OF v C(1,5,7-10,6)] by (simp only: C(1,2))
  show "\<exists>old. read_file bd v path = Inr old \<and> file_now bd v v' path (overwrite old off data)"
    using any.read_all_located [OF v(1) C(1) s [OF C(1)] C(6)] update_now(1) [OF v C(1,5,7-10,6)]
    unfolding C(2) read_file_def by blast
qed

lemma truncate_now:
  assumes v: "mounts_ok v" "on_ram v path" and w: "vfs_truncate (any_ops bd) v path len = (v', Inr n)"
  shows "\<exists>old. read_file bd v path = Inr old \<and> file_now bd v v' path (resize old len) \<and>
    locate (any_ops bd) v' path = locate (any_ops bd) v path"
proof -
  have s: "\<And>k i. locate (any_ops bd) v path = Inr (k, i) \<Longrightarrow> any_inv (mount_fs (v ! k))"
    by (rule on_ram_located [OF v])
  obtain k i s' where C: "locate (any_ops bd) v path = Inr (k, i)" "v' = put_fs v k s'" "k < length v"
    "any_inv s'" "any_kind (mount_fs (v ! k)) i = Some File"
    "any_kind s' = any_kind (mount_fs (v ! k))" "any_child s' = any_child (mount_fs (v ! k))"
    "fs_root_inode (any_ops bd) s' = fs_root_inode (any_ops bd) (mount_fs (v ! k))"
    "any_content s' = (any_content (mount_fs (v ! k)))(i := resize (any_content (mount_fs (v ! k)) i) len)"
    by (rule any.vfs_truncate_cases [OF v(1) s w])
  show ?thesis
    using any.read_all_located [OF v(1) C(1) s [OF C(1)] C(5)] update_now [OF v C(1,4,6-9,5)] C(1)
    unfolding C(2) read_file_def by auto
qed

lemma create_now:
  assumes v: "mounts_ok v" "on_ram v path" and c: "vfs_create_file (any_ops bd) v path = (v', Inr m)"
  shows "file_now bd v v' path []" and "locate (any_ops bd) v path = Inl NotFound"
proof -
  have s0: "\<And>k ds. leads_to v path k ds \<Longrightarrow> any_inv (mount_fs (v ! k))" using v(2) unfolding on_ram_def by blast
  have c': "(File = File \<and> vfs_create_file (any_ops bd) v path = (v', Inr m)) \<or>
      (File = Directory \<and> vfs_create_dir (any_ops bd) v path = (v', Inr m))" using c by simp
  obtain k s' j where C: "v' = put_fs v k s'" "k < length v" "any_inv s'" "locate (any_ops bd) v path = Inl NotFound"
    "locate (any_ops bd) v' path = Inr (k, j)" "m = \<lparr>md_inode = j, md_kind = File, md_len = 0\<rparr>"
    "fs_metadata (any_ops bd) s' j = Inr m"
    "\<forall>q l i. (l, i) \<noteq> (k, j) \<longrightarrow> (locate (any_ops bd) v' q = Inr (l, i) \<longleftrightarrow> locate (any_ops bd) v q = Inr (l, i))"
    "any_kind s' = (any_kind (mount_fs (v ! k)))(j \<mapsto> File)"
    "any_content s' = (any_content (mount_fs (v ! k)))(j := [])"
    by (rule any.vfs_create_cases [OF v(1) s0 c'])
  have v': "mounts_ok v'" using v(1) by (simp add: C(1))
  have s': "mount_fs (v' ! k) = s'" by (simp add: C(1,2) nth_put_fs)
  obtain ds where ds: "leads_to v path k ds" using located_leads_to [OF v' C(5)] by (auto simp: C(1))
  then have s: "any_inv (mount_fs (v ! k))" using v(2) by (auto simp: on_ram_def)
  have ram: "on_ram v' path"
    unfolding on_ram_def
  proof (intro allI impI)
    fix l es assume "leads_to v' path l es"
    then have "k = l" using leads_to_unique [OF ds] by (simp add: C(1))
    then show "any_inv (mount_fs (v' ! l))" using C(3) s' by simp
  qed
  have now: "read_file bd v' path = Inr []"
    using any.read_all_located [OF v' C(5)] C(3,9,10) by (simp add: s' read_file_def)
  have "read_file bd v' q = Inr b \<and> locate (any_ops bd) v' q = locate (any_ops bd) v q"
    if q: "read_file bd v q = Inr b" "locate (any_ops bd) v q \<noteq> Inr (k, j)" for q b
  proof -
    obtain l i where lj: "locate (any_ops bd) v q = Inr (l, i)" using read_file_located [OF q(1)] by blast
    then have ne: "(l, i) \<noteq> (k, j)" using q(2) by auto
    then have lj': "locate (any_ops bd) v' q = Inr (l, i)" using C(8) lj by blast
    have "vfs_read_all (any_ops bd) v' q = vfs_read_all (any_ops bd) v q"
      using s s' C(2,3,9,10) ne by (intro any.read_all_same [OF v(1) lj lj']) (cases "l = k"; auto simp: C(1) nth_put_fs)
    then show ?thesis using q(1) lj lj' by (simp add: read_file_def)
  qed
  then show "file_now bd v v' path []" using v' ram now C(5) by (simp add: file_now_def)
  show "locate (any_ops bd) v path = Inl NotFound" by (rule C(4))
qed

lemma file_now_trans:
  assumes "file_now bd v v1 path a" and "file_now bd v1 v2 path b"
    and "locate (any_ops bd) v2 path = locate (any_ops bd) v1 path"
  shows "file_now bd v v2 path b"
  using assms unfolding file_now_def by metis

lemma overwrite_append: "overwrite old (length old) data = old @ data"
  by (simp add: overwrite_def)

lemma overwrite_empty: "overwrite [] 0 data = data"
  by (simp add: overwrite_def)

lemma metadata_of_file:
  assumes v: "mounts_ok v" "on_ram v path" and m: "vfs_metadata (any_ops bd) v path = Inr m" "md_kind m = File"
  shows "\<exists>old. read_file bd v path = Inr old \<and> md_len m = length old"
proof -
  obtain k i where ki: "locate (any_ops bd) v path = Inr (k, i)" using m(1) by (auto simp: vfs_metadata_locate result_simps)
  note s = on_ram_located [OF v ki]
  obtain kd where kd: "any_kind (mount_fs (v ! k)) i = Some kd" using any.located_kind [OF v(1) ki s] by blast
  have "m = \<lparr>md_inode = i, md_kind = kd, md_len = (if kd = File then length (any_content (mount_fs (v ! k)) i) else 0)\<rparr>"
    using m(1) any.metadata [OF s kd, where bd = bd] by (simp add: vfs_metadata_locate ki)
  then show ?thesis using any.read_all_located [OF v(1) ki s] kd m(2) by (auto simp: read_file_def)
qed

text \<open>
  C9: Writing a whole file into the kernel's tree, at a path that a memory filesystem serves: a
  successful \<open>write_file\<close> wrote all bytes, and reading the path then gives exactly these bytes, or, when
  appending, what the file held before followed by these bytes; a file that was absent counts as empty.
  Every file at another place of the tree, also on a mounted disk, reads as before.
\<close>

theorem write_file_correct:
  assumes v: "mounts_ok v" "on_ram v path" and w: "write_file bd v path data app = (v', Inr n)"
  shows "n = length data \<and>
    read_file bd v' path =
      Inr ((if app then (case read_file bd v path of Inr old \<Rightarrow> old | Inl _ \<Rightarrow> []) else []) @ data) \<and>
    (\<forall>q b. read_file bd v q = Inr b \<and> locate (any_ops bd) v q \<noteq> locate (any_ops bd) v' path \<longrightarrow>
       read_file bd v' q = Inr b)"
proof -
  obtain v1 off where first: "(case vfs_metadata (any_ops bd) v path of
         Inr m \<Rightarrow>
           (if md_kind m = Directory then (v, Inl IsDirectory)
            else if app then (v, Inr (md_len m))
            else sbind (\<lambda>v. vfs_truncate (any_ops bd) v path 0) (\<lambda>_. sret 0) v)
       | Inl NotFound \<Rightarrow> sbind (\<lambda>v. vfs_create_file (any_ops bd) v path) (\<lambda>_. sret 0) v
       | Inl e \<Rightarrow> (v, Inl e)) = (v1, Inr off)"
    and w1: "vfs_write (any_ops bd) v1 path off data = (v', Inr n)"
    using w unfolding write_file_def sbind_eq_Inr by blast
  consider (app) m where "vfs_metadata (any_ops bd) v path = Inr m" "md_kind m = File" "app" "v1 = v" "off = md_len m"
    | (trunc) m where "vfs_truncate (any_ops bd) v path 0 = (v1, Inr m)" "\<not> app" "off = 0"
    | (new) m where "vfs_create_file (any_ops bd) v path = (v1, Inr m)" "off = 0"
    using first by (auto simp: result_simps not_directory split: sum.splits vfs_error.splits if_splits)
  then show ?thesis
  proof cases
    case app
    obtain old where old: "read_file bd v path = Inr old" "md_len m = length old"
      using metadata_of_file [OF v app(1,2)] by blast
    have "file_now bd v v' path (old @ data)"
      using write_now(3) [OF v w1 [unfolded app(4)]] old app(5) by (auto simp: overwrite_append)
    then show ?thesis using write_now(1) [OF v w1 [unfolded app(4)]] old(1) app(3) by (auto simp: file_now_def)
  next
    case trunc
    obtain old where old: "file_now bd v v1 path (resize old 0)"
      using truncate_now [OF v trunc(1)] by blast
    then have v1: "mounts_ok v1" "on_ram v1 path" "read_file bd v1 path = Inr []" by (auto simp: file_now_def resize_def)
    have now: "file_now bd v1 v' path data" using write_now(3) [OF v1(1,2) w1] v1(3) trunc(3) by (auto simp: overwrite_empty)
    have "file_now bd v v' path data" by (rule file_now_trans [OF old now write_now(2) [OF v1(1,2) w1]])
    then show ?thesis using write_now(1) [OF v1(1,2) w1] trunc(2) by (auto simp: file_now_def)
  next
    case new
    note old = create_now [OF v new(1)]
    have v1: "mounts_ok v1" "on_ram v1 path" "read_file bd v1 path = Inr []" using old(1) by (auto simp: file_now_def)
    have now: "file_now bd v1 v' path data" using write_now(3) [OF v1(1,2) w1] v1(3) new(2) by (auto simp: overwrite_empty)
    have f: "file_now bd v v' path data" by (rule file_now_trans [OF old(1) now write_now(2) [OF v1(1,2) w1]])
    have "read_file bd v path = Inl NotFound" using old(2) by (simp add: read_file_def vfs_read_all_def vfs_metadata_locate)
    then show ?thesis using f write_now(1) [OF v1(1,2) w1] by (auto simp: file_now_def)
  qed
qed

text \<open>
  C32: A file operation of the kernel's tree that fails on a path of a memory filesystem leaves the whole
  tree as it was.
\<close>

theorem vfs_failure_unchanged:
  assumes "mounts_ok v" and "on_ram v path"
    and "vfs_write (any_ops bd) v path off data = (v', Inl e) \<or> vfs_truncate (any_ops bd) v path len = (v', Inl e) \<or>
      vfs_create_file (any_ops bd) v path = (v', Inl e) \<or> mkdir bd v path = (v', Inl e) \<or>
      remove_path bd v path = (v', Inl e)"
  shows "v' = v"
proof -
  have "\<And>k ds. leads_to v path k ds \<Longrightarrow> any_inv (mount_fs (v ! k))" using assms(2) unfolding on_ram_def by blast
  moreover have "vfs_create_dir (any_ops bd) v path = (v', Inl e)" if "mkdir bd v path = (v', Inl e)"
    using that by (auto simp: mkdir_def sbind_def split: prod.splits sum.splits)
  ultimately show ?thesis
    using any.vfs_failed [OF assms(1), of path bd off data v' e len] assms(3) unfolding remove_path_def by blast
qed


lemma example_tree:
  "mounts_ok (vfs_new (Ram ramfs_new))" "on_ram (vfs_new (Ram ramfs_new)) path"
proof -
  show "mounts_ok (vfs_new (Ram ramfs_new))" by (rule mounts_ok_new)
  show "on_ram (vfs_new (Ram ramfs_new)) path"
    unfolding on_ram_def by (auto simp: leads_to_def vfs_new_def ramfs_new_inv)
qed

lemma example_normal: "normalize_path ''/'' ''/a'' = Inr ''/a''"
  by (simp add: normalize_path_def starts_with_def validate_name_def path_string_def NAME_MAX_def PATH_MAX_def)

lemmas vfs_eval = example_normal vfs_new_def route_def resolve_inode_def resolve_parent_def any_defs ramfs_ops_def
  ramfs_new_def ram_directory_def ramfs_lookup_def ramfs_metadata_def ramfs_node_def validate_name_def NAME_MAX_def
  trim_start_def rsplit_once_def on_fs_mut.simps rbind_def sbind_def

theorem write_file_correct_witness:
  "\<exists>v'. write_file smb_ops (vfs_new (Ram ramfs_new)) ''/a'' [1, 2] False = (v', Inr 2) \<and>
    read_file smb_ops v' ''/a'' = Inr [1, 2]"
proof -
  have "\<exists>v'. write_file smb_ops (vfs_new (Ram ramfs_new)) ''/a'' [1, 2] False = (v', Inr 2)"
    by (simp add: write_file_def vfs_metadata_def vfs_create_file_def on_parent_def vfs_write_def on_inode_def
        put_fs_def ramfs_create_node_def ramfs_write_def ramfs_node_mut_def ram_file_def usize_add_def vec_resize_def
        vfs_eval)
  then obtain v' where v': "write_file smb_ops (vfs_new (Ram ramfs_new)) ''/a'' [1, 2] False = (v', Inr 2)" by blast
  from write_file_correct [OF example_tree v'] v' show ?thesis by auto
qed

theorem vfs_failure_unchanged_witness:
  "\<exists>v'. remove_path smb_ops (vfs_new (Ram ramfs_new)) ''/a'' = (v', Inl NotFound) \<and> v' = vfs_new (Ram ramfs_new)"
proof -
  have "\<exists>v'. remove_path smb_ops (vfs_new (Ram ramfs_new)) ''/a'' = (v', Inl NotFound)"
    by (simp add: remove_path_def vfs_remove_def on_parent_def ramfs_remove_def vfs_eval)
  then show ?thesis using vfs_failure_unchanged [OF example_tree, where bd = smb_ops and e = NotFound] by blast
qed


end
