(* ===== verification/Ring_Buffer.thy ===== *)
theory Ring_Buffer
  imports Main
begin

text \<open>
  The event queues of the input drivers: rings of fixed capacity in which a new event displaces
  the oldest one when the ring is full. The contract \<open>event_queue\<close> is what the drivers rely on;
  its client lemma is that any interleaving of pushes and pops behaves as on a list. The second
  part has the facts on rings that its implementations share. \<open>None\<close> stands for the panic of an
  index out of range.
\<close>

section \<open>The contract of an event queue\<close>

datatype 'a queue_op = Push 'a | Pop

definition list_push :: "nat \<Rightarrow> 'a list \<Rightarrow> 'a \<Rightarrow> 'a list" where
  "list_push cap xs x = (if length xs = cap then tl xs else xs) @ [x]"

definition list_first :: "'a list \<Rightarrow> 'a option" where
  "list_first xs = (case xs of [] \<Rightarrow> None | x # _ \<Rightarrow> Some x)"

text \<open>What a sequence of operations returns, on the list and on an implementation.\<close>

fun list_run :: "nat \<Rightarrow> 'a list \<Rightarrow> 'a queue_op list \<Rightarrow> 'a list \<times> 'a option list" where
  "list_run cap xs [] = (xs, [])"
| "list_run cap xs (Push x # ops) = list_run cap (list_push cap xs x) ops"
| "list_run cap xs (Pop # ops) =
     (case list_run cap (tl xs) ops of (ys, out) \<Rightarrow> (ys, list_first xs # out))"

fun queue_run ::
  "('q \<Rightarrow> 'a \<Rightarrow> 'q option) \<Rightarrow> ('q \<Rightarrow> ('q \<times> 'a option) option) \<Rightarrow> 'q \<Rightarrow> 'a queue_op list \<Rightarrow>
   ('q \<times> 'a option list) option" where
  "queue_run push pop q [] = Some (q, [])"
| "queue_run push pop q (Push x # ops) =
     (case push q x of None \<Rightarrow> None | Some q' \<Rightarrow> queue_run push pop q' ops)"
| "queue_run push pop q (Pop # ops) =
     (case pop q of
        None \<Rightarrow> None
      | Some (q', x) \<Rightarrow>
          (case queue_run push pop q' ops of None \<Rightarrow> None | Some (r, out) \<Rightarrow> Some (r, x # out)))"

text \<open>Pushing a whole sequence.\<close>

fun push_all :: "('q \<Rightarrow> 'a \<Rightarrow> 'q option) \<Rightarrow> 'q \<Rightarrow> 'a list \<Rightarrow> 'q option" where
  "push_all push q [] = Some q"
| "push_all push q (x # xs) = (case push q x of None \<Rightarrow> None | Some q' \<Rightarrow> push_all push q' xs)"

locale event_queue =
  fixes inv :: "'q \<Rightarrow> bool"
    and items :: "'q \<Rightarrow> 'a list"
    and cap :: nat
    and push :: "'q \<Rightarrow> 'a \<Rightarrow> 'q option"
    and pop :: "'q \<Rightarrow> ('q \<times> 'a option) option"
  assumes cap_pos: "0 < cap"
    and items_cap: "inv q \<Longrightarrow> length (items q) \<le> cap"
    and push_law: "inv q \<Longrightarrow> \<exists>q'. push q x = Some q' \<and> inv q' \<and> items q' = list_push cap (items q) x"
    and pop_law: "inv q \<Longrightarrow>
      \<exists>q'. pop q = Some (q', list_first (items q)) \<and> inv q' \<and> items q' = tl (items q)"
begin

lemma queue_run_list:
  assumes "inv q"
  shows "\<exists>q' out. queue_run push pop q ops = Some (q', out) \<and> inv q' \<and>
    list_run cap (items q) ops = (items q', out)"
  using assms
proof (induction ops arbitrary: q)
  case (Cons op ops)
  show ?case
  proof (cases op)
    case (Push x)
    obtain q' where q': "push q x = Some q'" "inv q'" "items q' = list_push cap (items q) x"
      using push_law [OF Cons.prems] by blast
    show ?thesis using Cons.IH [OF q'(2)] Push q' by simp
  next
    case Pop
    obtain q' where q': "pop q = Some (q', list_first (items q))" "inv q'" "items q' = tl (items q)"
      using pop_law [OF Cons.prems] by blast
    obtain r out where "queue_run push pop q' ops = Some (r, out)" "inv r"
      "list_run cap (items q') ops = (items r, out)"
      using Cons.IH [OF q'(2)] by blast
    then show ?thesis using Pop q' by simp
  qed
qed simp

lemma push_all_room:
  assumes "inv q" and "length (items q) + length xs \<le> cap"
  shows "\<exists>q'. push_all push q xs = Some q' \<and> inv q' \<and> items q' = items q @ xs"
  using assms
proof (induction xs arbitrary: q)
  case (Cons x xs)
  obtain q' where q': "push q x = Some q'" "inv q'" "items q' = list_push cap (items q) x"
    using push_law [OF Cons.prems(1)] by blast
  have it: "items q' = items q @ [x]" using q'(3) Cons.prems(2) by (simp add: list_push_def)
  obtain r where "push_all push q' xs = Some r" "inv r" "items r = items q' @ xs"
    using Cons.IH [OF q'(2)] Cons.prems(2) it by auto
  then show ?case using q'(1) it by simp
qed simp

lemma pop_cases:
  assumes "inv q"
  obtains (empty) q' where "items q = []" "pop q = Some (q', None)" "inv q'" "items q' = []"
  | (item) x q' where "items q = x # items q'" "pop q = Some (q', Some x)" "inv q'"
  using pop_law [OF assms] by (cases "items q") (auto simp: list_first_def)

end

section \<open>Rings\<close>

text \<open>The events of a ring, oldest first, and when its indices are consistent.\<close>

definition ring_items :: "'a list \<Rightarrow> nat \<Rightarrow> nat \<Rightarrow> 'a list" where
  "ring_items buf rd n = map (\<lambda>k. buf ! ((rd + k) mod length buf)) [0..<n]"

definition ring_ok :: "nat \<Rightarrow> 'a list \<Rightarrow> nat \<Rightarrow> nat \<Rightarrow> nat \<Rightarrow> bool" where
  "ring_ok cap buf rd wr n \<longleftrightarrow>
     0 < cap \<and> length buf = cap \<and> rd < cap \<and> n \<le> cap \<and> wr = (rd + n) mod cap"

lemma length_ring_items [simp]: "length (ring_items buf rd n) = n"
  by (simp add: ring_items_def)

lemma ring_items_0 [simp]: "ring_items buf rd 0 = []"
  by (simp add: ring_items_def)

lemma ring_ok_bounds:
  assumes "ring_ok cap buf rd wr n"
  shows "0 < cap" "length buf = cap" "rd < cap" "wr < cap" "n \<le> cap"
  using assms by (auto simp: ring_ok_def)

lemma ring_items_Suc:
  "ring_items buf rd (Suc n) = buf ! (rd mod length buf) # ring_items buf (Suc rd mod length buf) n"
proof -
  have "(rd + Suc k) mod length buf = (Suc rd mod length buf + k) mod length buf" for k
    by (simp add: mod_simps)
  then show ?thesis
    unfolding ring_items_def by (subst upt_conv_Cons) (simp_all add: map_Suc_upt [symmetric] del: upt_Suc)
qed

lemma ring_drop:
  assumes "ring_ok cap buf rd wr n" and "0 < n"
  shows "ring_ok cap buf (Suc rd mod cap) wr (n - 1)"
    and "ring_items buf rd n = buf ! rd # ring_items buf (Suc rd mod cap) (n - 1)"
proof -
  have "(Suc rd mod cap + (n - 1)) mod cap = (rd + n) mod cap"
    using assms(2) by (cases n) (simp_all add: mod_simps)
  then show "ring_ok cap buf (Suc rd mod cap) wr (n - 1)" using assms by (auto simp: ring_ok_def)
  show "ring_items buf rd n = buf ! rd # ring_items buf (Suc rd mod cap) (n - 1)"
    using assms ring_items_Suc [of buf rd "n - 1"] by (simp add: ring_ok_def)
qed

lemma ring_slot_other:
  fixes rd k n cap :: nat
  assumes "k < n" "n < cap"
  shows "(rd + k) mod cap \<noteq> (rd + n) mod cap"
proof
  assume "(rd + k) mod cap = (rd + n) mod cap"
  then have "cap dvd (rd + n) - (rd + k)" by (metis mod_eq_dvd_iff_nat le_add1 add_le_cancel_left assms(1) less_imp_le)
  then show False using assms by (auto dest: dvd_imp_le)
qed

lemma ring_add:
  assumes "ring_ok cap buf rd wr n" and "n < cap"
  shows "ring_ok cap (buf[wr := x]) rd (Suc wr mod cap) (Suc n)"
    and "ring_items (buf[wr := x]) rd (Suc n) = ring_items buf rd n @ [x]"
proof -
  have wr: "wr = (rd + n) mod cap" "wr < length buf" "length buf = cap"
    using assms by (auto simp: ring_ok_def)
  show "ring_ok cap (buf[wr := x]) rd (Suc wr mod cap) (Suc n)"
    using assms by (auto simp: ring_ok_def mod_simps)
  have "buf[wr := x] ! ((rd + k) mod cap) = buf ! ((rd + k) mod cap)" if "k < n" for k
    using ring_slot_other [OF that assms(2), of rd] wr by simp
  then show "ring_items (buf[wr := x]) rd (Suc n) = ring_items buf rd n @ [x]"
    using wr by (simp add: ring_items_def)
qed

text \<open>The two branches of a push, and a pop.\<close>

lemma ring_push:
  assumes ok: "ring_ok cap buf rd wr n"
    and rd': "rd' = (if n = cap then Suc rd mod cap else rd)" and n': "n' = (if n = cap then n - 1 else n)"
  shows "ring_ok cap (buf[wr := x]) rd' (Suc wr mod cap) (Suc n')"
    and "ring_items (buf[wr := x]) rd' (Suc n') = list_push cap (ring_items buf rd n) x"
proof -
  note B = ring_ok_bounds [OF ok]
  have "ring_ok cap buf rd' wr n' \<and> n' < cap \<and>
    ring_items buf rd' n' = (if n = cap then tl (ring_items buf rd n) else ring_items buf rd n)"
  proof (cases "n = cap")
    case True
    then show ?thesis using ring_drop [OF ok] B rd' n' by simp
  next
    case False
    then show ?thesis using ok B rd' n' by simp
  qed
  then show "ring_ok cap (buf[wr := x]) rd' (Suc wr mod cap) (Suc n')"
    and "ring_items (buf[wr := x]) rd' (Suc n') = list_push cap (ring_items buf rd n) x"
    using ring_add [of cap buf rd' wr n' x] by (auto simp: list_push_def)
qed

lemma ring_pop:
  assumes ok: "ring_ok cap buf rd wr n" and "0 < n"
  shows "ring_ok cap buf (Suc rd mod cap) wr (n - 1)"
    and "list_first (ring_items buf rd n) = Some (buf ! rd)"
    and "tl (ring_items buf rd n) = ring_items buf (Suc rd mod cap) (n - 1)"
  using ring_drop [OF assms] by (simp_all add: list_first_def)

lemma ring_new: "0 < cap \<Longrightarrow> length buf = cap \<Longrightarrow> ring_ok cap buf 0 0 0"
  by (simp add: ring_ok_def)

end
