(* ===== verification/Input_Devices.thy ===== *)
theory Input_Devices
  imports Ring_Buffer Byte_Fields
begin

text \<open>
  The input path of the kernel: the scancode queue and the keyboard decoder
  (\<open>kernel/src/arch/keyboard.rs\<close>), the mouse packet decoder (\<open>kernel/src/arch/mouse.rs\<close>) and the
  packets that user programs receive (\<open>kernel/src/arch/input.rs\<close>). An index out of range panics,
  which is the value \<open>None\<close> of the operations on the queues; the locks serialise whole operations.
\<close>

section \<open>The scancode queue\<close>

definition QUEUE_CAPACITY :: nat where "QUEUE_CAPACITY = 256"

record scancode_queue =
  sq_bytes :: "u8 list"
  sq_read :: nat
  sq_write :: nat
  sq_len :: nat

definition sq_new :: scancode_queue where
  "sq_new = \<lparr>sq_bytes = replicate QUEUE_CAPACITY 0, sq_read = 0, sq_write = 0, sq_len = 0\<rparr>"

text \<open>Writing and reading a slot of an array.\<close>

definition slot_set :: "'a list \<Rightarrow> nat \<Rightarrow> 'a \<Rightarrow> 'a list option" where
  "slot_set xs i x = (if i < length xs then Some (xs[i := x]) else None)"

definition slot_get :: "'a list \<Rightarrow> nat \<Rightarrow> 'a option" where
  "slot_get xs i = (if i < length xs then Some (xs ! i) else None)"

definition sq_push :: "scancode_queue \<Rightarrow> u8 \<Rightarrow> scancode_queue option" where
  "sq_push q byte =
     (let q = (if sq_len q = QUEUE_CAPACITY
               then q\<lparr>sq_read := (sq_read q + 1) mod QUEUE_CAPACITY, sq_len := sq_len q - 1\<rparr>
               else q)
      in case slot_set (sq_bytes q) (sq_write q) byte of
           None \<Rightarrow> None
         | Some bytes \<Rightarrow>
             Some (q\<lparr>sq_bytes := bytes, sq_write := (sq_write q + 1) mod QUEUE_CAPACITY,
               sq_len := sq_len q + 1\<rparr>))"

definition sq_pop :: "scancode_queue \<Rightarrow> (scancode_queue \<times> u8 option) option" where
  "sq_pop q =
     (if sq_len q = 0 then Some (q, None)
      else case slot_get (sq_bytes q) (sq_read q) of
             None \<Rightarrow> None
           | Some byte \<Rightarrow>
               Some (q\<lparr>sq_read := (sq_read q + 1) mod QUEUE_CAPACITY, sq_len := sq_len q - 1\<rparr>,
                 Some byte))"

definition sq_clear :: "scancode_queue \<Rightarrow> scancode_queue" where
  "sq_clear q = q\<lparr>sq_read := 0, sq_write := 0, sq_len := 0\<rparr>"

text \<open>The interrupt handler: \<open>code\<close> is what the controller had, if anything.\<close>

definition keyboard_interrupt :: "u8 option \<Rightarrow> scancode_queue \<Rightarrow> scancode_queue option" where
  "keyboard_interrupt code q = (case code of None \<Rightarrow> Some q | Some c \<Rightarrow> sq_push q c)"

section \<open>The keyboard\<close>

datatype key =
    Char u8
  | Tab
  | Enter
  | Backspace
  | Escape
  | F12
  | ArrowUp
  | ArrowDown
  | ArrowLeft
  | ArrowRight

record keyboard =
  kb_shift :: bool
  kb_caps_lock :: bool
  kb_extended :: bool











definition keyboard_drain :: "scancode_queue \<Rightarrow> scancode_queue" where
  "keyboard_drain q = sq_clear q"

section \<open>The mouse\<close>

definition MOUSE_CAPACITY :: nat where "MOUSE_CAPACITY = 128"

record mouse_event =
  me_dx :: "16 word"
  me_dy :: "16 word"
  me_wheel :: "8 word"
  me_buttons :: u8

record mouse_state =
  ms_packet :: "u8 list"
  ms_packet_index :: nat
  ms_packet_len :: nat
  ms_queue :: "mouse_event list"
  ms_read :: nat
  ms_write :: nat
  ms_len :: nat

definition ms_new :: mouse_state where
  "ms_new = \<lparr>ms_packet = [0, 0, 0, 0], ms_packet_index = 0, ms_packet_len = 3,
     ms_queue = replicate MOUSE_CAPACITY \<lparr>me_dx = 0, me_dy = 0, me_wheel = 0, me_buttons = 0\<rparr>,
     ms_read = 0, ms_write = 0, ms_len = 0\<rparr>"

text \<open>The end of \<open>push_byte\<close>: the event enters the queue.\<close>

definition mouse_enqueue :: "mouse_state \<Rightarrow> mouse_event \<Rightarrow> mouse_state option" where
  "mouse_enqueue m event =
     (let m = (if ms_len m = MOUSE_CAPACITY
               then m\<lparr>ms_read := (ms_read m + 1) mod MOUSE_CAPACITY, ms_len := ms_len m - 1\<rparr>
               else m)
      in case slot_set (ms_queue m) (ms_write m) event of
           None \<Rightarrow> None
         | Some queue \<Rightarrow>
             Some (m\<lparr>ms_queue := queue, ms_write := (ms_write m + 1) mod MOUSE_CAPACITY,
               ms_len := ms_len m + 1\<rparr>))"

text \<open>The event of a complete packet.\<close>

definition mouse_decode :: "u8 list \<Rightarrow> nat \<Rightarrow> mouse_event" where
  "mouse_decode packet packet_len =
     \<lparr>me_dx = scast (packet ! 1), me_dy = - scast (packet ! 2),
      me_wheel =
        (if packet_len = 4 then
           (let nibble = packet ! 3 AND 0x0f
            in if nibble AND 0x08 \<noteq> 0 then nibble OR 0xf0 else nibble)
         else 0),
      me_buttons = packet ! 0 AND 0x07\<rparr>"

definition mouse_push_byte :: "mouse_state \<Rightarrow> u8 \<Rightarrow> mouse_state option" where
  "mouse_push_byte m byte =
     (if ms_packet_index m = 0 \<and> byte AND 0x08 = 0 then Some m
      else case slot_set (ms_packet m) (ms_packet_index m) byte of
             None \<Rightarrow> None
           | Some packet \<Rightarrow>
               (let m = m\<lparr>ms_packet := packet, ms_packet_index := ms_packet_index m + 1\<rparr>
                in if ms_packet_index m < ms_packet_len m then Some m
                   else
                     (let m = m\<lparr>ms_packet_index := 0\<rparr>
                      in if packet ! 0 AND 0xc0 \<noteq> 0 then Some m
                         else mouse_enqueue m (mouse_decode packet (ms_packet_len m)))))"

definition mouse_pop :: "mouse_state \<Rightarrow> (mouse_state \<times> mouse_event option) option" where
  "mouse_pop m =
     (if ms_len m = 0 then Some (m, None)
      else case slot_get (ms_queue m) (ms_read m) of
             None \<Rightarrow> None
           | Some event \<Rightarrow>
               Some (m\<lparr>ms_read := (ms_read m + 1) mod MOUSE_CAPACITY, ms_len := ms_len m - 1\<rparr>,
                 Some event))"

definition set_wheel_mode :: "bool \<Rightarrow> mouse_state \<Rightarrow> mouse_state" where
  "set_wheel_mode enabled m = m\<lparr>ms_packet_len := (if enabled then 4 else 3), ms_packet_index := 0\<rparr>"

definition mouse_drain :: "mouse_state \<Rightarrow> mouse_state" where
  "mouse_drain m = m\<lparr>ms_read := 0, ms_write := 0, ms_len := 0, ms_packet_index := 0\<rparr>"

section \<open>Input packets\<close>

definition PACKET_BYTES :: nat where "PACKET_BYTES = 24"
definition INPUT_KEY :: u32 where "INPUT_KEY = 1"

record input_packet =
  ip_kind :: u32
  ip_code :: u32
  ip_x :: "32 word"
  ip_y :: "32 word"
  ip_z :: "32 word"
  ip_flags :: u32

text \<open>\<open>write_u32\<close> into the array: the four bytes at \<open>off\<close> are replaced; past the end it panics.\<close>

definition packet_write_u32 :: "byte list \<Rightarrow> nat \<Rightarrow> u32 \<Rightarrow> byte list option" where
  "packet_write_u32 bytes off value =
     (if off + 4 \<le> length bytes
      then Some (take off bytes @ le_bytes 4 (unat value) @ drop (off + 4) bytes) else None)"

definition packet_encode :: "input_packet \<Rightarrow> byte list option" where
  "packet_encode p =
     Option.bind (packet_write_u32 (replicate PACKET_BYTES 0) 0 (ip_kind p)) (\<lambda>bytes.
     Option.bind (packet_write_u32 bytes 4 (ip_code p)) (\<lambda>bytes.
     Option.bind (packet_write_u32 bytes 8 (ip_x p)) (\<lambda>bytes.
     Option.bind (packet_write_u32 bytes 12 (ip_y p)) (\<lambda>bytes.
     Option.bind (packet_write_u32 bytes 16 (ip_z p)) (\<lambda>bytes.
     packet_write_u32 bytes 20 (ip_flags p))))))"

fun key_code :: "key \<Rightarrow> u32" where
  "key_code (Char byte) = ucast byte"
| "key_code Tab = 0x100"
| "key_code Enter = 0x101"
| "key_code Escape = 0x102"
| "key_code Backspace = 0x103"
| "key_code F12 = 0x104"
| "key_code ArrowUp = 0x110"
| "key_code ArrowDown = 0x111"
| "key_code ArrowLeft = 0x112"
| "key_code ArrowRight = 0x113"

record input_state =
  in_keyboard :: keyboard
  in_scancodes :: scancode_queue
  in_mouse :: mouse_state

definition key_packet :: "key \<Rightarrow> input_packet" where
  "key_packet key =
     \<lparr>ip_kind = INPUT_KEY, ip_code = key_code key, ip_x = 0, ip_y = 0, ip_z = 0, ip_flags = 1\<rparr>"



definition input_drain :: "input_state \<Rightarrow> input_state" where
  "input_drain s =
     s\<lparr>in_scancodes := keyboard_drain (in_scancodes s), in_mouse := mouse_drain (in_mouse s)\<rparr>"

section \<open>The queues meet the contract\<close>

definition sq_inv :: "scancode_queue \<Rightarrow> bool" where
  "sq_inv q \<longleftrightarrow> ring_ok QUEUE_CAPACITY (sq_bytes q) (sq_read q) (sq_write q) (sq_len q)"

definition sq_items :: "scancode_queue \<Rightarrow> u8 list" where
  "sq_items q = ring_items (sq_bytes q) (sq_read q) (sq_len q)"

definition ms_inv :: "mouse_state \<Rightarrow> bool" where
  "ms_inv m \<longleftrightarrow> ring_ok MOUSE_CAPACITY (ms_queue m) (ms_read m) (ms_write m) (ms_len m) \<and>
     length (ms_packet m) = 4 \<and> ms_packet_len m \<in> {3, 4} \<and> ms_packet_index m < ms_packet_len m"

definition ms_items :: "mouse_state \<Rightarrow> mouse_event list" where
  "ms_items m = ring_items (ms_queue m) (ms_read m) (ms_len m)"

lemma sq_push_ring:
  assumes "sq_inv q"
  shows "\<exists>q'. sq_push q x = Some q' \<and> sq_inv q' \<and> sq_items q' = list_push QUEUE_CAPACITY (sq_items q) x"
  using ring_push [OF assms [unfolded sq_inv_def] refl refl, of x] ring_ok_bounds [OF assms [unfolded sq_inv_def]]
  by (auto simp: sq_push_def sq_inv_def sq_items_def slot_set_def Let_def split: if_splits)

lemma sq_pop_ring:
  assumes "sq_inv q"
  shows "\<exists>q'. sq_pop q = Some (q', list_first (sq_items q)) \<and> sq_inv q' \<and> sq_items q' = tl (sq_items q)"
proof (cases "sq_len q = 0")
  case True
  then show ?thesis using assms by (simp add: sq_pop_def sq_items_def list_first_def)
next
  case False
  then show ?thesis
    using ring_pop [OF assms [unfolded sq_inv_def]] ring_ok_bounds [OF assms [unfolded sq_inv_def]]
    by (simp add: sq_pop_def sq_items_def sq_inv_def slot_get_def)
qed

interpretation scq: event_queue sq_inv sq_items QUEUE_CAPACITY sq_push sq_pop
proof unfold_locales
  show "0 < QUEUE_CAPACITY" by (simp add: QUEUE_CAPACITY_def)
  show "length (sq_items q) \<le> QUEUE_CAPACITY" if "sq_inv q" for q
    using that by (simp add: sq_inv_def sq_items_def ring_ok_def)
qed (rule sq_push_ring sq_pop_ring, assumption)+

lemma mouse_enqueue_ring:
  assumes "ms_inv m"
  shows "\<exists>m'. mouse_enqueue m x = Some m' \<and> ms_inv m' \<and> ms_items m' = list_push MOUSE_CAPACITY (ms_items m) x \<and>
    ms_packet m' = ms_packet m \<and> ms_packet_len m' = ms_packet_len m \<and> ms_packet_index m' = ms_packet_index m"
proof -
  have ok: "ring_ok MOUSE_CAPACITY (ms_queue m) (ms_read m) (ms_write m) (ms_len m)"
    using assms by (simp add: ms_inv_def)
  show ?thesis
    using assms ring_push [OF ok refl refl, of x] ring_ok_bounds [OF ok]
    by (auto simp: mouse_enqueue_def ms_inv_def ms_items_def slot_set_def Let_def split: if_splits)
qed

lemma mouse_pop_ring:
  assumes "ms_inv m"
  shows "\<exists>m'. mouse_pop m = Some (m', list_first (ms_items m)) \<and> ms_inv m' \<and> ms_items m' = tl (ms_items m)"
proof (cases "ms_len m = 0")
  case True
  then show ?thesis using assms by (simp add: mouse_pop_def ms_items_def list_first_def)
next
  case False
  have ok: "ring_ok MOUSE_CAPACITY (ms_queue m) (ms_read m) (ms_write m) (ms_len m)"
    using assms by (simp add: ms_inv_def)
  show ?thesis using assms False ring_pop [OF ok] ring_ok_bounds [OF ok]
    by (simp add: mouse_pop_def ms_items_def ms_inv_def slot_get_def)
qed

interpretation msq: event_queue ms_inv ms_items MOUSE_CAPACITY mouse_enqueue mouse_pop
proof unfold_locales
  show "0 < MOUSE_CAPACITY" by (simp add: MOUSE_CAPACITY_def)
  show "length (ms_items m) \<le> MOUSE_CAPACITY" if "ms_inv m" for m
    using that by (simp add: ms_inv_def ms_items_def ring_ok_def)
  show "\<exists>m'. mouse_enqueue m x = Some m' \<and> ms_inv m' \<and> ms_items m' = list_push MOUSE_CAPACITY (ms_items m) x"
    if "ms_inv m" for m x using mouse_enqueue_ring [OF that] by blast
qed (rule mouse_pop_ring, assumption)

lemma sq_new_inv: "sq_inv sq_new" "sq_items sq_new = []"
  by (simp_all add: sq_inv_def sq_items_def sq_new_def ring_new QUEUE_CAPACITY_def)

lemma ms_new_inv: "ms_inv ms_new" "ms_items ms_new = []"
  by (simp_all add: ms_inv_def ms_items_def ms_new_def ring_new MOUSE_CAPACITY_def)

lemma sq_clear_inv: "sq_inv q \<Longrightarrow> sq_inv (sq_clear q) \<and> sq_items (sq_clear q) = []"
  by (simp add: sq_inv_def sq_items_def sq_clear_def ring_ok_def)

lemma mouse_drain_inv: "ms_inv m \<Longrightarrow> ms_inv (mouse_drain m) \<and> ms_items (mouse_drain m) = []"
  by (auto simp: ms_inv_def ms_items_def mouse_drain_def ring_ok_def)

section \<open>Properties\<close>

text \<open>
  C15: The scancode queue and the mouse queue are bounded first-in first-out queues: any sequence of
  pushes and pops from the initial state runs without an index panic and returns what the same
  sequence returns on a list that drops its oldest element when it already holds 256 scancodes or
  128 events.
\<close>

theorem input_queues_fifo:
  "(\<exists>q. queue_run sq_push sq_pop sq_new ops = Some (q, snd (list_run 256 [] ops)) \<and>
      sq_items q = fst (list_run 256 [] ops)) \<and>
   (\<exists>m. queue_run mouse_enqueue mouse_pop ms_new ops' = Some (m, snd (list_run 128 [] ops')) \<and>
      ms_items m = fst (list_run 128 [] ops'))"
  using scq.queue_run_list [OF sq_new_inv(1), of ops] msq.queue_run_list [OF ms_new_inv(1), of ops']
  by (auto simp: sq_new_inv ms_new_inv QUEUE_CAPACITY_def MOUSE_CAPACITY_def)





text \<open>A packet of the mouse, byte by byte.\<close>

definition wheel_of :: "u8 \<Rightarrow> int" where
  "wheel_of b = (let n = uint b mod 16 in if 8 \<le> n then n - 16 else n)"

lemma mouse_push_byte_inv:
  assumes "ms_inv m"
  shows "\<exists>m'. mouse_push_byte m b = Some m' \<and> ms_inv m'"
proof -
  let ?p = "(ms_packet m)[ms_packet_index m := b]"
  have "ms_inv (m\<lparr>ms_packet := ?p, ms_packet_index := 0\<rparr>)"
    using assms by (auto simp: ms_inv_def)
  from mouse_enqueue_ring [OF this] show ?thesis
    using assms by (auto simp: mouse_push_byte_def Let_def slot_set_def ms_inv_def)
qed

lemma mouse_push_byte_first:
  assumes "ms_inv m" and "ms_packet_index m = 0" and "b AND 0x08 \<noteq> 0"
  shows "mouse_push_byte m b = Some (m\<lparr>ms_packet := (ms_packet m)[0 := b], ms_packet_index := 1\<rparr>)"
  using assms by (auto simp: mouse_push_byte_def Let_def slot_set_def ms_inv_def)

lemma mouse_push_byte_more:
  assumes "ms_inv m" and "0 < ms_packet_index m" and "ms_packet_index m + 1 < ms_packet_len m"
  shows "mouse_push_byte m b =
    Some (m\<lparr>ms_packet := (ms_packet m)[ms_packet_index m := b], ms_packet_index := ms_packet_index m + 1\<rparr>)"
  using assms by (auto simp: mouse_push_byte_def Let_def slot_set_def ms_inv_def)

lemma mouse_push_byte_last:
  assumes "ms_inv m" and "0 < ms_packet_index m" and "ms_packet_index m + 1 = ms_packet_len m"
    and "p = (ms_packet m)[ms_packet_index m := b]"
  shows "mouse_push_byte m b =
    (let m' = m\<lparr>ms_packet := p, ms_packet_index := 0\<rparr>
     in if p ! 0 AND 0xc0 \<noteq> 0 then Some m' else mouse_enqueue m' (mouse_decode p (ms_packet_len m)))"
  using assms by (auto simp: mouse_push_byte_def Let_def slot_set_def ms_inv_def)

lemma sint_bounds: "- 128 \<le> sint (b :: 8 word)" "sint (b :: 8 word) < 128"
  using sint_range_size [of b] by (simp_all add: word_size)

lemma sint_widen: "sint (scast (b :: 8 word) :: 16 word) = sint b"
  by (rule sint_up_scast) (simp add: is_up)

lemma sint_widen_minus: "sint (- scast (b :: 8 word) :: 16 word) = - sint b"
proof -
  have "sint (- scast b :: 16 word) = signed_take_bit 15 (- sint b)"
    by (simp add: sint_word_ariths sint_widen)
  then show ?thesis using sint_bounds [of b] by (simp add: signed_take_bit_int_eq_self)
qed

lemma low_nibble: "(b :: u8) AND 0x0f = of_nat (unat b mod 16)"
proof -
  have "b AND 0x0f = take_bit 4 b" by (simp add: take_bit_eq_mask mask_eq_exp_minus_1)
  then show ?thesis by (simp add: word_unat_eq_iff unat_of_nat take_bit_eq_mod unat_mod)
qed

lemma sint_nibble:
  "sint (let n = (b :: u8) AND 0x0f in if n AND 0x08 \<noteq> 0 then n OR 0xf0 else n) = wheel_of b"
proof -
  have u: "uint b mod 16 = int (unat b mod 16)" by (simp add: zmod_int)
  have "\<forall>k\<in>set [0..<16]. sint (let n = of_nat k :: u8 in if n AND 0x08 \<noteq> 0 then n OR 0xf0 else n) =
      (let n = int k in if 8 \<le> n then n - 16 else n)"
    by (simp add: upt_rec Let_def)
  then show ?thesis unfolding low_nibble wheel_of_def u by (rule bspec) simp
qed

lemma mouse_packet_bytes:
  assumes m: "ms_inv m" "ms_packet_index m = 0" and bs: "length bs = ms_packet_len m" "bs ! 0 AND 0x08 \<noteq> 0"
  shows "\<exists>p. length p = 4 \<and> take (length bs) p = bs \<and>
    push_all mouse_push_byte m bs =
      (let m' = m\<lparr>ms_packet := p, ms_packet_index := 0\<rparr>
       in if p ! 0 AND 0xc0 \<noteq> 0 then Some m' else mouse_enqueue m' (mouse_decode p (ms_packet_len m)))"
proof -
  have len: "length (ms_packet m) = 4" using m by (simp add: ms_inv_def)
  then obtain x0 x1 x2 x3 where x: "ms_packet m = [x0, x1, x2, x3]"
    by (auto simp: numeral_eq_Suc length_Suc_conv)
  have keep: "ms_inv (m\<lparr>ms_packet := p, ms_packet_index := i\<rparr>)"
    if "length p = 4" "i < ms_packet_len m" for p i
    using m that by (simp add: ms_inv_def)
  consider (three) b0 b1 b2 where "bs = [b0, b1, b2]" "ms_packet_len m = 3"
    | (four) b0 b1 b2 b3 where "bs = [b0, b1, b2, b3]" "ms_packet_len m = 4"
    using m(1) bs(1) by (auto simp: ms_inv_def numeral_eq_Suc length_Suc_conv)
  then show ?thesis
  proof cases
    case three
    then show ?thesis
      using bs(2) m(2)
      by (intro exI [of _ "[b0, b1, b2, x3]"])
        (simp add: mouse_push_byte_first [OF m] mouse_push_byte_more [OF keep]
          mouse_push_byte_last [OF keep _ _ refl] x Let_def split: option.split)
  next
    case four
    then show ?thesis
      using bs(2) m(2)
      by (intro exI [of _ "[b0, b1, b2, b3]"])
        (simp add: mouse_push_byte_first [OF m] mouse_push_byte_more [OF keep]
          mouse_push_byte_last [OF keep _ _ refl] x Let_def split: option.split)
  qed
qed

text \<open>
  C17: The mouse decoder. Fed with the bytes of a packet of the current mode, it never panics and is
  ready for the next packet. A packet with an overflow flag is dropped; any other one queues
  exactly one event, with the two signed movements of the packet, the vertical one reversed, the signed wheel
  nibble in the four-byte mode, and the three buttons. A byte that cannot start a packet is skipped.
\<close>

theorem mouse_packet_correct:
  assumes m: "ms_inv m" "ms_packet_index m = 0" and bs: "length bs = ms_packet_len m" "bs ! 0 AND 0x08 \<noteq> 0"
  shows "(\<exists>m'. push_all mouse_push_byte m bs = Some m' \<and> ms_inv m' \<and>
      ms_packet_index m' = 0 \<and> ms_packet_len m' = ms_packet_len m \<and>
      (if bs ! 0 AND 0xc0 \<noteq> 0 then ms_items m' = ms_items m
       else \<exists>e. ms_items m' = list_push MOUSE_CAPACITY (ms_items m) e \<and>
         sint (me_dx e) = sint (bs ! 1) \<and> sint (me_dy e) = - sint (bs ! 2) \<and>
         sint (me_wheel e) = (if ms_packet_len m = 4 then wheel_of (bs ! 3) else 0) \<and>
         me_buttons e = bs ! 0 AND 0x07)) \<and>
    (\<forall>b. b AND 0x08 = 0 \<longrightarrow> mouse_push_byte m b = Some m)"
proof -
  obtain p where p: "length p = 4" "take (length bs) p = bs" "push_all mouse_push_byte m bs =
      (let m' = m\<lparr>ms_packet := p, ms_packet_index := 0\<rparr>
       in if p ! 0 AND 0xc0 \<noteq> 0 then Some m' else mouse_enqueue m' (mouse_decode p (ms_packet_len m)))"
    using mouse_packet_bytes [OF assms] by blast
  have n: "length bs = 3 \<or> length bs = 4" using m(1) bs(1) by (auto simp: ms_inv_def)
  have nth: "p ! k = bs ! k" if "k < length bs" for k using that p(2) by (metis nth_take)
  then have p0: "p ! 0 = bs ! 0" using n by auto
  let ?m = "m\<lparr>ms_packet := p, ms_packet_index := 0\<rparr>"
  have inv: "ms_inv ?m" using m p(1) by (simp add: ms_inv_def)
  have it: "ms_items ?m = ms_items m" by (simp add: ms_items_def)
  let ?e = "mouse_decode p (ms_packet_len m)"
  have e: "sint (me_dx ?e) = sint (bs ! 1)" "sint (me_dy ?e) = - sint (bs ! 2)"
    "sint (me_wheel ?e) = (if ms_packet_len m = 4 then wheel_of (bs ! 3) else 0)"
    "me_buttons ?e = bs ! 0 AND 0x07"
    using n bs(1) nth sint_nibble [of "p ! 3"]
    by (auto simp: mouse_decode_def sint_widen sint_widen_minus)
  have skip: "\<forall>b. b AND 0x08 = 0 \<longrightarrow> mouse_push_byte m b = Some m" using m(2) by (simp add: mouse_push_byte_def)
  show ?thesis
  proof (cases "bs ! 0 AND 0xc0 = 0")
    case True
    then have "push_all mouse_push_byte m bs = mouse_enqueue ?m ?e" using p(3) p0 by (simp add: Let_def)
    then show ?thesis using mouse_enqueue_ring [OF inv, of ?e] True it e skip by auto
  next
    case False
    then have "push_all mouse_push_byte m bs = Some ?m" using p(3) p0 by (simp add: Let_def)
    then show ?thesis using False it inv skip by simp
  qed
qed

theorem mouse_packet_correct_witness:
  "\<exists>m' e. push_all mouse_push_byte (set_wheel_mode True ms_new) [0x09, 0xfe, 0x05, 0x0f] = Some m' \<and>
     ms_items m' = [e] \<and> sint (me_dx e) = - 2 \<and> sint (me_dy e) = - 5 \<and> sint (me_wheel e) = - 1 \<and>
     me_buttons e = 1"
proof -
  have "ms_inv (set_wheel_mode True ms_new)" "ms_items (set_wheel_mode True ms_new) = []"
    using ms_new_inv by (simp_all add: ms_inv_def ms_items_def set_wheel_mode_def)
  with mouse_packet_correct [of "set_wheel_mode True ms_new" "[0x09, 0xfe, 0x05, 0x0f]"] show ?thesis
    by (auto simp: set_wheel_mode_def list_push_def MOUSE_CAPACITY_def wheel_of_def)
qed

text \<open>Reading the fields of an encoded packet, as the user programs do.\<close>

definition packet_u32 :: "byte list \<Rightarrow> nat \<Rightarrow> u32" where
  "packet_u32 bytes off = le_word (take 4 (drop off bytes))"

lemma packet_bytes:
  "packet_encode p = Some (concat (map (\<lambda>w. le_bytes 4 (unat w))
     [ip_kind p, ip_code p, ip_x p, ip_y p, ip_z p, ip_flags p]))"
  by (simp add: packet_encode_def packet_write_u32_def PACKET_BYTES_def)

lemma key_code_inj: "key_code k = key_code k' \<longleftrightarrow> k = k'"
proof -
  have u: "unat (ucast b :: u32) = unat b" for b :: u8
    using unat_byte [of b] by (simp add: unsigned_ucast_eq take_bit_nat_eq_self)
  then have small: "unat (ucast b :: u32) < 256" for b :: u8 using unat_byte [of b] by simp
  have "(ucast b :: u32) \<noteq> w" if "256 \<le> unat w" for b :: u8 and w using small [of b] that by auto
  note ne = this this [symmetric]
  have "(ucast b :: u32) = ucast c \<longleftrightarrow> b = c" for b c :: u8
    by (simp add: word_unat_eq_iff u)
  then show ?thesis by (cases k; cases k') (auto simp: ne)
qed

text \<open>
  The packets that user programs read lose nothing: encoding always succeeds with 24 bytes, whose six
  little-endian fields are those of the packet, and different keys have different codes.
\<close>

theorem input_packet_roundtrip:
  "(\<exists>bs. packet_encode p = Some bs \<and> length bs = PACKET_BYTES \<and>
     p = \<lparr>ip_kind = packet_u32 bs 0, ip_code = packet_u32 bs 4, ip_x = packet_u32 bs 8,
       ip_y = packet_u32 bs 12, ip_z = packet_u32 bs 16, ip_flags = packet_u32 bs 20\<rparr>) \<and>
   (key_packet k = key_packet k' \<longleftrightarrow> k = k')"
proof -
  have "le_word (le_bytes 4 (unat w)) = w" for w :: u32 by (rule le_word_le_bytes) simp_all
  then show ?thesis
    unfolding packet_bytes by (simp add: packet_u32_def PACKET_BYTES_def key_packet_def key_code_inj)
qed

end
