(* ===== verification/Scheduler.thy ===== *)
theory Scheduler
  imports Kernel_Prelude
begin

text \<open>
  The cooperative round-robin scheduler (\<open>kernel/src/task.rs\<close>), down to the assembly of the context
  switch. \<open>scheduler\<close> is the locked structure; \<open>task_system\<close> adds the flags, the processor's
  registers that survive a call and the memory of the stacks, in slots of eight bytes. The clock, the
  addresses of code, and the address that the heap gives a new stack are arguments. Panics are values.
  Interrupts are off while the lock is held and as before afterwards, so that the blocks under the
  lock are atomic.
\<close>

section \<open>Tasks\<close>

definition STACK_BYTES :: nat where "STACK_BYTES = 32 * 1024"
definition QUANTUM_TICKS :: u64 where "QUANTUM_TICKS = 5"
definition HZ :: u64 where "HZ = 100"

datatype task_state = Running | Ready | Sleeping | Exited

datatype internal_state = Running | Ready | Sleeping u64 | Exited

record task =
  tk_id :: u64
  tk_name :: string
  tk_state :: internal_state
  tk_rsp :: u64
  tk_stack :: "u64 option"
  tk_entry :: "u64 option"

record task_info =
  ti_id :: u64
  ti_name :: string
  ti_state :: task_state
  ti_wake_tick :: "u64 option"

record scheduler_stats =
  st_initialized :: bool
  st_total :: nat
  st_running :: nat
  st_ready :: nat
  st_sleeping :: nat
  st_exited :: nat
  st_context_switches :: u64
  st_heartbeat :: u64

record scheduler =
  sc_tasks :: "task list"
  sc_current :: nat
  sc_next_id :: u64
  sc_context_switches :: u64

datatype task_panic =
    InitializedTwice
  | WorkerNotSpawned
  | BadIndex
  | NoSuccessor
  | MissingEntry

definition scheduler_new :: scheduler where
  "scheduler_new = \<lparr>sc_tasks = [], sc_current = 0, sc_next_id = 1, sc_context_switches = 0\<rparr>"

definition wake_task :: "u64 \<Rightarrow> task \<Rightarrow> task" where
  "wake_task now t =
     (case tk_state t of
        Sleeping until \<Rightarrow> (if until \<le> now then t\<lparr>tk_state := Ready\<rparr> else t)
      | _ \<Rightarrow> t)"

definition wake_sleepers :: "u64 \<Rightarrow> scheduler \<Rightarrow> scheduler" where
  "wake_sleepers now sc = sc\<lparr>sc_tasks := map (wake_task now) (sc_tasks sc)\<rparr>"

fun next_ready_loop :: "task list \<Rightarrow> nat \<Rightarrow> nat list \<Rightarrow> nat option" where
  "next_ready_loop tasks current [] = None"
| "next_ready_loop tasks current (offset # rest) =
     (let index = (current + offset) mod length tasks
      in if tk_state (tasks ! index) = Ready then Some index
         else next_ready_loop tasks current rest)"

definition next_ready :: "scheduler \<Rightarrow> nat option" where
  "next_ready sc =
     (let len = length (sc_tasks sc)
      in if len \<le> 1 then None else next_ready_loop (sc_tasks sc) (sc_current sc) [1..<len])"

section \<open>The scheduling decisions\<close>

text \<open>\<open>Switch\<close>: the task whose \<open>rsp\<close> field the pointer \<open>old_rsp\<close> addresses, and the new stack pointer.\<close>

record switch =
  sw_old :: nat
  sw_new_rsp :: u64

definition set_state :: "nat \<Rightarrow> internal_state \<Rightarrow> scheduler \<Rightarrow> scheduler" where
  "set_state i st sc = sc\<lparr>sc_tasks := (sc_tasks sc)[i := (sc_tasks sc ! i)\<lparr>tk_state := st\<rparr>]\<rparr>"

definition enter_task :: "nat \<Rightarrow> nat \<Rightarrow> scheduler \<Rightarrow> scheduler \<times> switch" where
  "enter_task current next' sc =
     (let sc = set_state next' Running sc;
          sc = sc\<lparr>sc_current := next',
                 sc_context_switches := saturating_add (sc_context_switches sc) 1\<rparr>
      in (sc, \<lparr>sw_old = current, sw_new_rsp = tk_rsp (sc_tasks sc ! next')\<rparr>))"

text \<open>The locked blocks of \<open>yield_now\<close>, \<open>sleep_ticks\<close> and \<open>exit_current\<close>.\<close>

definition sched_yield :: "u64 \<Rightarrow> scheduler \<Rightarrow> task_panic + scheduler \<times> switch option" where
  "sched_yield now sc =
     (let sc = wake_sleepers now sc; current = sc_current sc
      in if length (sc_tasks sc) \<le> current then Inl BadIndex
         else
           (let sc = (if tk_state (sc_tasks sc ! current) = Running then set_state current Ready sc else sc)
            in case next_ready sc of
                 None \<Rightarrow> Inr (set_state current Running sc, None)
               | Some next' \<Rightarrow>
                   (case enter_task current next' sc of (sc, sw) \<Rightarrow> Inr (sc, Some sw))))"

definition sched_sleep :: "u64 \<Rightarrow> u64 \<Rightarrow> scheduler \<Rightarrow> task_panic + scheduler \<times> switch option" where
  "sched_sleep now wake sc =
     (let sc = wake_sleepers now sc; current = sc_current sc
      in if length (sc_tasks sc) \<le> current then Inl BadIndex
         else
           (let sc = set_state current (Sleeping wake) sc
            in case next_ready sc of
                 None \<Rightarrow> Inr (set_state current Running sc, None)
               | Some next' \<Rightarrow>
                   (case enter_task current next' sc of (sc, sw) \<Rightarrow> Inr (sc, Some sw))))"

definition sched_exit :: "u64 \<Rightarrow> scheduler \<Rightarrow> task_panic + scheduler \<times> switch" where
  "sched_exit now sc =
     (let sc = wake_sleepers now sc; current = sc_current sc
      in if length (sc_tasks sc) \<le> current then Inl BadIndex
         else
           (let sc = set_state current Exited sc
            in case next_ready sc of
                 None \<Rightarrow> Inl NoSuccessor
               | Some next' \<Rightarrow> Inr (enter_task current next' sc)))"

section \<open>The context switch\<close>

text \<open>The registers that \<open>generic_context_switch\<close> moves, the stack pointer and the program counter.\<close>

record cpu =
  c_rbp :: u64
  c_rbx :: u64
  c_r12 :: u64
  c_r13 :: u64
  c_r14 :: u64
  c_r15 :: u64
  c_rsp :: u64
  c_rip :: u64

type_synonym stack_memory = "u64 \<Rightarrow> u64"

definition cpu_push :: "u64 \<Rightarrow> cpu \<times> stack_memory \<Rightarrow> cpu \<times> stack_memory" where
  "cpu_push v cm = (case cm of (c, m) \<Rightarrow> (c\<lparr>c_rsp := c_rsp c - 8\<rparr>, m(c_rsp c - 8 := v)))"

definition cpu_pop :: "cpu \<times> stack_memory \<Rightarrow> u64 \<times> cpu \<times> stack_memory" where
  "cpu_pop cm = (case cm of (c, m) \<Rightarrow> (m (c_rsp c), c\<lparr>c_rsp := c_rsp c + 8\<rparr>, m))"

text \<open>The assembly: the result has the value stored through \<open>rdi\<close>, and the machine after \<open>ret\<close>.\<close>

definition generic_context_switch :: "u64 \<Rightarrow> cpu \<times> stack_memory \<Rightarrow> u64 \<times> cpu \<times> stack_memory" where
  "generic_context_switch new_rsp cm =
     (let c = fst cm;
          cm = cpu_push (c_rbp c) cm;
          cm = cpu_push (c_rbx c) cm;
          cm = cpu_push (c_r12 c) cm;
          cm = cpu_push (c_r13 c) cm;
          cm = cpu_push (c_r14 c) cm;
          cm = cpu_push (c_r15 c) cm;
          old_rsp = c_rsp (fst cm);
          cm = ((fst cm)\<lparr>c_rsp := new_rsp\<rparr>, snd cm);
          (v, c, m) = cpu_pop cm; cm = (c\<lparr>c_r15 := v\<rparr>, m);
          (v, c, m) = cpu_pop cm; cm = (c\<lparr>c_r14 := v\<rparr>, m);
          (v, c, m) = cpu_pop cm; cm = (c\<lparr>c_r13 := v\<rparr>, m);
          (v, c, m) = cpu_pop cm; cm = (c\<lparr>c_r12 := v\<rparr>, m);
          (v, c, m) = cpu_pop cm; cm = (c\<lparr>c_rbx := v\<rparr>, m);
          (v, c, m) = cpu_pop cm; cm = (c\<lparr>c_rbp := v\<rparr>, m);
          (v, c, m) = cpu_pop cm
      in (old_rsp, c\<lparr>c_rip := v\<rparr>, m))"

record task_system =
  ts_sched :: scheduler
  ts_initialized :: bool
  ts_reschedule :: bool
  ts_heartbeat :: u64
  ts_cpu :: cpu
  ts_mem :: stack_memory

text \<open>
  Calling the assembly from Rust: the call pushes the address \<open>ra\<close> it returns to, and the saved
  stack pointer goes to the field that \<open>old_rsp\<close> addresses.
\<close>

definition run_switch :: "u64 \<Rightarrow> switch \<Rightarrow> task_system \<Rightarrow> task_system" where
  "run_switch ra sw s =
     (case generic_context_switch (sw_new_rsp sw) (cpu_push ra (ts_cpu s, ts_mem s)) of
        (old_rsp, c, m) \<Rightarrow>
          s\<lparr>ts_sched := (ts_sched s)\<lparr>sc_tasks := (sc_tasks (ts_sched s))
              [sw_old sw := (sc_tasks (ts_sched s) ! sw_old sw)\<lparr>tk_rsp := old_rsp\<rparr>]\<rparr>,
            ts_cpu := c, ts_mem := m\<rparr>)"

definition yield_now :: "u64 \<Rightarrow> u64 \<Rightarrow> task_system \<Rightarrow> task_panic + task_system" where
  "yield_now ra now s =
     (if \<not> ts_initialized s then Inr s
      else
        rbind (sched_yield now (ts_sched s)) (\<lambda>(sc, sw).
          case sw of
            None \<Rightarrow> Inr (s\<lparr>ts_sched := sc\<rparr>)
          | Some sw \<Rightarrow> Inr (run_switch ra sw (s\<lparr>ts_sched := sc\<rparr>))))"

text \<open>
  \<open>sleep_ticks\<close> reads the clock twice. The second component of the result is the tick until which
  the caller halts itself, when no other task can run; before initialisation it always does.
\<close>

definition sleep_ticks ::
  "u64 \<Rightarrow> u64 \<Rightarrow> u64 \<Rightarrow> u64 \<Rightarrow> task_system \<Rightarrow> task_panic + task_system \<times> u64 option" where
  "sleep_ticks ra now now' ticks s =
     (if ticks = 0 then rbind (yield_now ra now s) (\<lambda>s. Inr (s, None))
      else if \<not> ts_initialized s then Inr (s, Some (saturating_add now ticks))
      else
        (let wake = saturating_add now ticks
         in rbind (sched_sleep now' wake (ts_sched s)) (\<lambda>(sc, sw).
              case sw of
                None \<Rightarrow> Inr (s\<lparr>ts_sched := sc\<rparr>, Some wake)
              | Some sw \<Rightarrow> Inr (run_switch ra sw (s\<lparr>ts_sched := sc\<rparr>), None))))"

definition exit_current :: "u64 \<Rightarrow> u64 \<Rightarrow> task_system \<Rightarrow> task_panic + task_system" where
  "exit_current ra now s =
     rbind (sched_exit now (ts_sched s)) (\<lambda>(sc, sw). Inr (run_switch ra sw (s\<lparr>ts_sched := sc\<rparr>)))"

section \<open>Starting tasks\<close>

text \<open>The zeroed stack that the heap gave at \<open>base\<close>, and the frame of a task that never ran.\<close>

definition zero_stack :: "u64 \<Rightarrow> stack_memory \<Rightarrow> stack_memory" where
  "zero_stack base m = (\<lambda>a. if unat base \<le> unat a \<and> unat a < unat base + STACK_BYTES then 0 else m a)"

definition prepare_stack :: "u64 \<Rightarrow> u64 \<Rightarrow> stack_memory \<Rightarrow> u64 \<times> stack_memory" where
  "prepare_stack trampoline base m =
     (let end' = base + of_nat STACK_BYTES
      in (end' - 64, m(end' - 16 := trampoline)))"

definition spawn ::
  "u64 \<Rightarrow> u64 \<Rightarrow> string \<Rightarrow> u64 \<Rightarrow> task_system \<Rightarrow> task_system \<times> u64 option" where
  "spawn trampoline base name entry s =
     (if \<not> ts_initialized s then (s, None)
      else
        (case prepare_stack trampoline base (zero_stack base (ts_mem s)) of
           (rsp, m) \<Rightarrow>
             (let s = s\<lparr>ts_mem := m\<rparr>; sc = ts_sched s; ident = sc_next_id sc
              in case checked_add ident 1 of
                   None \<Rightarrow> (s, None)
                 | Some nid \<Rightarrow>
                     (s\<lparr>ts_sched := sc\<lparr>sc_next_id := nid, sc_tasks := sc_tasks sc @
                        [\<lparr>tk_id = ident, tk_name = name, tk_state = Ready, tk_rsp = rsp,
                          tk_stack = Some base, tk_entry = Some entry\<rparr>]\<rparr>\<rparr>, Some ident))))"

definition boot_task :: task where
  "boot_task = \<lparr>tk_id = 0, tk_name = ''boot'', tk_state = Running, tk_rsp = 0, tk_stack = None,
     tk_entry = None\<rparr>"

definition tasks_init :: "u64 \<Rightarrow> u64 \<Rightarrow> u64 \<Rightarrow> task_system \<Rightarrow> task_panic + task_system" where
  "tasks_init trampoline base housekeeping s =
     (if sc_tasks (ts_sched s) \<noteq> [] then Inl InitializedTwice
      else
        (let s = s\<lparr>ts_sched := \<lparr>sc_tasks = [boot_task], sc_current = 0, sc_next_id = 1,
                     sc_context_switches = 0\<rparr>, ts_initialized := True\<rparr>
         in case spawn trampoline base ''kworker/0'' housekeeping s of
              (s, None) \<Rightarrow> Inl WorkerNotSpawned
            | (s, Some _) \<Rightarrow> Inr s))"

text \<open>What a new task runs first: its entry point.\<close>

definition trampoline_entry :: "task_system \<Rightarrow> task_panic + u64" where
  "trampoline_entry s =
     (let sc = ts_sched s
      in if length (sc_tasks sc) \<le> sc_current sc then Inl BadIndex
         else ok_or (tk_entry (sc_tasks sc ! sc_current sc)) MissingEntry)"

definition on_timer_tick :: "u64 \<Rightarrow> task_system \<Rightarrow> task_system" where
  "on_timer_tick tick s =
     (if ts_initialized s \<and> tick mod QUANTUM_TICKS = 0 then s\<lparr>ts_reschedule := True\<rparr> else s)"

definition checkpoint :: "u64 \<Rightarrow> u64 \<Rightarrow> task_system \<Rightarrow> task_panic + task_system" where
  "checkpoint ra now s =
     (if ts_reschedule s then yield_now ra now (s\<lparr>ts_reschedule := False\<rparr>) else Inr s)"

text \<open>One round of the worker's loop.\<close>

definition housekeeping_round ::
  "u64 \<Rightarrow> u64 \<Rightarrow> u64 \<Rightarrow> task_system \<Rightarrow> task_panic + task_system \<times> u64 option" where
  "housekeeping_round ra now now' s =
     sleep_ticks ra now now' HZ (s\<lparr>ts_heartbeat := ts_heartbeat s + 1\<rparr>)"

section \<open>Diagnostics\<close>

fun count_task :: "task \<Rightarrow> scheduler_stats \<Rightarrow> scheduler_stats" where
  "count_task t st =
     (case tk_state t of
        Running \<Rightarrow> st\<lparr>st_running := st_running st + 1\<rparr>
      | Ready \<Rightarrow> st\<lparr>st_ready := st_ready st + 1\<rparr>
      | Sleeping _ \<Rightarrow> st\<lparr>st_sleeping := st_sleeping st + 1\<rparr>
      | Exited \<Rightarrow> st\<lparr>st_exited := st_exited st + 1\<rparr>)"

definition stats_default :: scheduler_stats where
  "stats_default = \<lparr>st_initialized = False, st_total = 0, st_running = 0, st_ready = 0, st_sleeping = 0,
     st_exited = 0, st_context_switches = 0, st_heartbeat = 0\<rparr>"

definition task_stats :: "task_system \<Rightarrow> scheduler_stats" where
  "task_stats s =
     (if \<not> ts_initialized s then stats_default
      else fold count_task (sc_tasks (ts_sched s))
        (stats_default\<lparr>st_initialized := True, st_total := length (sc_tasks (ts_sched s)),
           st_context_switches := sc_context_switches (ts_sched s), st_heartbeat := ts_heartbeat s\<rparr>))"

definition task_row :: "task \<Rightarrow> task_info" where
  "task_row t =
     (case (case tk_state t of
              Running \<Rightarrow> (task_state.Running, None)
            | Ready \<Rightarrow> (task_state.Ready, None)
            | Sleeping tick \<Rightarrow> (task_state.Sleeping, Some tick)
            | Exited \<Rightarrow> (task_state.Exited, None)) of
        (st, wake) \<Rightarrow> \<lparr>ti_id = tk_id t, ti_name = tk_name t, ti_state = st, ti_wake_tick = wake\<rparr>)"

definition task_rows :: "task_system \<Rightarrow> task_info list" where
  "task_rows s = (if \<not> ts_initialized s then [] else map task_row (sc_tasks (ts_sched s)))"

section \<open>The round robin\<close>

text \<open>How far task \<open>i\<close> is after task \<open>c\<close> in a ring of \<open>n\<close> tasks.\<close>

definition ring_dist :: "nat \<Rightarrow> nat \<Rightarrow> nat \<Rightarrow> nat" where
  "ring_dist n c i = (i + n - c) mod n"

lemma ring_dist_less: "i < n \<Longrightarrow> ring_dist n c i < n"
  by (simp add: ring_dist_def)

lemma ring_dist_add:
  assumes "c < n" "d < n"
  shows "ring_dist n c ((c + d) mod n) = d"
proof (cases "c + d < n")
  case True
  then show ?thesis using assms by (simp add: ring_dist_def)
next
  case False
  then have "(c + d) mod n = c + d - n" using assms by (simp add: le_mod_geq)
  then show ?thesis using assms False by (simp add: ring_dist_def)
qed

lemma ring_dist_back:
  assumes "c < n" "i < n"
  shows "(c + ring_dist n c i) mod n = i"
proof -
  have "(c + (i + n - c) mod n) mod n = (c + (i + n - c)) mod n" by (simp add: mod_simps)
  then show ?thesis using assms by (simp add: ring_dist_def)
qed

lemma ring_dist_zero:
  assumes "c < n" "i < n"
  shows "ring_dist n c i = 0 \<longleftrightarrow> i = c"
  using ring_dist_back [OF assms] assms by (auto simp: ring_dist_def)

lemma ring_dist_step:
  assumes "c < n" "i < n" "d \<le> ring_dist n c i"
  shows "ring_dist n ((c + d) mod n) i = ring_dist n c i - d"
proof -
  let ?e = "ring_dist n c i"
  have "((c + d) mod n + (?e - d)) mod n = (c + d + (?e - d)) mod n" by (simp only: mod_simps)
  also have "\<dots> = i" using ring_dist_back [OF assms(1,2)] assms(3) by simp
  finally have "i = ((c + d) mod n + (?e - d)) mod n" by simp
  moreover have "?e - d < n" using ring_dist_less [OF assms(2), of c] by simp
  moreover have "(c + d) mod n < n" using assms(1) by simp
  ultimately show ?thesis using ring_dist_add by metis
qed

lemma next_ready_loop_Some:
  assumes "next_ready_loop ts c offs = Some n"
  obtains d pre post where "offs = pre @ d # post" "n = (c + d) mod length ts" "tk_state (ts ! n) = Ready"
    "\<forall>e\<in>set pre. tk_state (ts ! ((c + e) mod length ts)) \<noteq> Ready"
  using assms
proof (induction offs arbitrary: thesis)
  case (Cons off offs)
  show ?case
  proof (cases "tk_state (ts ! ((c + off) mod length ts)) = Ready")
    case True
    then show ?thesis using Cons.prems(1) [of "[]" off offs] Cons.prems(2) by simp
  next
    case False
    then have "next_ready_loop ts c offs = Some n" using Cons.prems(2) by simp
    from Cons.IH [OF _ this] False Cons.prems(1) show ?thesis
      by (metis append_Cons set_ConsD)
  qed
qed simp

lemma next_ready_loop_None:
  "next_ready_loop ts c offs = None \<longleftrightarrow> (\<forall>e\<in>set offs. tk_state (ts ! ((c + e) mod length ts)) \<noteq> Ready)"
  by (induction offs) (auto simp: Let_def)

lemma next_ready_None:
  assumes "next_ready sc = None" and "sc_current sc < length (sc_tasks sc)"
    and "i < length (sc_tasks sc)" and "i \<noteq> sc_current sc"
  shows "tk_state (sc_tasks sc ! i) \<noteq> Ready"
proof -
  let ?n = "length (sc_tasks sc)" and ?e = "ring_dist (length (sc_tasks sc)) (sc_current sc) i"
  have "\<not> ?n \<le> 1" using assms(2-4) by (cases ?n) auto
  then have "\<forall>e\<in>set [1..<?n]. tk_state (sc_tasks sc ! ((sc_current sc + e) mod ?n)) \<noteq> Ready"
    using assms(1) by (simp add: next_ready_def next_ready_loop_None Let_def)
  moreover have "?e \<in> set [1..<?n]"
    using ring_dist_zero [OF assms(2,3)] ring_dist_less [OF assms(3)] assms(4) by (simp add: Suc_le_eq)
  ultimately show ?thesis using ring_dist_back [OF assms(2,3)] by metis
qed

text \<open>The task that is chosen is the first ready one after the current task.\<close>

lemma next_ready_Some:
  assumes "next_ready sc = Some n" and c: "sc_current sc < length (sc_tasks sc)"
  shows "n < length (sc_tasks sc)" "n \<noteq> sc_current sc" "tk_state (sc_tasks sc ! n) = Ready"
    "\<forall>i < length (sc_tasks sc). i \<noteq> sc_current sc \<and> tk_state (sc_tasks sc ! i) = Ready \<longrightarrow>
       ring_dist (length (sc_tasks sc)) n i < ring_dist (length (sc_tasks sc)) (sc_current sc) i"
proof -
  let ?n = "length (sc_tasks sc)" and ?c = "sc_current sc"
  have "next_ready_loop (sc_tasks sc) ?c [1..<?n] = Some n"
    using assms(1) by (simp add: next_ready_def Let_def split: if_splits)
  then obtain d pre post where d: "[1..<?n] = pre @ d # post" "n = (?c + d) mod ?n"
    "tk_state (sc_tasks sc ! n) = Ready" "\<forall>e\<in>set pre. tk_state (sc_tasks sc ! ((?c + e) mod ?n)) \<noteq> Ready"
    by (rule next_ready_loop_Some)
  have dset: "d \<in> set [1..<?n]" unfolding d(1) by simp
  then have dn: "1 \<le> d" "d < ?n" by auto
  have pre: "set pre = {1..<d}"
  proof -
    have "pre = take (length pre) [1..<?n]" and "[1..<?n] ! length pre = d" using d(1) by simp_all
    moreover have "length pre < length [1..<?n]" unfolding d(1) by simp
    ultimately show ?thesis by (metis nth_upt take_upt set_upt add.commute length_upt less_diff_conv less_imp_le)
  qed
  show "n < ?n" unfolding d(2) using c by (intro mod_less_divisor) linarith
  show "tk_state (sc_tasks sc ! n) = Ready" by (rule d(3))
  show "n \<noteq> ?c" using ring_dist_add [OF c dn(2)] ring_dist_zero [OF c c] dn(1) d(2) by auto
  show "\<forall>i < ?n. i \<noteq> ?c \<and> tk_state (sc_tasks sc ! i) = Ready \<longrightarrow> ring_dist ?n n i < ring_dist ?n ?c i"
  proof (intro allI impI, elim conjE)
    fix i assume i: "i < ?n" "i \<noteq> ?c" "tk_state (sc_tasks sc ! i) = Ready"
    let ?e = "ring_dist ?n ?c i"
    have "1 \<le> ?e" using ring_dist_zero [OF c i(1)] i(2) by (simp add: Suc_le_eq)
    moreover have "?e \<notin> set pre" using d(4) i(3) ring_dist_back [OF c i(1)] by metis
    ultimately have "d \<le> ?e" unfolding pre by simp
    then show "ring_dist ?n n i < ?e" using ring_dist_step [OF c i(1), of d] dn d(2) by simp
  qed
qed

section \<open>The invariant of the scheduler\<close>

text \<open>Exactly the current task runs, and identifiers are unique and below the next one.\<close>

definition sched_inv :: "scheduler \<Rightarrow> bool" where
  "sched_inv sc \<longleftrightarrow> sc_current sc < length (sc_tasks sc) \<and>
     (\<forall>i < length (sc_tasks sc). tk_state (sc_tasks sc ! i) = Running \<longleftrightarrow> i = sc_current sc) \<and>
     sorted_wrt (<) (map tk_id (sc_tasks sc)) \<and> (\<forall>t\<in>set (sc_tasks sc). tk_id t < sc_next_id sc)"

text \<open>What the three blocks have in common: the current task leaves in state \<open>st\<close>.\<close>

definition dispatch :: "u64 \<Rightarrow> internal_state \<Rightarrow> scheduler \<Rightarrow> (scheduler \<times> switch) option" where
  "dispatch now st sc =
     (let sc = set_state (sc_current sc) st (wake_sleepers now sc)
      in map_option (\<lambda>next'. enter_task (sc_current sc) next' sc) (next_ready sc))"

definition stay :: "u64 \<Rightarrow> scheduler \<Rightarrow> scheduler" where
  "stay now sc = set_state (sc_current sc) Running (wake_sleepers now sc)"

lemma wake_task_simps [simp]:
  "tk_id (wake_task now t) = tk_id t" "tk_name (wake_task now t) = tk_name t"
  "tk_rsp (wake_task now t) = tk_rsp t" "tk_stack (wake_task now t) = tk_stack t"
  "tk_entry (wake_task now t) = tk_entry t"
  "tk_state (wake_task now t) = Running \<longleftrightarrow> tk_state t = Running"
  "tk_state (wake_task now t) = Exited \<longleftrightarrow> tk_state t = Exited"
  "tk_state (wake_task now t) = Ready \<longleftrightarrow>
     tk_state t = Ready \<or> (\<exists>u. tk_state t = Sleeping u \<and> u \<le> now)"
  "tk_state (wake_task now t) = Sleeping u \<longleftrightarrow> tk_state t = Sleeping u \<and> \<not> u \<le> now"
  by (auto simp: wake_task_def split: internal_state.splits)

lemma wake_sleepers_simps [simp]:
  "sc_tasks (wake_sleepers now sc) = map (wake_task now) (sc_tasks sc)"
  "sc_current (wake_sleepers now sc) = sc_current sc" "sc_next_id (wake_sleepers now sc) = sc_next_id sc"
  by (simp_all add: wake_sleepers_def)

lemma set_state_simps [simp]:
  "sc_tasks (set_state i st sc) = (sc_tasks sc)[i := (sc_tasks sc ! i)\<lparr>tk_state := st\<rparr>]"
  "sc_current (set_state i st sc) = sc_current sc" "sc_next_id (set_state i st sc) = sc_next_id sc"
  by (simp_all add: set_state_def)

lemma set_state_twice: "set_state i st (set_state i st' sc) = set_state i st sc"
  by (cases "i < length (sc_tasks sc)") (simp_all add: set_state_def list_update_beyond)

lemma sched_blocks:
  assumes "sched_inv sc"
  shows "sched_yield now sc =
      (case dispatch now Ready sc of None \<Rightarrow> Inr (stay now sc, None) | Some (sc', sw) \<Rightarrow> Inr (sc', Some sw))"
    and "sched_sleep now wake sc =
      (case dispatch now (Sleeping wake) sc of
         None \<Rightarrow> Inr (stay now sc, None) | Some (sc', sw) \<Rightarrow> Inr (sc', Some sw))"
    and "sched_exit now sc = (case dispatch now Exited sc of None \<Rightarrow> Inl NoSuccessor | Some r \<Rightarrow> Inr r)"
  using assms
  by (auto simp: sched_inv_def sched_yield_def sched_sleep_def sched_exit_def dispatch_def stay_def Let_def
      set_state_twice split: option.splits)

lemma sched_inv_update:
  assumes "sched_inv sc" and "length (sc_tasks sc') = length (sc_tasks sc)" and "sc_next_id sc' = sc_next_id sc"
    and "sc_current sc' < length (sc_tasks sc)"
    and "\<And>i. i < length (sc_tasks sc) \<Longrightarrow> tk_id (sc_tasks sc' ! i) = tk_id (sc_tasks sc ! i)"
    and "\<And>i. i < length (sc_tasks sc) \<Longrightarrow> tk_state (sc_tasks sc' ! i) = Running \<longleftrightarrow> i = sc_current sc'"
  shows "sched_inv sc'"
proof -
  have ids: "map tk_id (sc_tasks sc') = map tk_id (sc_tasks sc)"
    using assms(2,5) by (auto intro: nth_equalityI)
  then have "tk_id ` set (sc_tasks sc') = tk_id ` set (sc_tasks sc)" by (metis set_map)
  then have "\<forall>t\<in>set (sc_tasks sc'). tk_id t < sc_next_id sc'"
    using assms(1,3) unfolding sched_inv_def by (metis imageE imageI)
  then show ?thesis using assms ids unfolding sched_inv_def by simp
qed

lemma stay_inv: "sched_inv sc \<Longrightarrow> sched_inv (stay now sc)"
  by (rule sched_inv_update [of sc]) (auto simp: stay_def sched_inv_def nth_list_update)

text \<open>The effect of a dispatch, task by task.\<close>

lemma dispatch_cases:
  assumes inv: "sched_inv sc" and d: "dispatch now st sc = Some (sc', sw)" and st: "st \<noteq> Running"
  shows "sched_inv sc'" "length (sc_tasks sc') = length (sc_tasks sc)" "sc_next_id sc' = sc_next_id sc"
    "sc_current sc' < length (sc_tasks sc)" "sc_current sc' \<noteq> sc_current sc"
    "sw_old sw = sc_current sc" "sw_new_rsp sw = tk_rsp (sc_tasks sc ! sc_current sc')"
    "\<forall>i < length (sc_tasks sc). sc_tasks sc' ! i = (wake_task now (sc_tasks sc ! i))
       \<lparr>tk_state := (if i = sc_current sc' then Running else if i = sc_current sc then st
          else tk_state (wake_task now (sc_tasks sc ! i)))\<rparr>"
    "tk_state (wake_task now (sc_tasks sc ! sc_current sc')) = Ready"
    "\<forall>i < length (sc_tasks sc). i \<noteq> sc_current sc \<and> tk_state (wake_task now (sc_tasks sc ! i)) = Ready \<longrightarrow>
       ring_dist (length (sc_tasks sc)) (sc_current sc') i < ring_dist (length (sc_tasks sc)) (sc_current sc) i"
proof -
  let ?sc = "set_state (sc_current sc) st (wake_sleepers now sc)" and ?n = "length (sc_tasks sc)"
  obtain n where n: "next_ready ?sc = Some n" "enter_task (sc_current sc) n ?sc = (sc', sw)"
    using d by (auto simp: dispatch_def Let_def)
  have c: "sc_current sc < ?n" using inv by (simp add: sched_inv_def)
  have nr: "n < ?n" "n \<noteq> sc_current sc" "tk_state (wake_task now (sc_tasks sc ! n)) = Ready"
    using next_ready_Some(1-3) [OF n(1)] c by auto
  have near: "\<forall>i < ?n. i \<noteq> sc_current sc \<and> tk_state (wake_task now (sc_tasks sc ! i)) = Ready \<longrightarrow>
       ring_dist ?n n i < ring_dist ?n (sc_current sc) i"
    using next_ready_Some(4) [OF n(1)] c by simp
  have sc': "sc_tasks sc' = (map (wake_task now) (sc_tasks sc))
        [sc_current sc := (wake_task now (sc_tasks sc ! sc_current sc))\<lparr>tk_state := st\<rparr>,
         n := (wake_task now (sc_tasks sc ! n))\<lparr>tk_state := Running\<rparr>]"
    "sc_current sc' = n" "sc_next_id sc' = sc_next_id sc" "sw_old sw = sc_current sc"
    "sw_new_rsp sw = tk_rsp (sc_tasks sc ! n)"
    using n(2) nr c by (auto simp: enter_task_def Let_def)
  show len: "length (sc_tasks sc') = ?n" using sc'(1) by simp
  show eff: "\<forall>i < ?n. sc_tasks sc' ! i = (wake_task now (sc_tasks sc ! i))
       \<lparr>tk_state := (if i = sc_current sc' then Running else if i = sc_current sc then st
          else tk_state (wake_task now (sc_tasks sc ! i)))\<rparr>"
    using nr c by (auto simp: sc' nth_list_update)
  show "sched_inv sc'"
    by (rule sched_inv_update [OF inv len sc'(3)]) (use eff nr st inv sc' in \<open>auto simp: sched_inv_def\<close>)
  show "sc_next_id sc' = sc_next_id sc" "sc_current sc' < ?n" "sc_current sc' \<noteq> sc_current sc"
    "sw_old sw = sc_current sc" "sw_new_rsp sw = tk_rsp (sc_tasks sc ! sc_current sc')"
    "tk_state (wake_task now (sc_tasks sc ! sc_current sc')) = Ready"
    using sc' nr by simp_all
  show "\<forall>i < ?n. i \<noteq> sc_current sc \<and> tk_state (wake_task now (sc_tasks sc ! i)) = Ready \<longrightarrow>
       ring_dist ?n (sc_current sc') i < ring_dist ?n (sc_current sc) i"
    using near unfolding sc'(2) .
qed

lemma dispatch_None:
  assumes "sched_inv sc" and "dispatch now st sc = None"
    and "i < length (sc_tasks sc)" and "i \<noteq> sc_current sc"
  shows "tk_state (wake_task now (sc_tasks sc ! i)) \<noteq> Ready"
  using next_ready_None [of "set_state (sc_current sc) st (wake_sleepers now sc)" i] assms
  by (auto simp: dispatch_def Let_def sched_inv_def)

section \<open>Sequences of scheduling calls\<close>

text \<open>The calls that give the processor away, each at its clock, made by whichever task runs.\<close>

datatype sched_call = Yield u64 | Sleep u64 u64 | Exit u64

fun call_clock :: "sched_call \<Rightarrow> u64" where
  "call_clock (Yield now) = now"
| "call_clock (Sleep now wake) = now"
| "call_clock (Exit now) = now"

fun leave_state :: "sched_call \<Rightarrow> internal_state" where
  "leave_state (Yield now) = Ready"
| "leave_state (Sleep now wake) = Sleeping wake"
| "leave_state (Exit now) = Exited"

fun sched_step :: "scheduler \<Rightarrow> sched_call \<Rightarrow> task_panic + scheduler" where
  "sched_step sc (Yield now) = rbind (sched_yield now sc) (\<lambda>(sc', sw). Inr sc')"
| "sched_step sc (Sleep now wake) = rbind (sched_sleep now wake sc) (\<lambda>(sc', sw). Inr sc')"
| "sched_step sc (Exit now) = rbind (sched_exit now sc) (\<lambda>(sc', sw). Inr sc')"

fun sched_run :: "scheduler \<Rightarrow> sched_call list \<Rightarrow> task_panic + scheduler" where
  "sched_run sc [] = Inr sc"
| "sched_run sc (c # cs) = rbind (sched_step sc c) (\<lambda>sc'. sched_run sc' cs)"

lemma sched_step_dispatch:
  assumes "sched_inv sc" and "dispatch (call_clock c) (leave_state c) sc = Some (sc', sw)"
  shows "sched_step sc c = Inr sc'"
  using assms by (cases c) (simp_all add: sched_blocks)

lemma sched_step_stay:
  assumes "sched_inv sc" and "dispatch (call_clock c) (leave_state c) sc = None"
  shows "sched_step sc c = (case c of Exit _ \<Rightarrow> Inl NoSuccessor | _ \<Rightarrow> Inr (stay (call_clock c) sc))"
  using assms by (cases c) (simp_all add: sched_blocks)

lemma leave_state_not_running [simp]: "leave_state c \<noteq> Running"
  by (cases c) simp_all

lemma sched_step_inv:
  assumes "sched_inv sc" and "sched_step sc c = Inr sc'"
  shows "sched_inv sc'"
proof (cases "dispatch (call_clock c) (leave_state c) sc")
  case None
  then show ?thesis
    using sched_step_stay [OF assms(1)] assms stay_inv by (auto split: sched_call.splits)
next
  case (Some r)
  then show ?thesis using sched_step_dispatch [OF assms(1)] assms dispatch_cases(1) [OF assms(1)]
    by (cases r) fastforce
qed

lemma sched_step_progress:
  assumes inv: "sched_inv sc" and i: "i < length (sc_tasks sc)" "i \<noteq> sc_current sc"
    and ready: "tk_state (wake_task (call_clock c) (sc_tasks sc ! i)) = Ready"
  shows "\<exists>sc'. sched_step sc c = Inr sc' \<and> sched_inv sc' \<and> length (sc_tasks sc') = length (sc_tasks sc) \<and>
    ring_dist (length (sc_tasks sc)) (sc_current sc') i < ring_dist (length (sc_tasks sc)) (sc_current sc) i \<and>
    (sc_current sc' = i \<or> tk_state (sc_tasks sc' ! i) = Ready)"
proof (cases "dispatch (call_clock c) (leave_state c) sc")
  case None
  then show ?thesis using dispatch_None [OF inv None i] ready by simp
next
  case (Some r)
  obtain sc' sw where r: "dispatch (call_clock c) (leave_state c) sc = Some (sc', sw)"
    using Some by (cases r) simp
  note D = dispatch_cases [OF inv r leave_state_not_running]
  show ?thesis using sched_step_dispatch [OF inv r] D(1,2,8,10) i ready by auto
qed

text \<open>
  C11: No ready task starves: whatever calls the running tasks make, yielding, sleeping or exiting, a task
  that is ready, or whose wake-up tick has come, runs after at most as many calls as it has
  tasks before it in the ring, and none of these calls panics.
\<close>

theorem round_robin_live:
  assumes "sched_inv sc" and "i < length (sc_tasks sc)" and "i \<noteq> sc_current sc"
    and "tk_state (wake_task (call_clock (hd calls)) (sc_tasks sc ! i)) = Ready"
    and "ring_dist (length (sc_tasks sc)) (sc_current sc) i \<le> length calls"
  shows "\<exists>k \<le> ring_dist (length (sc_tasks sc)) (sc_current sc) i. \<exists>sc'.
    sched_run sc (take k calls) = Inr sc' \<and> sc_current sc' = i"
  using assms
proof (induction calls arbitrary: sc)
  case Nil
  then show ?case using ring_dist_zero [of "sc_current sc" "length (sc_tasks sc)" i] by (simp add: sched_inv_def)
next
  case (Cons c calls)
  let ?n = "length (sc_tasks sc)"
  obtain sc' where sc': "sched_step sc c = Inr sc'" "sched_inv sc'" "length (sc_tasks sc') = ?n"
    "ring_dist ?n (sc_current sc') i < ring_dist ?n (sc_current sc) i"
    "sc_current sc' = i \<or> tk_state (sc_tasks sc' ! i) = Ready"
    using sched_step_progress [of sc i c] Cons.prems by auto
  show ?case
  proof (cases "sc_current sc' = i")
    case True
    then show ?thesis using sc'(1,4) by (intro exI [of _ 1]) simp
  next
    case False
    then obtain k sc2 where "k \<le> ring_dist ?n (sc_current sc') i" "sched_run sc' (take k calls) = Inr sc2"
      "sc_current sc2 = i"
      using Cons.IH [OF sc'(2)] Cons.prems(2,5) sc'(3-5) by auto
    then show ?thesis using sc'(1,4) by (intro exI [of _ "Suc k"]) simp
  qed
qed

lemma dormant_step:
  assumes inv: "sched_inv sc" and step: "sched_step sc c = Inr sc'"
    and i: "i < length (sc_tasks sc)" "i \<noteq> sc_current sc" "tk_state (sc_tasks sc ! i) = st"
    and dormant: "st = Exited \<or> (\<exists>u. st = Sleeping u \<and> call_clock c < u)"
  shows "length (sc_tasks sc') = length (sc_tasks sc)" "sc_current sc' \<noteq> i" "tk_state (sc_tasks sc' ! i) = st"
proof -
  have w: "tk_state (wake_task (call_clock c) (sc_tasks sc ! i)) = st" "st \<noteq> Ready"
    using dormant i(3) by auto
  have "length (sc_tasks sc') = length (sc_tasks sc) \<and> sc_current sc' \<noteq> i \<and> tk_state (sc_tasks sc' ! i) = st"
  proof (cases "dispatch (call_clock c) (leave_state c) sc")
    case None
    then have "sc' = stay (call_clock c) sc"
      using sched_step_stay [OF inv None] step by (auto split: sched_call.splits)
    then show ?thesis using i w by (simp add: stay_def)
  next
    case (Some r)
    obtain sc2 sw where r: "dispatch (call_clock c) (leave_state c) sc = Some (sc2, sw)"
      using Some by (cases r) simp
    note D = dispatch_cases [OF inv r leave_state_not_running]
    have "sc2 = sc'" using sched_step_dispatch [OF inv r] step by simp
    moreover have "sc_current sc2 \<noteq> i" using D(9) w by auto
    ultimately show ?thesis using D(2,8) i w by auto
  qed
  then show "length (sc_tasks sc') = length (sc_tasks sc)" "sc_current sc' \<noteq> i"
    "tk_state (sc_tasks sc' ! i) = st" by simp_all
qed

text \<open>
  C13: A task that sleeps until a tick does not run while the clock is below it, and a task that exited
  never runs again, over any sequence of scheduling calls of the other tasks.
\<close>

theorem dormant_tasks_stay:
  assumes "sched_inv sc" and "sched_run sc calls = Inr sc'"
    and "i < length (sc_tasks sc)" and "i \<noteq> sc_current sc" and "tk_state (sc_tasks sc ! i) = st"
    and "st = Exited \<or> (\<exists>u. st = Sleeping u \<and> (\<forall>c\<in>set calls. call_clock c < u))"
  shows "sc_current sc' \<noteq> i \<and> tk_state (sc_tasks sc' ! i) = st"
  using assms
proof (induction calls arbitrary: sc)
  case (Cons c calls)
  obtain sc1 where sc1: "sched_step sc c = Inr sc1" "sched_run sc1 calls = Inr sc'"
    using Cons.prems(2) by (auto simp: result_simps)
  have dormant: "st = Exited \<or> (\<exists>u. st = Sleeping u \<and> call_clock c < u)" using Cons.prems(6) by auto
  note D = dormant_step [OF Cons.prems(1) sc1(1) Cons.prems(3-5) dormant]
  show ?case
    using Cons.IH [OF sched_step_inv [OF Cons.prems(1) sc1(1)] sc1(2)] D Cons.prems(3,6) by auto
qed simp

section \<open>Contexts\<close>

text \<open>The registers that a frame at \<open>r\<close> restores, and the bytes of the frame.\<close>

definition saved_context :: "stack_memory \<Rightarrow> u64 \<Rightarrow> cpu" where
  "saved_context m r = \<lparr>c_rbp = m (r + 40), c_rbx = m (r + 32), c_r12 = m (r + 24), c_r13 = m (r + 16),
     c_r14 = m (r + 8), c_r15 = m r, c_rsp = r + 56, c_rip = m (r + 48)\<rparr>"

definition frame :: "u64 \<Rightarrow> nat set" where
  "frame r = {unat r..<unat r + 56}"

definition save_frame :: "u64 \<Rightarrow> u64 \<Rightarrow> cpu \<Rightarrow> stack_memory \<Rightarrow> stack_memory" where
  "save_frame r ra c m = m(r + 48 := ra, r + 40 := c_rbp c, r + 32 := c_rbx c, r + 24 := c_r12 c,
     r + 16 := c_r13 c, r + 8 := c_r14 c, r := c_r15 c)"

lemma context_switch_frames:
  assumes "c_rsp c = r + 56"
  shows "generic_context_switch new_rsp (cpu_push ra (c, m)) =
    (r, saved_context (save_frame r ra c m) new_rsp, save_frame r ra c m)"
  using assms
  by (cases c) (simp add: generic_context_switch_def cpu_push_def cpu_pop_def saved_context_def save_frame_def
      Let_def ac_simps)

lemma saved_context_same: "c_rsp c = r + 56 \<Longrightarrow> saved_context (save_frame r ra c m) r = c\<lparr>c_rip := ra\<rparr>"
  by (cases c) (simp add: saved_context_def save_frame_def)

lemma frame_slots:
  assumes "frame r \<subseteq> {..<2 ^ 64 - 1}" and "unat k < 56"
  shows "unat (r + k) \<in> frame r"
proof -
  have "unat r + 55 < 2 ^ 64 - 1" using assms(1) by (auto simp: frame_def subset_iff)
  then have "unat (r + k) = unat r + unat k" using assms(2) by (intro unat_add_small) simp
  then show ?thesis using assms(2) by (simp add: frame_def)
qed

lemma saved_context_agree:
  assumes "frame q \<subseteq> {..<2 ^ 64 - 1}" and "\<And>a. unat a \<in> frame q \<Longrightarrow> m' a = m a"
  shows "saved_context m' q = saved_context m q"
proof -
  have "m' (q + k) = m (q + k)" if "unat k < 56" for k using assms frame_slots that by blast
  from this [of 0] this [of 8] this [of 16] this [of 24] this [of 32] this [of 40] this [of 48]
  show ?thesis by (simp add: saved_context_def)
qed

lemma save_frame_outside:
  assumes "frame r \<subseteq> {..<2 ^ 64 - 1}" and "unat a \<notin> frame r"
  shows "save_frame r ra c m a = m a"
proof -
  have "a \<noteq> r + k" if "unat k < 56" for k using frame_slots [OF assms(1) that] assms(2) by auto
  from this [of 0] this [of 8] this [of 16] this [of 24] this [of 32] this [of 40] this [of 48]
  show ?thesis by (simp add: save_frame_def)
qed

text \<open>
  The stack of a task; \<open>boot\<close> is the stack the boot task came with. In a consistent system the stacks
  are apart, every suspended task has its frame on its own stack, and the running task has room
  for one. Slots are eight-byte aligned.
\<close>

definition task_stack :: "nat set \<Rightarrow> task \<Rightarrow> nat set" where
  "task_stack boot t = (case tk_stack t of None \<Rightarrow> boot | Some b \<Rightarrow> {unat b..<unat b + STACK_BYTES})"

definition frame_on :: "nat set \<Rightarrow> u64 \<Rightarrow> bool" where
  "frame_on st r \<longleftrightarrow> frame r \<subseteq> st \<and> 8 dvd unat r"

definition context_inv :: "nat set \<Rightarrow> task_system \<Rightarrow> bool" where
  "context_inv boot s \<longleftrightarrow> sched_inv (ts_sched s) \<and> ts_initialized s \<and>
     (let ts = sc_tasks (ts_sched s); c = sc_current (ts_sched s) in
       (\<forall>i < length ts. task_stack boot (ts ! i) \<subseteq> {..<2 ^ 64 - 1}) \<and>
       (\<forall>i < length ts. \<forall>j < length ts. i \<noteq> j \<longrightarrow> task_stack boot (ts ! i) \<inter> task_stack boot (ts ! j) = {}) \<and>
       (\<forall>i < length ts. i \<noteq> c \<and> tk_state (ts ! i) \<noteq> Exited \<longrightarrow> frame_on (task_stack boot (ts ! i)) (tk_rsp (ts ! i))) \<and>
       frame_on (task_stack boot (ts ! c)) (c_rsp (ts_cpu s) - 56))"

definition task_context :: "task_system \<Rightarrow> nat \<Rightarrow> cpu" where
  "task_context s i = saved_context (ts_mem s) (tk_rsp (sc_tasks (ts_sched s) ! i))"

lemma context_invD:
  assumes "context_inv boot s"
  shows "sched_inv (ts_sched s)" "ts_initialized s"
    "i < length (sc_tasks (ts_sched s)) \<Longrightarrow> task_stack boot (sc_tasks (ts_sched s) ! i) \<subseteq> {..<2 ^ 64 - 1}"
    "i < length (sc_tasks (ts_sched s)) \<Longrightarrow> j < length (sc_tasks (ts_sched s)) \<Longrightarrow> i \<noteq> j \<Longrightarrow>
       task_stack boot (sc_tasks (ts_sched s) ! i) \<inter> task_stack boot (sc_tasks (ts_sched s) ! j) = {}"
    "i < length (sc_tasks (ts_sched s)) \<Longrightarrow> i \<noteq> sc_current (ts_sched s) \<Longrightarrow>
       tk_state (sc_tasks (ts_sched s) ! i) \<noteq> Exited \<Longrightarrow>
       frame_on (task_stack boot (sc_tasks (ts_sched s) ! i)) (tk_rsp (sc_tasks (ts_sched s) ! i))"
    "frame_on (task_stack boot (sc_tasks (ts_sched s) ! sc_current (ts_sched s))) (c_rsp (ts_cpu s) - 56)"
  using assms unfolding context_inv_def Let_def by blast+

lemma task_stack_wake [simp]:
  "task_stack boot (t\<lparr>tk_state := st\<rparr>) = task_stack boot t"
  "task_stack boot (t\<lparr>tk_rsp := r\<rparr>) = task_stack boot t"
  "task_stack boot (wake_task now t) = task_stack boot t"
  by (simp_all add: task_stack_def)

text \<open>Only the running task's stack changes while it runs: the contexts of the others stay.\<close>

lemma other_contexts_stay:
  assumes inv: "context_inv boot s" and i: "i < length (sc_tasks (ts_sched s))" "i \<noteq> sc_current (ts_sched s)"
      "tk_state (sc_tasks (ts_sched s) ! i) \<noteq> Exited"
    and m: "\<And>a. unat a \<notin> task_stack boot (sc_tasks (ts_sched s) ! sc_current (ts_sched s)) \<Longrightarrow> m a = ts_mem s a"
  shows "saved_context m (tk_rsp (sc_tasks (ts_sched s) ! i)) = task_context s i"
proof -
  note I = context_invD [OF inv]
  let ?q = "tk_rsp (sc_tasks (ts_sched s) ! i)"
  have c: "sc_current (ts_sched s) < length (sc_tasks (ts_sched s))" using I(1) by (simp add: sched_inv_def)
  have q: "frame ?q \<subseteq> task_stack boot (sc_tasks (ts_sched s) ! i)" using I(5) [OF i] by (simp add: frame_on_def)
  show ?thesis unfolding task_context_def
  proof (rule saved_context_agree)
    show "frame ?q \<subseteq> {..<2 ^ 64 - 1}" using q I(3) [OF i(1)] by blast
    show "m a = ts_mem s a" if "unat a \<in> frame ?q" for a using m q I(4) [OF i(1) c i(2)] that by blast
  qed
qed

lemma run_switch_frames:
  defines "r \<equiv> \<lambda>s. c_rsp (ts_cpu s) - 56"
  shows "run_switch ra sw s =
    s\<lparr>ts_sched := (ts_sched s)\<lparr>sc_tasks := (sc_tasks (ts_sched s))
        [sw_old sw := (sc_tasks (ts_sched s) ! sw_old sw)\<lparr>tk_rsp := r s\<rparr>]\<rparr>,
      ts_cpu := saved_context (save_frame (r s) ra (ts_cpu s) (ts_mem s)) (sw_new_rsp sw),
      ts_mem := save_frame (r s) ra (ts_cpu s) (ts_mem s)\<rparr>"
  using context_switch_frames [of "ts_cpu s" "r s"] by (simp add: run_switch_def r_def)

lemma nth_update_if: "j < length xs \<Longrightarrow> xs[i := v] ! j = (if i = j then v else xs ! j)"
  by (cases "i = j") simp_all

lemma sched_inv_rsp:
  assumes "sched_inv sc"
  shows "sched_inv (sc\<lparr>sc_tasks := (sc_tasks sc)[i := (sc_tasks sc ! i)\<lparr>tk_rsp := r\<rparr>]\<rparr>)"
  using assms by (intro sched_inv_update [OF assms]) (auto simp: sched_inv_def nth_update_if)

text \<open>
  One switch: the processor gets the context of the next task, the current one is saved under its
  return address, and every other suspended task keeps its context.
\<close>

definition switched :: "nat set \<Rightarrow> u64 \<Rightarrow> task_system \<Rightarrow> task_system \<Rightarrow> bool" where
  "switched boot ra s s' \<longleftrightarrow>
     (let c = sc_current (ts_sched s); n = sc_current (ts_sched s'); ts = sc_tasks (ts_sched s) in
       length (sc_tasks (ts_sched s')) = length ts \<and>
       (if n = c then ts_cpu s' = ts_cpu s
        else tk_state (ts ! n) \<noteq> Exited \<and> ts_cpu s' = task_context s n \<and>
          task_context s' c = (ts_cpu s)\<lparr>c_rip := ra\<rparr>) \<and>
       (\<forall>i < length ts. i \<noteq> c \<and> i \<noteq> n \<and> tk_state (ts ! i) \<noteq> Exited \<longrightarrow> task_context s' i = task_context s i))"

lemma switch_contexts:
  assumes inv: "context_inv boot s" and d: "dispatch now st (ts_sched s) = Some (sc', sw)" "st \<noteq> Running"
    and s': "s' = run_switch ra sw (s\<lparr>ts_sched := sc'\<rparr>)"
  shows "context_inv boot s'" "switched boot ra s s'" "sc_current (ts_sched s') \<noteq> sc_current (ts_sched s)"
proof -
  note I = context_invD [OF inv] and D = dispatch_cases [OF context_invD(1) [OF inv] d]
  let ?ts = "sc_tasks (ts_sched s)" and ?c = "sc_current (ts_sched s)" and ?n = "sc_current sc'"
  let ?r = "c_rsp (ts_cpu s) - 56" and ?m = "save_frame (c_rsp (ts_cpu s) - 56) ra (ts_cpu s) (ts_mem s)"
  have c: "?c < length ?ts" using I(1) by (simp add: sched_inv_def)
  have r: "frame_on (task_stack boot (?ts ! ?c)) ?r" by (rule I(6))
  then have rb: "frame ?r \<subseteq> {..<2 ^ 64 - 1}" using I(3) [OF c] by (auto simp: frame_on_def)
  have S: "sc_tasks (ts_sched s') = (sc_tasks sc')[?c := (sc_tasks sc' ! ?c)\<lparr>tk_rsp := ?r\<rparr>]"
    "sc_current (ts_sched s') = ?n" "ts_cpu s' = saved_context ?m (tk_rsp (?ts ! ?n))" "ts_mem s' = ?m"
    "ts_initialized s' = ts_initialized s"
    unfolding s' run_switch_frames by (simp_all add: D(6,7))
  have T: "sc_tasks (ts_sched s') ! i = (wake_task now (?ts ! i))\<lparr>tk_rsp := (if i = ?c then ?r else tk_rsp (?ts ! i)),
      tk_state := (if i = ?n then Running else if i = ?c then st else tk_state (wake_task now (?ts ! i)))\<rparr>"
    if "i < length ?ts" for i
    using D(2,8) that by (simp add: S(1) nth_list_update)
  have len: "length (sc_tasks (ts_sched s')) = length ?ts" by (simp add: S(1) D(2))
  have stk: "task_stack boot (sc_tasks (ts_sched s') ! i) = task_stack boot (?ts ! i)" if "i < length ?ts" for i
    by (simp add: T [OF that])
  have out: "?m a = ts_mem s a" if "unat a \<notin> task_stack boot (?ts ! ?c)" for a
    by (rule save_frame_outside [OF rb]) (use r that in \<open>auto simp: frame_on_def\<close>)
  have keep: "saved_context ?m (tk_rsp (?ts ! i)) = task_context s i"
    if "i < length ?ts" "i \<noteq> ?c" "tk_state (?ts ! i) \<noteq> Exited" for i
    by (rule other_contexts_stay [OF inv that out])
  have n: "?n < length ?ts" "?n \<noteq> ?c" "tk_state (?ts ! ?n) \<noteq> Exited" using D(4,5,9) by auto
  have cpu: "ts_cpu s' = task_context s ?n" using keep [OF n] S(3) by simp
  have inv': "sched_inv (ts_sched s')"
    using sched_inv_rsp [OF D(1), of ?c ?r] unfolding s' run_switch_frames by (simp add: D(6))
  show "sc_current (ts_sched s') \<noteq> ?c" using S(2) n(2) by simp
  show "switched boot ra s s'"
    using S(2) n len cpu keep saved_context_same [of "ts_cpu s" ?r ra "ts_mem s"] c
    by (simp add: switched_def Let_def task_context_def S(4) T)
  have run: "frame_on (task_stack boot (?ts ! ?n)) (c_rsp (ts_cpu s') - 56)"
    using I(5) [OF n] by (simp add: S(3) saved_context_def)
  have fr: "frame_on (task_stack boot (?ts ! i)) (tk_rsp (sc_tasks (ts_sched s') ! i))"
    if "i < length ?ts" "i \<noteq> ?n" "tk_state (sc_tasks (ts_sched s') ! i) \<noteq> Exited" for i
    using I(5) [OF that(1)] that r by (auto simp: T)
  show "context_inv boot s'"
    unfolding context_inv_def Let_def len S(2,5)
    using inv' I(2-4) run fr n(1) by (auto simp: stk)
qed

lemma stay_contexts:
  assumes inv: "context_inv boot s" and s': "s' = s\<lparr>ts_sched := stay now (ts_sched s)\<rparr>"
  shows "context_inv boot s'" "switched boot ra s s'"
proof -
  note I = context_invD [OF inv]
  let ?ts = "sc_tasks (ts_sched s)"
  have c: "sc_current (ts_sched s) < length ?ts" using I(1) by (simp add: sched_inv_def)
  have T: "sc_tasks (ts_sched s') ! i = (wake_task now (?ts ! i))\<lparr>tk_state :=
      (if i = sc_current (ts_sched s) then Running else tk_state (wake_task now (?ts ! i)))\<rparr>"
    if "i < length ?ts" for i
    using that by (simp add: s' stay_def nth_update_if)
  have S: "length (sc_tasks (ts_sched s')) = length ?ts" "sc_current (ts_sched s') = sc_current (ts_sched s)"
    "ts_cpu s' = ts_cpu s" "ts_mem s' = ts_mem s" "ts_initialized s' = ts_initialized s"
    by (simp_all add: s' stay_def)
  have si: "sched_inv (ts_sched s')" using stay_inv [OF I(1)] by (simp add: s')
  show "switched boot ra s s'" by (simp add: switched_def Let_def S task_context_def T)
  show "context_inv boot s'"
    unfolding context_inv_def Let_def S using I(2-6) c si by (simp add: T)
qed

text \<open>Every call that returns either kept the running task or switched.\<close>

definition handed_over :: "u64 \<Rightarrow> task_system \<Rightarrow> task_system \<Rightarrow> bool" where
  "handed_over ra s s' \<longleftrightarrow>
     (\<exists>now. s' = s\<lparr>ts_sched := stay now (ts_sched s)\<rparr>) \<or>
     (\<exists>now st sc sw. st \<noteq> Running \<and> dispatch now st (ts_sched s) = Some (sc, sw) \<and>
        s' = run_switch ra sw (s\<lparr>ts_sched := sc\<rparr>))"

lemma handed_over_stay: "handed_over ra s (s\<lparr>ts_sched := stay now (ts_sched s)\<rparr>)"
  unfolding handed_over_def by blast

lemma handed_over_switch:
  assumes "dispatch now st (ts_sched s) = Some r" and "st \<noteq> Running"
  shows "handed_over ra s (run_switch ra (snd r) (s\<lparr>ts_sched := fst r\<rparr>))"
  unfolding handed_over_def
  by (intro disjI2 exI [of _ now] exI [of _ st] exI [of _ "fst r"] exI [of _ "snd r"] conjI) (use assms in simp_all)

lemma yield_hands_over:
  assumes "sched_inv (ts_sched s)" and "ts_initialized s" and "yield_now ra now s = Inr s'"
  shows "handed_over ra s s'"
proof (cases "dispatch now Ready (ts_sched s)")
  case None
  then have "s' = s\<lparr>ts_sched := stay now (ts_sched s)\<rparr>"
    using assms by (simp add: yield_now_def sched_blocks)
  then show ?thesis by (simp only: handed_over_stay)
next
  case (Some r)
  then have "s' = run_switch ra (snd r) (s\<lparr>ts_sched := fst r\<rparr>)"
    using assms by (cases r) (simp add: yield_now_def sched_blocks)
  then show ?thesis using handed_over_switch [OF Some] by simp
qed

lemma sleep_hands_over:
  assumes "sched_inv (ts_sched s)" and "ts_initialized s" and "sleep_ticks ra now now' ticks s = Inr (s', w)"
  shows "handed_over ra s s'"
proof (cases "ticks = 0")
  case True
  then have "yield_now ra now s = Inr s'" using assms(3) by (auto simp: sleep_ticks_def result_simps)
  then show ?thesis by (rule yield_hands_over [OF assms(1,2)])
next
  case False
  let ?st = "Sleeping (saturating_add now ticks)"
  show ?thesis
  proof (cases "dispatch now' ?st (ts_sched s)")
    case None
    then have "s' = s\<lparr>ts_sched := stay now' (ts_sched s)\<rparr>"
      using assms False by (simp add: sleep_ticks_def sched_blocks)
    then show ?thesis by (simp only: handed_over_stay)
  next
    case (Some r)
    then have "s' = run_switch ra (snd r) (s\<lparr>ts_sched := fst r\<rparr>)"
      using assms False by (cases r) (simp add: sleep_ticks_def sched_blocks)
    then show ?thesis using handed_over_switch [OF Some] by simp
  qed
qed

lemma exit_hands_over:
  assumes "sched_inv (ts_sched s)" and "exit_current ra now s = Inr s'"
  shows "handed_over ra s s'"
proof (cases "dispatch now Exited (ts_sched s)")
  case None
  then show ?thesis using assms by (simp add: exit_current_def sched_blocks)
next
  case (Some r)
  then have "s' = run_switch ra (snd r) (s\<lparr>ts_sched := fst r\<rparr>)"
    using assms by (cases r) (simp add: exit_current_def sched_blocks)
  then show ?thesis using handed_over_switch [OF Some] by simp
qed

lemmas calls_hand_over = yield_hands_over sleep_hands_over

text \<open>
  C10: Cooperative multitasking is transparent to the tasks. When the running task yields, sleeps or exits,
  and another task is chosen, the processor continues exactly in the context, registers, stack and
  return address, in which that task was suspended; the caller's context is saved so that it will
  return from the call; every other suspended task keeps its context, and so it does while the
  running task works on its own stack. All stacks stay apart and all frames on their stacks.
\<close>

theorem context_switch_correct:
  assumes inv: "context_inv boot s"
    and call: "yield_now ra now s = Inr s' \<or> (\<exists>w. sleep_ticks ra now now' ticks s = Inr (s', w)) \<or>
      exit_current ra now s = Inr s'"
  shows "context_inv boot s' \<and> switched boot ra s s' \<and>
    (\<forall>m i. i < length (sc_tasks (ts_sched s)) \<and> i \<noteq> sc_current (ts_sched s) \<and>
       tk_state (sc_tasks (ts_sched s) ! i) \<noteq> Exited \<and>
       (\<forall>a. unat a \<notin> task_stack boot (sc_tasks (ts_sched s) ! sc_current (ts_sched s)) \<longrightarrow> m a = ts_mem s a) \<longrightarrow>
       task_context (s\<lparr>ts_mem := m\<rparr>) i = task_context s i)"
proof -
  note sinv = context_invD(1) [OF inv] and init = context_invD(2) [OF inv]
  have "handed_over ra s s'"
    using call by (elim disjE exE) (erule calls_hand_over [OF sinv init] exit_hands_over [OF sinv])+
  then have "context_inv boot s' \<and> switched boot ra s s'"
    unfolding handed_over_def
    by (elim disjE exE conjE; intro conjI)
      (erule stay_contexts [OF inv] switch_contexts(1,2) [OF inv]; assumption)+
  moreover have "task_context (s\<lparr>ts_mem := m\<rparr>) i = task_context s i"
    if "i < length (sc_tasks (ts_sched s))" "i \<noteq> sc_current (ts_sched s)"
      "tk_state (sc_tasks (ts_sched s) ! i) \<noteq> Exited"
      "\<forall>a. unat a \<notin> task_stack boot (sc_tasks (ts_sched s) ! sc_current (ts_sched s)) \<longrightarrow> m a = ts_mem s a" for m i
    using other_contexts_stay [OF inv that(1-3), of m] that(4) by (simp add: task_context_def)
  ultimately show ?thesis by blast
qed

section \<open>New tasks\<close>

lemma boot_context:
  assumes "frame_on boot (c_rsp (ts_cpu s) - 56)" and "boot \<subseteq> {..<2 ^ 64 - 1}"
  shows "context_inv boot (s\<lparr>ts_sched := \<lparr>sc_tasks = [boot_task], sc_current = 0, sc_next_id = 1,
      sc_context_switches = 0\<rparr>, ts_initialized := True\<rparr>)"
  using assms by (simp add: context_inv_def sched_inv_def boot_task_def task_stack_def)

definition fresh_context :: "u64 \<Rightarrow> u64 \<Rightarrow> cpu" where
  "fresh_context trampoline base = \<lparr>c_rbp = 0, c_rbx = 0, c_r12 = 0, c_r13 = 0, c_r14 = 0, c_r15 = 0,
     c_rsp = base + of_nat STACK_BYTES - 8, c_rip = trampoline\<rparr>"

lemma fresh_frame:
  assumes b: "unat base + STACK_BYTES < 2 ^ 64" and "16 dvd unat base"
    and r: "prepare_stack tr base (zero_stack base m) = (r, m')"
  shows "frame_on {unat base..<unat base + STACK_BYTES} r" "saved_context m' r = fresh_context tr base"
    "\<And>a. unat a \<notin> {unat base..<unat base + STACK_BYTES} \<Longrightarrow> m' a = m a"
    "unat (c_rsp (fresh_context tr base)) mod 16 = 8"
proof -
  have r': "r = base + 32704" and m': "m' = (zero_stack base m)(base + 32752 := tr)"
    using r by (auto simp: prepare_stack_def STACK_BYTES_def add.commute)
  have off: "unat (base + k) = unat base + unat k" if "unat k < 32768" for k
    using b that by (intro unat_add_small) (simp add: STACK_BYTES_def)
  have z: "zero_stack base m (base + k) = 0" if "unat k < 32768" for k
    using off [OF that] that by (simp add: zero_stack_def STACK_BYTES_def)
  show "frame_on {unat base..<unat base + STACK_BYTES} r"
    using off [of 32704] assms(2) by (auto simp: frame_on_def frame_def r' STACK_BYTES_def elim: dvd_trans [rotated])
  show "saved_context m' r = fresh_context tr base"
    by (simp add: saved_context_def fresh_context_def r' m' z STACK_BYTES_def add.assoc)
  show "m' a = m a" if "unat a \<notin> {unat base..<unat base + STACK_BYTES}" for a
    using that off [of 32752] by (auto simp: m' zero_stack_def STACK_BYTES_def)
  show "unat (c_rsp (fresh_context tr base)) mod 16 = 8"
  proof -
    have "c_rsp (fresh_context tr base) = base + 32760"
      by (simp add: fresh_context_def STACK_BYTES_def add.commute)
    then have "unat (c_rsp (fresh_context tr base)) = unat base + 32760" using off [of 32760] by simp
    then show ?thesis using assms(2) by presburger
  qed
qed

lemma unat_max_u64: "unat (- 1 :: u64) = 2 ^ 64 - 1"
  by (simp add: unsigned_minus_1_eq_mask mask_eq_exp_minus_1)

lemma sched_inv_append:
  assumes inv: "sched_inv sc" and t: "tk_id t = sc_next_id sc" "tk_state t \<noteq> Running" "sc_next_id sc < nid"
  shows "sched_inv (sc\<lparr>sc_next_id := nid, sc_tasks := sc_tasks sc @ [t]\<rparr>)"
proof -
  have "\<forall>u\<in>set (sc_tasks sc). tk_id u < nid" using inv t(3) by (auto simp: sched_inv_def intro: less_trans)
  then show ?thesis using inv t by (auto simp: sched_inv_def sorted_wrt_append nth_append less_Suc_eq)
qed

lemma next_id_succ:
  assumes "(w :: u64) \<noteq> - 1"
  shows "checked_add w 1 = Some (w + 1)" "w < w + 1"
proof -
  have "unat w \<noteq> 2 ^ 64 - 1" using assms unat_max_u64 by (metis unsigned_word_eqI)
  then have "unat w + 1 < 2 ^ 64" using unat_below [of w] by simp
  then have u: "unat (w + 1) = unat w + 1" using unat_add_small [of w 1] by simp
  then show "checked_add w 1 = Some (w + 1)" by (simp add: checked_add_eq_Some)
  show "w < w + 1" using u by (simp add: word_less_nat_alt)
qed

lemma spawn_context:
  assumes inv: "context_inv boot s"
    and base: "unat base + STACK_BYTES < 2 ^ 64" "16 dvd unat base"
    and fresh: "\<forall>t\<in>set (sc_tasks (ts_sched s)). task_stack boot t \<inter> {unat base..<unat base + STACK_BYTES} = {}"
    and ident: "sc_next_id (ts_sched s) \<noteq> - 1"
  shows "\<exists>s'. spawn tr base name entry s = (s', Some (sc_next_id (ts_sched s))) \<and> context_inv boot s' \<and>
    sc_current (ts_sched s') = sc_current (ts_sched s) \<and>
    (let ts = sc_tasks (ts_sched s); ts' = sc_tasks (ts_sched s'); n = length ts in
      length ts' = Suc n \<and> tk_state (ts' ! n) = Ready \<and> tk_entry (ts' ! n) = Some entry \<and>
      task_context s' n = fresh_context tr base \<and> unat (c_rsp (fresh_context tr base)) mod 16 = 8 \<and>
      (\<forall>i < n. ts' ! i = ts ! i \<and>
         (i \<noteq> sc_current (ts_sched s) \<and> tk_state (ts ! i) \<noteq> Exited \<longrightarrow> task_context s' i = task_context s i)))"
proof -
  note I = context_invD [OF inv]
  let ?ts = "sc_tasks (ts_sched s)" and ?new = "{unat base..<unat base + STACK_BYTES}"
  let ?n = "length (sc_tasks (ts_sched s))"
  obtain r m where r: "prepare_stack tr base (zero_stack base (ts_mem s)) = (r, m)" by fastforce
  note F = fresh_frame [OF base r]
  note add = next_id_succ [OF ident]
  let ?t = "\<lparr>tk_id = sc_next_id (ts_sched s), tk_name = name, tk_state = Ready, tk_rsp = r,
    tk_stack = Some base, tk_entry = Some entry\<rparr>"
  let ?s' = "s\<lparr>ts_mem := m, ts_sched := (ts_sched s)\<lparr>sc_next_id := sc_next_id (ts_sched s) + 1,
    sc_tasks := ?ts @ [?t]\<rparr>\<rparr>"
  have sp: "spawn tr base name entry s = (?s', Some (sc_next_id (ts_sched s)))"
    using I(2) by (simp add: spawn_def r add(1) Let_def)
  have c: "sc_current (ts_sched s) < ?n" using I(1) by (simp add: sched_inv_def)
  have stk: "task_stack boot ?t = ?new" by (simp add: task_stack_def)
  have apart: "task_stack boot (?ts ! i) \<inter> ?new = {}" if "i < ?n" for i using fresh that by simp
  have "sched_inv (ts_sched ?s')" using sched_inv_append [OF I(1), of ?t] add(2) by simp
  moreover have "?new \<subseteq> {..<2 ^ 64 - 1}" using base(1) by auto
  ultimately have inv': "context_inv boot ?s'"
    using I(2-6) c apart F(1)
    by (simp add: context_inv_def Let_def All_less_Suc nth_append stk Int_commute)
  have "task_context ?s' i = task_context s i"
    if "i < ?n" "i \<noteq> sc_current (ts_sched s)" "tk_state (?ts ! i) \<noteq> Exited" for i
  proof -
    have q: "frame (tk_rsp (?ts ! i)) \<subseteq> task_stack boot (?ts ! i)" using I(5) [OF that] by (simp add: frame_on_def)
    have "saved_context m (tk_rsp (?ts ! i)) = saved_context (ts_mem s) (tk_rsp (?ts ! i))"
      by (rule saved_context_agree) (use q I(3) [OF that(1)] apart [OF that(1)] F(3) in blast)+
    then show ?thesis using that(1) by (simp add: task_context_def nth_append)
  qed
  then show ?thesis using sp inv' F(2,4)
    by (intro exI [of _ ?s']) (simp add: Let_def task_context_def nth_append)
qed

text \<open>
  C14: Spawning a task: with a fresh aligned stack from the heap the call succeeds while identifiers last.
  The new task is ready, with the next identifier, and its context is that of a function entry: it starts
  in the trampoline with cleared registers and a stack pointer of 8 modulo 16 inside its own
  stack. The other tasks and their contexts are untouched.
\<close>

theorem spawn_correct:
  assumes inv: "context_inv boot s"
    and base: "unat base + STACK_BYTES < 2 ^ 64" "16 dvd unat base"
    and fresh: "\<forall>t\<in>set (sc_tasks (ts_sched s)). task_stack boot t \<inter> {unat base..<unat base + STACK_BYTES} = {}"
    and ident: "sc_next_id (ts_sched s) \<noteq> - 1"
  shows "\<exists>s'. spawn tr base name entry s = (s', Some (sc_next_id (ts_sched s))) \<and> context_inv boot s' \<and>
    (let ts = sc_tasks (ts_sched s); ts' = sc_tasks (ts_sched s'); n = length ts in
      length ts' = Suc n \<and> tk_state (ts' ! n) = Ready \<and> tk_entry (ts' ! n) = Some entry \<and>
      task_context s' n = fresh_context tr base \<and> unat (c_rsp (fresh_context tr base)) mod 16 = 8 \<and>
      (\<forall>i < n. ts' ! i = ts ! i \<and>
         (i \<noteq> sc_current (ts_sched s) \<and> tk_state (ts ! i) \<noteq> Exited \<longrightarrow> task_context s' i = task_context s i)))"
  using spawn_context [OF assms] by blast

text \<open>A small system: the boot task on a stack below \<open>0x9000\<close>, and the worker.\<close>

definition example_boot :: "nat set" where "example_boot = {0x1000..<0x9000}"

definition example_system :: task_system where
  "example_system = \<lparr>ts_sched = \<lparr>sc_tasks = [boot_task], sc_current = 0, sc_next_id = 1, sc_context_switches = 0\<rparr>,
     ts_initialized = True, ts_reschedule = False, ts_heartbeat = 0,
     ts_cpu = \<lparr>c_rbp = 1, c_rbx = 2, c_r12 = 3, c_r13 = 4, c_r14 = 5, c_r15 = 6, c_rsp = 0x8000, c_rip = 0x100\<rparr>,
     ts_mem = (\<lambda>_. 0)\<rparr>"

lemma example_context: "context_inv example_boot example_system"
proof -
  have "frame_on example_boot (c_rsp (ts_cpu example_system) - 56)" "example_boot \<subseteq> {..<2 ^ 64 - 1}"
    by (auto simp: example_system_def example_boot_def frame_on_def frame_def)
  from boot_context [OF this] show ?thesis by (simp add: example_system_def)
qed

lemma example_fresh:
  "\<forall>t\<in>set (sc_tasks (ts_sched example_system)).
     task_stack example_boot t \<inter> {unat (0x10000 :: u64)..<unat (0x10000 :: u64) + STACK_BYTES} = {}"
  by (auto simp: example_system_def boot_task_def task_stack_def example_boot_def)

theorem spawn_correct_witness:
  "\<exists>s'. spawn 0x200 0x10000 ''kworker/0'' 0x300 example_system = (s', Some 1) \<and> context_inv example_boot s' \<and>
     task_context s' 1 = fresh_context 0x200 0x10000"
proof -
  have "unat (0x10000 :: u64) + STACK_BYTES < 2 ^ 64" "16 dvd unat (0x10000 :: u64)"
    "sc_next_id (ts_sched example_system) \<noteq> - 1" "sc_next_id (ts_sched example_system) = 1"
    "length (sc_tasks (ts_sched example_system)) = 1"
    by (simp_all add: STACK_BYTES_def example_system_def)
  with spawn_correct [OF example_context this(1,2) example_fresh this(3),
      where tr = "0x200" and name = "''kworker/0''" and entry = "0x300"]
  show ?thesis unfolding Let_def by auto
qed

section \<open>Reachable systems\<close>

text \<open>
  Everything that can happen to the scheduler: initialisation, new tasks, the three calls, ticks of
  the timer, checkpoints, and tasks computing.
\<close>

inductive task_reach :: "task_system \<Rightarrow> bool" where
  start: "tasks_init tr base worker s = Inr s' \<Longrightarrow> task_reach s'"
| more: "task_reach s \<Longrightarrow> spawn tr base name entry s = (s', r) \<Longrightarrow> task_reach s'"
| yields: "task_reach s \<Longrightarrow> yield_now ra now s = Inr s' \<Longrightarrow> task_reach s'"
| sleeps: "task_reach s \<Longrightarrow> sleep_ticks ra now now' ticks s = Inr (s', w) \<Longrightarrow> task_reach s'"
| exits: "task_reach s \<Longrightarrow> exit_current ra now s = Inr s' \<Longrightarrow> task_reach s'"
| ticks: "task_reach s \<Longrightarrow> task_reach (on_timer_tick tick s)"
| check: "task_reach s \<Longrightarrow> checkpoint ra now s = Inr s' \<Longrightarrow> task_reach s'"
| works: "task_reach s \<Longrightarrow> task_reach (s\<lparr>ts_cpu := c, ts_mem := m, ts_heartbeat := h\<rparr>)"

lemma handed_over_inv:
  assumes "handed_over ra s s'" and "sched_inv (ts_sched s)"
  shows "sched_inv (ts_sched s') \<and> ts_initialized s' = ts_initialized s"
  using assms(1) unfolding handed_over_def
proof (elim disjE exE conjE)
  fix now assume "s' = s\<lparr>ts_sched := stay now (ts_sched s)\<rparr>"
  then show ?thesis using stay_inv [OF assms(2)] by simp
next
  fix now st sc sw
  assume d: "st \<noteq> Running" "dispatch now st (ts_sched s) = Some (sc, sw)" "s' = run_switch ra sw (s\<lparr>ts_sched := sc\<rparr>)"
  show ?thesis
    using sched_inv_rsp [OF dispatch_cases(1) [OF assms(2) d(2,1)], of "sw_old sw"] by (simp add: d(3) run_switch_frames)
qed

lemma spawn_inv:
  assumes "sched_inv (ts_sched s)" and "ts_initialized s" and "spawn tr base name entry s = (s', r)"
  shows "sched_inv (ts_sched s') \<and> ts_initialized s'"
proof (cases "sc_next_id (ts_sched s) = - 1")
  case True
  then have "checked_add (sc_next_id (ts_sched s)) 1 = None" by (simp add: checked_add_eq_None unat_max_u64)
  then show ?thesis using assms by (auto simp: spawn_def prepare_stack_def Let_def)
next
  case False
  note add = next_id_succ [OF False]
  show ?thesis using assms add sched_inv_append [OF assms(1) _ _ add(2)]
    by (auto simp: spawn_def prepare_stack_def Let_def)
qed

lemma count_tasks:
  "fold count_task ts st = st\<lparr>st_running := st_running st + length (filter (\<lambda>t. tk_state t = Running) ts),
     st_ready := st_ready st + length (filter (\<lambda>t. tk_state t = Ready) ts),
     st_sleeping := st_sleeping st + length (filter (\<lambda>t. \<exists>u. tk_state t = Sleeping u) ts),
     st_exited := st_exited st + length (filter (\<lambda>t. tk_state t = Exited) ts)\<rparr>"
  by (induction ts arbitrary: st) (auto split: internal_state.splits)

lemma only_current_runs:
  assumes "sched_inv sc"
  shows "length (filter (\<lambda>t. tk_state t = Running) (sc_tasks sc)) = 1"
proof -
  have "{i. i < length (sc_tasks sc) \<and> tk_state (sc_tasks sc ! i) = Running} = {sc_current sc}"
    using assms by (auto simp: sched_inv_def)
  then show ?thesis by (simp add: length_filter_conv_card)
qed

lemma states_partition:
  "length ts = length (filter (\<lambda>t. tk_state t = Running) ts) + length (filter (\<lambda>t. tk_state t = Ready) ts) +
     length (filter (\<lambda>t. \<exists>u. tk_state t = Sleeping u) ts) + length (filter (\<lambda>t. tk_state t = Exited) ts)"
proof (induction ts)
  case (Cons t ts)
  then show ?case by (cases "tk_state t") simp_all
qed simp

lemma task_reach_inv:
  assumes "task_reach s"
  shows "sched_inv (ts_sched s) \<and> ts_initialized s"
  using assms
proof (induction rule: task_reach.induct)
  case (start tr base worker s s')
  let ?s = "s\<lparr>ts_sched := \<lparr>sc_tasks = [boot_task], sc_current = 0, sc_next_id = 1, sc_context_switches = 0\<rparr>,
    ts_initialized := True\<rparr>"
  obtain r where "spawn tr base ''kworker/0'' worker ?s = (s', r)"
    using start by (auto simp: tasks_init_def Let_def split: if_splits prod.splits option.splits)
  then show ?case using spawn_inv [of ?s] by (simp add: sched_inv_def boot_task_def)
next
  case (more s tr base name entry s' r)
  then show ?case using spawn_inv by blast
next
  case (yields s ra now s')
  then show ?case using yield_hands_over handed_over_inv by blast
next
  case (sleeps s ra now now' ticks s' w)
  then show ?case using sleep_hands_over handed_over_inv by blast
next
  case (exits s ra now s')
  then show ?case using exit_hands_over handed_over_inv by blast
next
  case (ticks s tick)
  then show ?case by (simp add: on_timer_tick_def)
next
  case (check s ra now s')
  then show ?case using yield_hands_over [of "s\<lparr>ts_reschedule := False\<rparr>"] handed_over_inv [of ra "s\<lparr>ts_reschedule := False\<rparr>"]
    by (auto simp: checkpoint_def split: if_splits)
qed simp

lemma yield_returns: "sched_inv (ts_sched s) \<Longrightarrow> ts_initialized s \<Longrightarrow> \<exists>s'. yield_now ra now s = Inr s'"
  by (simp add: yield_now_def sched_blocks split: option.split prod.split)

text \<open>
  C12: In every reachable system exactly one task is running, and it is the current one; identifiers
  are unique and increase in the order of creation. Hence a call never finds the scheduler in a state
  where an index panics: yielding and sleeping always return, and exiting can only fail because
  no other task is ready. The counts that \<open>stats\<close> reports add up.
\<close>

theorem scheduler_invariant:
  assumes "task_reach s"
  shows "sched_inv (ts_sched s) \<and>
    st_running (task_stats s) = 1 \<and>
    st_total (task_stats s) = st_running (task_stats s) + st_ready (task_stats s) +
      st_sleeping (task_stats s) + st_exited (task_stats s) \<and>
    (\<exists>s'. yield_now ra now s = Inr s') \<and> (\<exists>s' w. sleep_ticks ra now now' ticks s = Inr (s', w)) \<and>
    ((\<exists>s'. exit_current ra now s = Inr s') \<or>
     (exit_current ra now s = Inl NoSuccessor \<and>
      (\<forall>i < length (sc_tasks (ts_sched s)). i \<noteq> sc_current (ts_sched s) \<longrightarrow>
         tk_state (wake_task now (sc_tasks (ts_sched s) ! i)) \<noteq> Ready)))"
proof -
  have inv: "sched_inv (ts_sched s)" "ts_initialized s" using task_reach_inv [OF assms] by simp_all
  note B = sched_blocks [OF inv(1)]
  have st: "st_running (task_stats s) = 1" "st_total (task_stats s) = st_running (task_stats s) +
      st_ready (task_stats s) + st_sleeping (task_stats s) + st_exited (task_stats s)"
    using inv only_current_runs states_partition [of "sc_tasks (ts_sched s)"]
    by (simp_all add: task_stats_def count_tasks stats_default_def)
  have y: "\<exists>s'. yield_now ra now s = Inr s'" by (rule yield_returns [OF inv])
  moreover have "\<exists>s' w. sleep_ticks ra now now' ticks s = Inr (s', w)"
    using inv(2) y by (auto simp: sleep_ticks_def B Let_def split: option.split prod.split)
  moreover have "(\<exists>s'. exit_current ra now s = Inr s') \<or> (exit_current ra now s = Inl NoSuccessor \<and>
      (\<forall>i < length (sc_tasks (ts_sched s)). i \<noteq> sc_current (ts_sched s) \<longrightarrow>
         tk_state (wake_task now (sc_tasks (ts_sched s) ! i)) \<noteq> Ready))"
    using dispatch_None [OF inv(1)] by (cases "dispatch now Exited (ts_sched s)") (auto simp: exit_current_def B)
  ultimately show ?thesis using inv(1) st by blast
qed

lemma example_reach: "\<exists>s. tasks_init 0x200 0x10000 0x300 (example_system\<lparr>ts_sched := scheduler_new\<rparr>) = Inr s"
  by (simp add: tasks_init_def spawn_def example_system_def scheduler_new_def prepare_stack_def checked_add_def)

theorem scheduler_invariant_witness:
  "\<exists>s. task_reach s \<and> sched_inv (ts_sched s) \<and> st_running (task_stats s) = 1 \<and>
     (\<exists>s'. yield_now 0x500 7 s = Inr s')"
proof -
  obtain s where "task_reach s" using example_reach task_reach.start by blast
  then show ?thesis using scheduler_invariant by blast
qed

theorem context_switch_correct_witness:
  "\<exists>s s'. context_inv example_boot s \<and> yield_now 0x500 7 s = Inr s' \<and> context_inv example_boot s' \<and>
     switched example_boot 0x500 s s'"
proof -
  have b: "unat (0x10000 :: u64) + STACK_BYTES < 2 ^ 64" "16 dvd unat (0x10000 :: u64)"
    "sc_next_id (ts_sched example_system) \<noteq> - 1"
    by (simp_all add: STACK_BYTES_def example_system_def)
  obtain s where s: "context_inv example_boot s"
    using spawn_context [OF example_context b(1,2) example_fresh b(3)] by blast
  obtain s' where "yield_now 0x500 7 s = Inr s'" using yield_returns context_invD(1,2) [OF s] by blast
  then show ?thesis using s context_switch_correct [OF s] by blast
qed

definition example_task :: "u64 \<Rightarrow> internal_state \<Rightarrow> task" where
  "example_task n st = \<lparr>tk_id = n, tk_name = ''t'', tk_state = st, tk_rsp = 0, tk_stack = None, tk_entry = None\<rparr>"

definition example_sched :: "internal_state \<Rightarrow> internal_state \<Rightarrow> scheduler" where
  "example_sched st1 st2 = \<lparr>sc_tasks = [boot_task, example_task 1 st1, example_task 2 st2], sc_current = 0,
     sc_next_id = 3, sc_context_switches = 0\<rparr>"

lemma example_sched_inv: "st1 \<noteq> Running \<Longrightarrow> st2 \<noteq> Running \<Longrightarrow> sched_inv (example_sched st1 st2)"
  by (auto simp: sched_inv_def example_sched_def example_task_def boot_task_def less_Suc_eq)

theorem round_robin_live_witness:
  "\<exists>k \<le> 2. \<exists>sc'. sched_run (example_sched Ready Ready) (take k [Yield 1, Sleep 2 9]) = Inr sc' \<and> sc_current sc' = 2"
  using round_robin_live [OF example_sched_inv, of Ready Ready 2 "[Yield 1, Sleep 2 9]"]
  by (simp add: example_sched_def example_task_def ring_dist_def)

theorem dormant_tasks_stay_witness:
  "\<exists>sc'. sched_run (example_sched (Sleeping 50) Ready) [Yield 7, Exit 8] = Inr sc' \<and> sc_current sc' \<noteq> 1 \<and>
     tk_state (sc_tasks sc' ! 1) = Sleeping 50"
proof -
  let ?sc = "example_sched (Sleeping 50) Ready"
  obtain sc' where "sched_run ?sc [Yield 7, Exit 8] = Inr sc'"
    by (simp add: example_sched_def example_task_def boot_task_def sched_yield_def sched_exit_def wake_sleepers_def
        wake_task_def set_state_def next_ready_def enter_task_def saturating_add_def checked_add_def upt_rec Let_def)
  then show ?thesis
    using dormant_tasks_stay [OF example_sched_inv, of "Sleeping 50" Ready "[Yield 7, Exit 8]" sc' 1 "Sleeping 50"]
    by (simp add: example_sched_def example_task_def)
qed

end
