(* ===== verification/Initramfs.thy ===== *)
theory Initramfs
  imports Kernel_Vfs Generic_Fs_Tree "HOL-Library.Multiset"
begin

text \<open>
  The initial file archive: \<open>kernel/build.rs\<close> packs a directory of the host and the generated programs,
  \<open>kernel/src/initramfs.rs\<close> unpacks the archive into the kernel's tree. Offsets are at most the length
  of the archive plus \<open>2\<^sup>3\<^sup>2\<close>, so that they cannot overflow a \<open>usize\<close>.
\<close>

section \<open>Packing\<close>

text \<open>A record of the archive; a path or a file that is too long panics.\<close>

definition append_record :: "byte list \<Rightarrow> byte \<Rightarrow> string \<Rightarrow> byte list \<Rightarrow> byte list option" where
  "append_record archive kind path data =
     (if length path < 2 ^ 16 \<and> length data < 2 ^ 32
      then Some (archive @ [kind] @ le_bytes 2 (length path) @ le_bytes 4 (length data) @
        bytes_of_str path @ data)
      else None)"

text \<open>What the host has at a path: a file, a directory in some order, or something else.\<close>

datatype host_node = HostFile "byte list" | HostDir "(string \<times> host_node) list" | HostOther

definition slashes :: "string \<Rightarrow> string" where
  "slashes = map (\<lambda>c. if c = CHR 0x5C then CHR ''/'' else c)"

fun node_size :: "host_node \<Rightarrow> nat" where
  "node_size (HostDir es) = 2 + sum_list (map (\<lambda>e. Suc (node_size (snd e))) es)"
| "node_size _ = 0"

definition entries_size :: "(string \<times> host_node) list \<Rightarrow> nat" where
  "entries_size es = sum_list (map (\<lambda>e. Suc (node_size (snd e))) es)"

lemma entries_size_sort [simp]: "entries_size (sort_key fst es) = entries_size es"
proof -
  have "mset (map (\<lambda>e. Suc (node_size (snd e))) (sort_key fst es)) = mset (map (\<lambda>e. Suc (node_size (snd e))) es)"
    by (simp only: mset_map mset_sort)
  then show ?thesis unfolding entries_size_def by (metis sum_mset_sum_list)
qed

lemma entries_size_simps [simp]:
  "entries_size [] = 0" "entries_size (e # es) = Suc (node_size (snd e)) + entries_size es"
  by (simp_all add: entries_size_def)

function append_directory :: "string \<Rightarrow> (string \<times> host_node) list \<Rightarrow> byte list \<Rightarrow> byte list option"
  and append_entries :: "string \<Rightarrow> (string \<times> host_node) list \<Rightarrow> byte list \<Rightarrow> byte list option" where
  "append_directory dir entries archive = append_entries dir (sort_key fst entries) archive"
| "append_entries dir [] archive = Some archive"
| "append_entries dir ((name, HostDir es) # entries) archive =
     (case append_record archive 2 (slashes (dir @ name)) [] of
        None \<Rightarrow> None
      | Some archive \<Rightarrow>
          (case append_directory (dir @ name @ ''/'') es archive of
             None \<Rightarrow> None
           | Some archive \<Rightarrow> append_entries dir entries archive))"
| "append_entries dir ((name, HostFile data) # entries) archive =
     (case append_record archive 1 (slashes (dir @ name)) data of
        None \<Rightarrow> None
      | Some archive \<Rightarrow> append_entries dir entries archive)"
| "append_entries dir ((name, HostOther) # entries) archive = append_entries dir entries archive"
  by pat_completeness auto
termination
  by (relation "measure (case_sum (\<lambda>(p, es, a). Suc (entries_size es)) (\<lambda>(p, es, a). entries_size es))")
    (auto simp: entries_size_def [symmetric])

definition GIR_MAGIC :: "byte list" where "GIR_MAGIC = [0x47, 0x49, 0x52, 0x31]"

definition append_program :: "string \<Rightarrow> byte list option \<Rightarrow> byte list \<Rightarrow> byte list option" where
  "append_program path program archive =
     (case program of None \<Rightarrow> Some archive | Some data \<Rightarrow> append_record archive 1 path data)"

definition build_initramfs ::
  "(string \<times> host_node) list option \<Rightarrow> byte list option \<Rightarrow> byte list option \<Rightarrow> byte list option" where
  "build_initramfs root user_init user_gui =
     Option.bind (case root of None \<Rightarrow> Some GIR_MAGIC | Some es \<Rightarrow> append_directory [] es GIR_MAGIC) (\<lambda>archive.
     Option.bind (append_program ''bin/init'' user_init archive) (\<lambda>archive.
     Option.bind (append_program ''bin/generic-gui'' user_gui archive) (\<lambda>archive.
     Some (archive @ [0]))))"

section \<open>Unpacking\<close>

definition gir_get :: "byte list \<Rightarrow> nat \<Rightarrow> nat \<Rightarrow> byte list option" where
  "gir_get archive s e = (if s \<le> e \<and> e \<le> length archive then Some (take (e - s) (drop s archive)) else None)"

definition gir_read_u16 :: "byte list \<Rightarrow> nat \<Rightarrow> vfs_error + nat" where
  "gir_read_u16 archive offset =
     rbind (ok_or (gir_get archive offset (offset + 2)) CorruptFilesystem) (\<lambda>bytes. Inr (le_nat bytes))"

definition gir_read_u32 :: "byte list \<Rightarrow> nat \<Rightarrow> vfs_error + nat" where
  "gir_read_u32 archive offset =
     rbind (ok_or (gir_get archive offset (offset + 4)) CorruptFilesystem) (\<lambda>bytes. Inr (le_nat bytes))"

text \<open>The head of a record: the path, the length of the data, and where the data starts.\<close>

definition gir_header :: "byte list \<Rightarrow> nat \<Rightarrow> vfs_error + string \<times> nat \<times> nat" where
  "gir_header archive offset =
     rbind (gir_read_u16 archive offset) (\<lambda>path_len. let offset = offset + 2 in
     rbind (gir_read_u32 archive offset) (\<lambda>data_len. let offset = offset + 4 in
     rbind (ok_or (gir_get archive offset (offset + path_len)) CorruptFilesystem) (\<lambda>path_bytes.
     if from_utf8 path_bytes = None then Inl CorruptFilesystem
     else Inr (''/'' @ str_of_bytes path_bytes, data_len, offset + path_len))))"

definition install_file ::
  "'d block_ops \<Rightarrow> string \<Rightarrow> byte list \<Rightarrow> 'd kernel_vfs \<Rightarrow> 'd kernel_vfs \<times> (vfs_error + unit)" where
  "install_file bd path data =
     sbind (\<lambda>v. case vfs_metadata (any_ops bd) v path of
         Inr m \<Rightarrow> (if md_kind m = File then vfs_truncate (any_ops bd) v path 0 else (v, Inl AlreadyExists))
       | Inl NotFound \<Rightarrow> sbind (\<lambda>v. vfs_create_file (any_ops bd) v path) (\<lambda>_. sret ()) v
       | Inl e \<Rightarrow> (v, Inl e))
     (\<lambda>_. sbind (\<lambda>v. vfs_write (any_ops bd) v path 0 data) (\<lambda>_. sret ()))"

definition install_dir :: "'d block_ops \<Rightarrow> string \<Rightarrow> 'd kernel_vfs \<Rightarrow> 'd kernel_vfs \<times> (vfs_error + unit)" where
  "install_dir bd path v =
     (case vfs_metadata (any_ops bd) v path of
        Inr m \<Rightarrow> (if md_kind m = Directory then (v, Inr ()) else (v, Inl AlreadyExists))
      | Inl NotFound \<Rightarrow> sbind (\<lambda>v. vfs_create_dir (any_ops bd) v path) (\<lambda>_. sret ()) v
      | Inl e \<Rightarrow> (v, Inl e))"

text \<open>One round of the loop, after its first byte: the new offset and how many files were added.\<close>

definition unpack_record ::
  "'d block_ops \<Rightarrow> byte list \<Rightarrow> byte \<Rightarrow> nat \<Rightarrow> 'd kernel_vfs \<Rightarrow> 'd kernel_vfs \<times> (vfs_error + nat \<times> nat)" where
  "unpack_record bd archive kind offset =
     sbind (sget (\<lambda>_. gir_header archive offset)) (\<lambda>(path, data_len, offset).
     if kind = 1 then
       sbind (sget (\<lambda>_. ok_or (gir_get archive offset (offset + data_len)) CorruptFilesystem)) (\<lambda>data.
       sbind (install_file bd path data) (\<lambda>_. sret (offset + data_len, 1)))
     else if kind = 2 then
       (if data_len \<noteq> 0 then sfail CorruptFilesystem
        else sbind (install_dir bd path) (\<lambda>_. sret (offset, 0)))
     else sfail CorruptFilesystem)"

lemma gir_header_offset: "gir_header archive offset = Inr (path, len, next') \<Longrightarrow> offset + 6 \<le> next'"
  by (auto simp: gir_header_def Let_def result_simps split: if_splits)

lemma unpack_record_offset:
  "unpack_record bd archive kind offset v = (v', Inr (next', n)) \<Longrightarrow> offset < next'"
  by (auto simp: unpack_record_def result_simps dest!: gir_header_offset split: sum.splits if_splits)

function unpack_loop ::
  "'d block_ops \<Rightarrow> byte list \<Rightarrow> nat \<Rightarrow> nat \<Rightarrow> 'd kernel_vfs \<Rightarrow> 'd kernel_vfs \<times> (vfs_error + nat)" where
  "unpack_loop bd archive offset files v =
     (if length archive \<le> offset then (v, Inl CorruptFilesystem)
      else if archive ! offset = 0 then (v, Inr files)
      else
        (case unpack_record bd archive (archive ! offset) (offset + 1) v of
           (v', Inl e) \<Rightarrow> (v', Inl e)
         | (v', Inr (next', n)) \<Rightarrow> unpack_loop bd archive next' (files + n) v'))"
  by pat_completeness auto
termination
  by (relation "measure (\<lambda>(bd, archive, offset, files, v). length archive - offset)")
    (auto dest!: unpack_record_offset [OF sym])

declare unpack_loop.simps [simp del]

definition unpack :: "'d block_ops \<Rightarrow> byte list \<Rightarrow> 'd kernel_vfs \<Rightarrow> 'd kernel_vfs \<times> (vfs_error + nat)" where
  "unpack bd archive v =
     (if length archive < 5 \<or> take 4 archive \<noteq> GIR_MAGIC then (v, Inl CorruptFilesystem)
      else unpack_loop bd archive 4 0 v)"

section \<open>The archive as records\<close>

type_synonym gir_record = "byte \<times> string \<times> byte list"

definition record_ok :: "gir_record \<Rightarrow> bool" where
  "record_ok r \<longleftrightarrow>
     (case r of (k, p, d) \<Rightarrow> length p < 2 ^ 16 \<and> length d < 2 ^ 32 \<and> (k = 1 \<or> k = 2 \<and> d = []))"

definition encode_record :: "gir_record \<Rightarrow> byte list" where
  "encode_record r =
     (case r of (k, p, d) \<Rightarrow>
        [k] @ le_bytes 2 (length p) @ le_bytes 4 (length d) @ bytes_of_str p @ d)"

text \<open>The records of a directory of the host, and of the whole archive, in order.\<close>

function directory_records :: "string \<Rightarrow> (string \<times> host_node) list \<Rightarrow> gir_record list"
  and entries_records :: "string \<Rightarrow> (string \<times> host_node) list \<Rightarrow> gir_record list" where
  "directory_records dir entries = entries_records dir (sort_key fst entries)"
| "entries_records dir [] = []"
| "entries_records dir ((name, HostDir es) # entries) =
     (2, slashes (dir @ name), []) # directory_records (dir @ name @ ''/'') es @ entries_records dir entries"
| "entries_records dir ((name, HostFile data) # entries) =
     (1, slashes (dir @ name), data) # entries_records dir entries"
| "entries_records dir ((name, HostOther) # entries) = entries_records dir entries"
  by pat_completeness auto
termination
  by (relation "measure (case_sum (\<lambda>(p, es). Suc (entries_size es)) (\<lambda>(p, es). entries_size es))")
    (auto simp: entries_size_def [symmetric])

definition program_records :: "string \<Rightarrow> byte list option \<Rightarrow> gir_record list" where
  "program_records path program = (case program of None \<Rightarrow> [] | Some data \<Rightarrow> [(1, path, data)])"

definition archive_records ::
  "(string \<times> host_node) list option \<Rightarrow> byte list option \<Rightarrow> byte list option \<Rightarrow> gir_record list" where
  "archive_records root user_init user_gui =
     (case root of None \<Rightarrow> [] | Some es \<Rightarrow> directory_records [] es) @
     program_records ''bin/init'' user_init @ program_records ''bin/generic-gui'' user_gui"

definition appended :: "byte list \<Rightarrow> byte list \<Rightarrow> gir_record list \<Rightarrow> bool" where
  "appended a a' rs \<longleftrightarrow> a' = a @ concat (map encode_record rs) \<and> (\<forall>r\<in>set rs. record_ok r)"

lemma appended_Nil [simp]: "appended a a' [] \<longleftrightarrow> a' = a"
  by (simp add: appended_def)

lemma appended_trans: "appended a b rs \<Longrightarrow> appended b c ss \<Longrightarrow> appended a c (rs @ ss)"
  by (auto simp: appended_def)

lemma append_record_appended:
  "append_record a k p d = Some a' \<Longrightarrow> k = 1 \<or> k = 2 \<and> d = [] \<Longrightarrow> appended a a' [(k, p, d)]"
  by (auto simp: append_record_def appended_def encode_record_def record_ok_def split: if_splits)

lemma append_directory_records:
  "append_directory dir es a = Some a' \<Longrightarrow> appended a a' (directory_records dir es)"
  "append_entries dir es a = Some a' \<Longrightarrow> appended a a' (entries_records dir es)"
proof (induction dir es a and dir es a arbitrary: a' and a' rule: append_directory_append_entries.induct)
  case (3 dir name es entries archive)
  obtain b c where b: "append_record archive 2 (slashes (dir @ name)) [] = Some b"
    "append_directory (dir @ name @ ''/'') es b = Some c" "append_entries dir entries c = Some a'"
    using "3.prems" by (auto split: option.splits)
  have "appended archive b [(2, slashes (dir @ name), [])]" by (rule append_record_appended [OF b(1)]) simp
  from appended_trans [OF this appended_trans [OF "3.IH"(1) [OF b(1,2)] "3.IH"(2) [OF b]]]
  show ?case by simp
next
  case (4 dir name data entries archive)
  obtain b where b: "append_record archive 1 (slashes (dir @ name)) data = Some b" "append_entries dir entries b = Some a'"
    using "4.prems" by (auto split: option.splits)
  have "appended archive b [(1, slashes (dir @ name), data)]" by (rule append_record_appended [OF b(1)]) simp
  from appended_trans [OF this "4.IH" [OF b]] show ?case by simp
qed simp_all

lemma append_program_records:
  "append_program path program a = Some a' \<Longrightarrow> appended a a' (program_records path program)"
  using append_record_appended [of a 1 path _ a']
  by (auto simp: append_program_def program_records_def split: option.splits)

lemma build_initramfs_records:
  assumes "build_initramfs root user_init user_gui = Some archive"
  shows "archive = GIR_MAGIC @ concat (map encode_record (archive_records root user_init user_gui)) @ [0]"
    and "\<forall>r\<in>set (archive_records root user_init user_gui). record_ok r"
proof -
  obtain a b c where a: "(case root of None \<Rightarrow> Some GIR_MAGIC | Some es \<Rightarrow> append_directory [] es GIR_MAGIC) = Some a"
    "append_program ''bin/init'' user_init a = Some b" "append_program ''bin/generic-gui'' user_gui b = Some c"
    "archive = c @ [0]"
    using assms by (auto simp: build_initramfs_def bind_eq_Some_conv)
  have "appended GIR_MAGIC a (case root of None \<Rightarrow> [] | Some es \<Rightarrow> directory_records [] es)"
    using a(1) append_directory_records(1) by (auto split: option.splits)
  from appended_trans [OF this appended_trans [OF append_program_records [OF a(2)] append_program_records [OF a(3)]]]
  show "archive = GIR_MAGIC @ concat (map encode_record (archive_records root user_init user_gui)) @ [0]"
    "\<forall>r\<in>set (archive_records root user_init user_gui). record_ok r"
    using a(4) by (simp_all add: appended_def archive_records_def)
qed

section \<open>Unpacking an archive of records\<close>

definition install_record :: "'d block_ops \<Rightarrow> gir_record \<Rightarrow> 'd kernel_vfs \<Rightarrow> 'd kernel_vfs \<times> (vfs_error + unit)" where
  "install_record bd r =
     (case r of (k, p, d) \<Rightarrow> if k = 1 then install_file bd (''/'' @ p) d else install_dir bd (''/'' @ p))"

fun install_all ::
  "'d block_ops \<Rightarrow> gir_record list \<Rightarrow> nat \<Rightarrow> 'd kernel_vfs \<Rightarrow> 'd kernel_vfs \<times> (vfs_error + nat)" where
  "install_all bd [] files v = (v, Inr files)"
| "install_all bd (r # rs) files v =
     (case install_record bd r v of
        (v', Inl e) \<Rightarrow> (v', Inl e)
      | (v', Inr _) \<Rightarrow> install_all bd rs (if fst r = 1 then files + 1 else files) v')"

lemma gir_get_part:
  assumes "archive = a @ b @ c" and "s = length a" and "e = s + length b"
  shows "gir_get archive s e = Some b"
  using assms by (simp add: gir_get_def)

lemma gir_header_record:
  assumes "archive = a @ encode_record (k, p, d) @ rest" and "record_ok (k, p, d)" and "utf8_str p"
    and "offset = length a + 1"
  shows "gir_header archive offset = Inr (''/'' @ p, length d, offset + 6 + length p)"
    and "gir_get archive (offset + 6 + length p) (offset + 6 + length p + length d) = Some d"
proof -
  have l: "le_nat (le_bytes 2 (length p)) = length p" "le_nat (le_bytes 4 (length d)) = length d"
    using assms(2) by (simp_all add: le_nat_le_bytes record_ok_def)
  have "gir_get archive offset (offset + 2) = Some (le_bytes 2 (length p))"
    by (rule gir_get_part [of _ "a @ [k]"]) (use assms in \<open>simp_all add: encode_record_def\<close>)
  then have u16: "gir_read_u16 archive offset = Inr (length p)" by (simp add: gir_read_u16_def l)
  have "gir_get archive (offset + 2) (offset + 2 + 4) = Some (le_bytes 4 (length d))"
    by (rule gir_get_part [of _ "a @ [k] @ le_bytes 2 (length p)"]) (use assms in \<open>simp_all add: encode_record_def\<close>)
  then have u32: "gir_read_u32 archive (offset + 2) = Inr (length d)" by (simp add: gir_read_u32_def l)
  have path: "gir_get archive (offset + 2 + 4) (offset + 2 + 4 + length p) = Some (bytes_of_str p)"
    by (rule gir_get_part [of _ "a @ [k] @ le_bytes 2 (length p) @ le_bytes 4 (length d)"])
      (use assms in \<open>simp_all add: encode_record_def\<close>)
  show "gir_header archive offset = Inr (''/'' @ p, length d, offset + 6 + length p)"
    using u16 u32 path assms(3) by (simp add: gir_header_def Let_def utf8_str_def)
  show "gir_get archive (offset + 6 + length p) (offset + 6 + length p + length d) = Some d"
    by (rule gir_get_part [of _ "a @ [k] @ le_bytes 2 (length p) @ le_bytes 4 (length d) @ bytes_of_str p"])
      (use assms in \<open>simp_all add: encode_record_def\<close>)
qed

lemma unpack_record_installs:
  assumes "archive = a @ encode_record r @ rest" and "record_ok r" and "utf8_str (fst (snd r))"
  shows "unpack_record bd archive (fst r) (length a + 1) v =
    sbind (install_record bd r) (\<lambda>_. sret (length a + length (encode_record r), if fst r = 1 then 1 else 0)) v"
proof -
  obtain k p d where r: "r = (k, p, d)" by (cases r)
  note H = gir_header_record [OF assms(1) [unfolded r] assms(2) [unfolded r] _ refl]
  have k: "k = 1 \<or> k = 2 \<and> d = []" using assms(2) by (simp add: record_ok_def r)
  show ?thesis using k assms(3) H
    by (auto simp: unpack_record_def install_record_def r encode_record_def add.assoc add.left_commute [of _ 7])
qed

lemma unpack_loop_records:
  assumes "archive = a @ concat (map encode_record rs) @ [0]"
    and "\<forall>r\<in>set rs. record_ok r \<and> utf8_str (fst (snd r))"
  shows "unpack_loop bd archive (length a) files v = install_all bd rs files v"
  using assms
proof (induction rs arbitrary: a files v)
  case Nil
  then show ?case by (simp add: unpack_loop.simps nth_append)
next
  case (Cons r rs)
  let ?b = "a @ encode_record r"
  have ar: "archive = a @ encode_record r @ concat (map encode_record rs) @ [0]" using Cons.prems(1) by simp
  obtain k p d where r: "r = (k, p, d)" by (cases r)
  have first: "length a < length archive" "archive ! length a = k" "k \<noteq> 0"
    using ar Cons.prems(2) by (auto simp: r encode_record_def nth_append record_ok_def)
  have step: "unpack_record bd archive k (length a + 1) v =
    sbind (install_record bd r) (\<lambda>_. sret (length ?b, if k = 1 then 1 else 0)) v"
    using unpack_record_installs [OF ar, of bd v] Cons.prems(2) by (simp add: r)
  have IH: "unpack_loop bd archive (length ?b) f w = install_all bd rs f w" for f w
    by (rule Cons.IH) (use ar Cons.prems(2) in simp_all)
  show ?case
    using first step IH
    by (cases "install_record bd r v"; cases "snd (install_record bd r v)")
      (simp_all add: unpack_loop.simps [of bd archive "length a"] sbind_def r)
qed

lemma install_file_now:
  assumes v: "mounts_ok v" "on_ram v path" and i: "install_file bd path data v = (v', Inr ())"
  shows "file_now bd v v' path data"
proof -
  obtain w n where w: "(case vfs_metadata (any_ops bd) v path of
         Inr m \<Rightarrow> (if md_kind m = File then vfs_truncate (any_ops bd) v path 0 else (v, Inl AlreadyExists))
       | Inl NotFound \<Rightarrow> sbind (\<lambda>v. vfs_create_file (any_ops bd) v path) (\<lambda>_. sret ()) v
       | Inl e \<Rightarrow> (v, Inl e)) = (w, Inr ())" "vfs_write (any_ops bd) w path 0 data = (v', Inr n)"
    using i unfolding install_file_def by (auto simp: result_simps)
  have e: "file_now bd v w path []"
  proof (cases "vfs_metadata (any_ops bd) v path")
    case (Inl e)
    then have "\<exists>m. vfs_create_file (any_ops bd) v path = (w, Inr m)"
      using w(1) by (cases e) (auto simp: result_simps)
    then show ?thesis using create_now(1) [OF v] by blast
  next
    case (Inr m)
    then have "vfs_truncate (any_ops bd) v path 0 = (w, Inr ())" using w(1) by (auto split: if_splits)
    from truncate_now [OF v this] show ?thesis by (auto simp: resize_def)
  qed
  then have w': "mounts_ok w" "on_ram w path" "read_file bd w path = Inr []" by (simp_all add: file_now_def)
  show ?thesis using write_now(2,3) [OF w'(1,2) w(2)] file_now_trans [OF e] w'(3) by (auto simp: overwrite_empty)
qed

text \<open>
  C18: The archive that the build packs is unpacked without loss: for every host directory and
  programs, whose paths are UTF-8, unpacking performs exactly the installation of the packed records in
  their order, stops only at an error of the tree, and returns the number of files. A file
  that was installed reads as its packed contents, and files at other places as before.
\<close>

theorem unpack_build:
  assumes "build_initramfs root user_init user_gui = Some archive"
    and "\<forall>r\<in>set (archive_records root user_init user_gui). utf8_str (fst (snd r))"
  shows "unpack bd archive v = install_all bd (archive_records root user_init user_gui) 0 v \<and>
    (\<forall>w path data w'. mounts_ok w \<and> on_ram w path \<and> install_file bd path data w = (w', Inr ()) \<longrightarrow>
       read_file bd w' path = Inr data \<and>
       (\<forall>q b. read_file bd w q = Inr b \<and> locate (any_ops bd) w q \<noteq> locate (any_ops bd) w' path \<longrightarrow>
          read_file bd w' q = Inr b))"
proof -
  note B = build_initramfs_records [OF assms(1)]
  have len: "length GIR_MAGIC = 4" by (simp add: GIR_MAGIC_def)
  have "unpack_loop bd archive (length GIR_MAGIC) 0 v = install_all bd (archive_records root user_init user_gui) 0 v"
    by (rule unpack_loop_records [OF B(1)]) (use B(2) assms(2) in simp)
  moreover have "\<not> length archive < 5" "take 4 archive = GIR_MAGIC" using len by (simp_all add: B(1))
  ultimately have u: "unpack bd archive v = install_all bd (archive_records root user_init user_gui) 0 v"
    unfolding unpack_def len by simp
  have i: "read_file bd w' path = Inr data \<and>
       (\<forall>q b. read_file bd w q = Inr b \<and> locate (any_ops bd) w q \<noteq> locate (any_ops bd) w' path \<longrightarrow>
          read_file bd w' q = Inr b)"
    if "mounts_ok w" "on_ram w path" "install_file bd path data w = (w', Inr ())" for w path data w'
    using install_file_now [OF that] unfolding file_now_def by simp
  show ?thesis by (intro conjI [OF u] allI impI) (elim conjE, rule i)
qed

lemma utf8_ascii:
  assumes "\<forall>c\<in>set s. of_char c < (128 :: nat)"
  shows "utf8_str s"
proof -
  have "\<forall>c\<in>set s. utf8_encode (of_char c) = [of_nat (of_char c)]" using assms by (simp add: utf8_encode_def)
  then have "concat (map utf8_encode (map of_char s)) = bytes_of_str s"
    by (induction s) (simp_all add: bytes_of_str_def)
  moreover have "\<forall>c\<in>set (map of_char s). is_scalar c" using assms by (auto simp: is_scalar_def)
  ultimately show ?thesis using from_utf8_encode [of "map of_char s"] by (simp add: utf8_str_def)
qed

theorem unpack_build_witness:
  "\<exists>archive. build_initramfs (Some [(''etc'', HostDir [(''motd'', HostFile [0x68, 0x69])])]) None (Some [1]) = Some archive \<and>
     unpack smb_ops archive (vfs_new (Ram ramfs_new)) =
       install_all smb_ops [(2, ''etc'', []), (1, ''etc/motd'', [0x68, 0x69]), (1, ''bin/generic-gui'', [1])] 0
         (vfs_new (Ram ramfs_new))"
proof -
  let ?root = "Some [(''etc'', HostDir [(''motd'', HostFile [0x68, 0x69])])]"
  have a: "\<exists>archive. build_initramfs ?root None (Some [1]) = Some archive"
    by (simp add: build_initramfs_def append_program_def append_record_def slashes_def)
  have r: "archive_records ?root None (Some [1]) =
      [(2, ''etc'', []), (1, ''etc/motd'', [0x68, 0x69]), (1, ''bin/generic-gui'', [1])]"
    by (simp add: archive_records_def program_records_def slashes_def)
  have "\<forall>r\<in>set (archive_records ?root None (Some [1])). utf8_str (fst (snd r))"
    unfolding r by (auto intro!: utf8_ascii)
  with a show ?thesis using unpack_build [of ?root None "Some [1]" _ smb_ops "vfs_new (Ram ramfs_new)"] r by auto
qed

end
