(* ===== verification/Page_Tables.thy ===== *)
theory Page_Tables
  imports Kernel_Prelude "HOL-Library.Multiset"
begin

text \<open>
  Cloning of four-level page tables, \<open>crates/kernel-core/src/page_tables.rs\<close>. The trait \<open>TableMemory\<close> is a
  record of operations on a memory; its documented contract is the locale \<open>table_memory\<close>, in which
  the theorems are proved: a clone translates every address as the source does, shares no table with it,
  and an unsuccessful attempt gives back everything it allocated.
\<close>

section \<open>The code\<close>

definition PRESENT :: u64 where "PRESENT = 1"
definition HUGE :: u64 where "HUGE = 0x80"
definition ADDRESS :: u64 where "ADDRESS = 0x000ffffffffff000"

datatype clone_error = OutOfMemory | TableLimit | InvalidFrame | InvalidHugePage | Cycle

record 'm table_ops =
  tm_allocate :: "'m \<Rightarrow> 'm \<times> u64 option"
  tm_release :: "'m \<Rightarrow> u64 \<Rightarrow> 'm"
  tm_read :: "'m \<Rightarrow> u64 \<Rightarrow> nat \<Rightarrow> u64"
  tm_write :: "'m \<Rightarrow> u64 \<Rightarrow> nat \<Rightarrow> u64 \<Rightarrow> 'm"

record owned_root =
  or_physical :: u64
  or_table_frames :: nat

text \<open>The arguments that \<open>clone_table\<close> mutates: the memory, the ancestors and the count.\<close>

record 'm clone_state =
  cs_mem :: 'm
  cs_ancestors :: "u64 list"
  cs_count :: nat

definition present :: "u64 \<Rightarrow> bool" where "present e \<longleftrightarrow> e AND PRESENT \<noteq> 0"
definition huge :: "u64 \<Rightarrow> bool" where "huge e \<longleftrightarrow> e AND HUGE \<noteq> 0"
definition bad_frame :: "u64 \<Rightarrow> bool" where "bad_frame f \<longleftrightarrow> f = 0 \<or> f AND NOT ADDRESS \<noteq> 0"

text \<open>A table of level \<open>k + 1\<close> is described by \<open>k\<close>, the number of levels below it.\<close>

definition reserved_bits :: "nat \<Rightarrow> u64" where
  "reserved_bits k = (if k = 2 then 0x3fffe000 else 0x1fe000)"

fun release_tree :: "'m table_ops \<Rightarrow> nat \<Rightarrow> u64 \<Rightarrow> 'm \<Rightarrow> 'm"
  and release_loop :: "'m table_ops \<Rightarrow> nat \<Rightarrow> u64 \<Rightarrow> nat list \<Rightarrow> 'm \<Rightarrow> 'm" where
  "release_tree tm 0 frame m = tm_release tm m frame"
| "release_tree tm (Suc k) frame m = tm_release tm (release_loop tm k frame [0..<512] m) frame"
| "release_loop tm k frame [] m = m"
| "release_loop tm k frame (index # rest) m =
     (let entry = tm_read tm m frame index
      in release_loop tm k frame rest
           (if present entry \<and> \<not> huge entry then release_tree tm k (entry AND ADDRESS) m else m))"

fun clear_table :: "'m table_ops \<Rightarrow> u64 \<Rightarrow> nat list \<Rightarrow> 'm \<Rightarrow> 'm" where
  "clear_table tm frame [] m = m"
| "clear_table tm frame (index # rest) m = clear_table tm frame rest (tm_write tm m frame index 0)"

function clone_table ::
  "'m table_ops \<Rightarrow> nat \<Rightarrow> nat \<Rightarrow> u64 \<Rightarrow> 'm clone_state \<Rightarrow> 'm clone_state \<times> (clone_error + u64)"
  and clone_loop ::
  "'m table_ops \<Rightarrow> nat \<Rightarrow> nat \<Rightarrow> u64 \<Rightarrow> u64 \<Rightarrow> nat list \<Rightarrow> 'm clone_state \<Rightarrow>
   'm clone_state \<times> (clone_error + unit)" where
  "clone_table tm limit k source st =
     (if bad_frame source then (st, Inl InvalidFrame)
      else if source \<in> set (take (3 - k) (cs_ancestors st)) then (st, Inl Cycle)
      else
        (let st = st\<lparr>cs_ancestors := (cs_ancestors st)[3 - k := source]\<rparr>
         in if cs_count st = limit then (st, Inl TableLimit)
            else case tm_allocate tm (cs_mem st) of
              (m, None) \<Rightarrow> (st\<lparr>cs_mem := m\<rparr>, Inl OutOfMemory)
            | (m, Some destination) \<Rightarrow>
                (let st = st\<lparr>cs_mem := m, cs_count := cs_count st + 1\<rparr>
                 in if bad_frame destination
                    then (st\<lparr>cs_mem := tm_release tm m destination\<rparr>, Inl InvalidFrame)
                    else
                      case clone_loop tm limit k source destination [0..<512]
                             (st\<lparr>cs_mem := clear_table tm destination [0..<512] m\<rparr>) of
                        (st, Inl e) \<Rightarrow> (st\<lparr>cs_mem := release_tree tm k destination (cs_mem st)\<rparr>, Inl e)
                      | (st, Inr _) \<Rightarrow> (st, Inr destination))))"
| "clone_loop tm limit k source destination [] st = (st, Inr ())"
| "clone_loop tm limit k source destination (index # rest) st =
     (let entry = tm_read tm (cs_mem st) source index;
          copy = (\<lambda>replacement st. st\<lparr>cs_mem := tm_write tm (cs_mem st) destination index replacement\<rparr>)
      in if present entry \<and> 0 < k then
           if huge entry then
             if k = 3 \<or> entry AND reserved_bits k \<noteq> 0 then (st, Inl InvalidHugePage)
             else clone_loop tm limit k source destination rest (copy entry st)
           else
             (case clone_table tm limit (k - 1) (entry AND ADDRESS) st of
                (st, Inl e) \<Rightarrow> (st, Inl e)
              | (st, Inr child) \<Rightarrow>
                  clone_loop tm limit k source destination rest (copy (entry AND NOT ADDRESS OR child) st))
         else clone_loop tm limit k source destination rest (copy entry st))"
  by pat_completeness auto
termination
  by (relation "measures [case_sum (\<lambda>(tm, limit, k, s, st). k) (\<lambda>(tm, limit, k, s, d, is, st). k),
      case_sum (\<lambda>_. 513) (\<lambda>(tm, limit, k, s, d, is, st). length is)]") auto

declare clone_table.simps [simp del] clone_loop.simps(2) [simp del]

definition clone_root :: "'m table_ops \<Rightarrow> nat \<Rightarrow> u64 \<Rightarrow> 'm \<Rightarrow> 'm \<times> (clone_error + owned_root)" where
  "clone_root tm limit source m =
     (case clone_table tm limit 3 source \<lparr>cs_mem = m, cs_ancestors = [0, 0, 0, 0], cs_count = 0\<rparr> of
        (st, Inl e) \<Rightarrow> (cs_mem st, Inl e)
      | (st, Inr physical) \<Rightarrow>
          (cs_mem st, Inr \<lparr>or_physical = physical, or_table_frames = cs_count st\<rparr>))"

section \<open>Trees and translations\<close>

text \<open>The tables of a tree, in the order in which they are released.\<close>

fun tree_frames :: "'m table_ops \<Rightarrow> 'm \<Rightarrow> nat \<Rightarrow> u64 \<Rightarrow> u64 list" where
  "tree_frames tm m 0 frame = [frame]"
| "tree_frames tm m (Suc k) frame =
     concat (map (\<lambda>i. if present (tm_read tm m frame i) \<and> \<not> huge (tm_read tm m frame i)
       then tree_frames tm m k (tm_read tm m frame i AND ADDRESS) else []) [0..<512]) @ [frame]"

definition child_frames :: "'m table_ops \<Rightarrow> 'm \<Rightarrow> nat \<Rightarrow> u64 \<Rightarrow> nat \<Rightarrow> u64 list" where
  "child_frames tm m k frame i =
     (if present (tm_read tm m frame i) \<and> \<not> huge (tm_read tm m frame i)
      then tree_frames tm m k (tm_read tm m frame i AND ADDRESS) else [])"

lemma tree_frames_Suc:
  "tree_frames tm m (Suc k) frame = concat (map (child_frames tm m k frame) [0..<512]) @ [frame]"
  by (simp add: child_frames_def [abs_def])

text \<open>The same for a table of any level: those of the last level have no tables below.\<close>

definition sub_frames :: "'m table_ops \<Rightarrow> 'm \<Rightarrow> nat \<Rightarrow> u64 \<Rightarrow> nat \<Rightarrow> u64 list" where
  "sub_frames tm m k frame i = (if k = 0 then [] else child_frames tm m (k - 1) frame i)"

lemma tree_frames_sub: "tree_frames tm m k frame = concat (map (sub_frames tm m k frame) [0..<512]) @ [frame]"
  by (cases k) (simp_all add: sub_frames_def [abs_def] tree_frames_Suc del: tree_frames.simps(2))

declare tree_frames.simps(2) [simp del]

text \<open>
  What the processor sees on the way to an address with the index \<open>path k\<close> at level \<open>k + 1\<close>: the flags of
  the tables and the complete entry at the end.
\<close>

fun walk_path :: "'m table_ops \<Rightarrow> 'm \<Rightarrow> nat \<Rightarrow> u64 \<Rightarrow> (nat \<Rightarrow> nat) \<Rightarrow> u64 list" where
  "walk_path tm m 0 frame path = [tm_read tm m frame (path 0)]"
| "walk_path tm m (Suc k) frame path =
     (let e = tm_read tm m frame (path (Suc k))
      in if present e \<and> \<not> huge e
         then (e AND NOT ADDRESS) # walk_path tm m k (e AND ADDRESS) path else [e])"

text \<open>The part of a walk that starts with a given entry.\<close>

definition entry_view :: "'m table_ops \<Rightarrow> 'm \<Rightarrow> nat \<Rightarrow> u64 \<Rightarrow> nat \<Rightarrow> (nat \<Rightarrow> nat) \<Rightarrow> u64 list" where
  "entry_view tm m k frame i path =
     (let e = tm_read tm m frame i
      in if 0 < k \<and> present e \<and> \<not> huge e
         then (e AND NOT ADDRESS) # walk_path tm m (k - 1) (e AND ADDRESS) path else [e])"

lemma walk_entry: "walk_path tm m k frame path = entry_view tm m k frame (path k) path"
  by (cases k) (simp_all add: entry_view_def Let_def)

lemma frame_in_tree [simp]: "frame \<in> set (tree_frames tm m k frame)"
  by (cases k) (simp_all add: tree_frames_Suc)

lemma child_frames_subset:
  "i < 512 \<Longrightarrow> set (child_frames tm m k frame i) \<subseteq> set (tree_frames tm m (Suc k) frame)"
  by (auto simp: tree_frames_Suc)

lemma tree_frames_cong:
  assumes "\<And>g i. g \<in> set (tree_frames tm m k frame) \<Longrightarrow> i < 512 \<Longrightarrow> tm_read tm m' g i = tm_read tm m g i"
  shows "tree_frames tm m' k frame = tree_frames tm m k frame"
  using assms
proof (induction k arbitrary: frame)
  case (Suc k)
  have "child_frames tm m' k frame i = child_frames tm m k frame i" if "i < 512" for i
  proof (cases "present (tm_read tm m frame i) \<and> \<not> huge (tm_read tm m frame i)")
    case True
    have "tree_frames tm m' k (tm_read tm m frame i AND ADDRESS) = tree_frames tm m k (tm_read tm m frame i AND ADDRESS)"
      by (rule Suc.IH, rule Suc.prems) (use child_frames_subset [OF that, of tm m k frame] True in \<open>auto simp: child_frames_def\<close>)
    then show ?thesis using Suc.prems [OF frame_in_tree that] by (simp add: child_frames_def)
  next
    case False
    then show ?thesis using Suc.prems [OF frame_in_tree that] by (auto simp: child_frames_def)
  qed
  then have "map (child_frames tm m' k frame) [0..<512] = map (child_frames tm m k frame) [0..<512]" by simp
  then show ?case by (simp only: tree_frames_Suc)
qed simp

lemma walk_path_cong:
  assumes "\<And>g i. g \<in> set (tree_frames tm m k frame) \<Longrightarrow> i < 512 \<Longrightarrow> tm_read tm m' g i = tm_read tm m g i"
    and "\<And>l. path l < 512"
  shows "walk_path tm m' k frame path = walk_path tm m k frame path"
  using assms(1)
proof (induction k arbitrary: frame)
  case 0
  then show ?case using assms(2) by simp
next
  case (Suc k)
  let ?e = "tm_read tm m frame (path (Suc k))"
  have e: "tm_read tm m' frame (path (Suc k)) = ?e" by (rule Suc.prems) (simp_all add: assms(2))
  have "walk_path tm m' k (?e AND ADDRESS) path = walk_path tm m k (?e AND ADDRESS) path" if "present ?e \<and> \<not> huge ?e"
    by (rule Suc.IH, rule Suc.prems)
      (use child_frames_subset [OF assms(2), of tm m k frame "Suc k"] that in \<open>auto simp: child_frames_def\<close>)
  then show ?case using e by (simp add: Let_def)
qed

text \<open>Hanging a subtree into an empty place.\<close>

lemma concat_update:
  assumes "i \<in> set xs" and "distinct xs" and "L i = []"
  shows "mset (concat (map (L(i := F)) xs)) = mset (concat (map L xs)) + mset F"
  using assms
proof (induction xs)
  case (Cons x xs)
  show ?case
  proof (cases "x = i")
    case True
    have "concat (map (L(i := F)) xs) = concat (map L xs)"
      using True Cons.prems(2) by (intro arg_cong [of _ _ concat] map_cong) auto
    then show ?thesis using True Cons.prems(3) by (simp add: add.commute del: fun_upd_apply add: fun_upd_same)
  next
    case False
    then show ?thesis using Cons by (simp add: add.assoc)
  qed
qed simp

text \<open>The entry that links a clone has its address and the flags of the original.\<close>

definition relink :: "u64 \<Rightarrow> u64 \<Rightarrow> u64" where "relink entry child = (entry AND NOT ADDRESS OR child)"

lemma relink_entry:
  assumes "\<not> bad_frame child"
  shows "relink entry child AND ADDRESS = child" and "relink entry child AND NOT ADDRESS = entry AND NOT ADDRESS"
proof -
  have "child AND NOT ADDRESS = 0" using assms by (simp add: bad_frame_def)
  then have "\<not> bit (child AND NOT ADDRESS) n" for n by simp
  then have c: "bit child n \<Longrightarrow> bit ADDRESS n" for n
    using bit_imp_le_length [of child n] by (auto simp: bit_and_iff bit_not_iff)
  show "relink entry child AND ADDRESS = child"
    by (rule bit_eqI) (use c in \<open>auto simp: relink_def bit_simps\<close>)
  show "relink entry child AND NOT ADDRESS = entry AND NOT ADDRESS"
    by (rule bit_eqI) (use c in \<open>auto simp: relink_def bit_simps\<close>)
qed

lemma relink_flags:
  assumes "\<not> bad_frame child"
  shows "present (relink entry child) = present entry" and "huge (relink entry child) = huge entry"
proof -
  have F: "e AND PRESENT = (e AND NOT ADDRESS) AND PRESENT" "e AND HUGE = (e AND NOT ADDRESS) AND HUGE" for e
    by (simp_all add: PRESENT_def HUGE_def ADDRESS_def and.assoc)
  show "present (relink entry child) = present entry" "huge (relink entry child) = huge entry"
    unfolding present_def huge_def
    by (subst (1 2) F, simp only: relink_entry [OF assms])+
qed

text \<open>
  A source that can be cloned: frame addresses are valid, no table is its own ancestor, and huge pages are
  only where the processor has them, with their reserved bits clear.
\<close>

fun clonable :: "'m table_ops \<Rightarrow> 'm \<Rightarrow> nat \<Rightarrow> u64 \<Rightarrow> u64 list \<Rightarrow> bool" where
  "clonable tm m 0 source anc \<longleftrightarrow> \<not> bad_frame source \<and> source \<notin> set anc"
| "clonable tm m (Suc k) source anc \<longleftrightarrow> \<not> bad_frame source \<and> source \<notin> set anc \<and>
     list_all (\<lambda>i. let e = tm_read tm m source i in present e \<longrightarrow>
       (if huge e then k \<noteq> 2 \<and> e AND reserved_bits (Suc k) = 0
        else clonable tm m k (e AND ADDRESS) (anc @ [source]))) [0..<512]"

definition entry_clonable :: "'m table_ops \<Rightarrow> 'm \<Rightarrow> nat \<Rightarrow> u64 \<Rightarrow> u64 list \<Rightarrow> nat \<Rightarrow> bool" where
  "entry_clonable tm m k source anc i \<longleftrightarrow>
     (let e = tm_read tm m source i in 0 < k \<and> present e \<longrightarrow>
       (if huge e then k \<noteq> 3 \<and> e AND reserved_bits k = 0 else clonable tm m (k - 1) (e AND ADDRESS) anc))"

lemma clonable_entries:
  "clonable tm m k source anc \<longleftrightarrow> \<not> bad_frame source \<and> source \<notin> set anc \<and>
     (\<forall>i<512. entry_clonable tm m k source (anc @ [source]) i)"
  by (cases k) (auto simp: entry_clonable_def list_all_iff)

lemma clonable_cong:
  assumes "\<And>g i. g \<in> set (tree_frames tm m k frame) \<Longrightarrow> i < 512 \<Longrightarrow> tm_read tm m' g i = tm_read tm m g i"
  shows "clonable tm m' k frame anc = clonable tm m k frame anc"
  using assms
proof (induction k arbitrary: frame anc)
  case (Suc k)
  have "entry_clonable tm m' (Suc k) frame anc i = entry_clonable tm m (Suc k) frame anc i" if "i < 512" for i anc
  proof (cases "present (tm_read tm m frame i) \<and> \<not> huge (tm_read tm m frame i)")
    case True
    have "clonable tm m' k (tm_read tm m frame i AND ADDRESS) anc = clonable tm m k (tm_read tm m frame i AND ADDRESS) anc"
      by (rule Suc.IH, rule Suc.prems) (use child_frames_subset [OF that, of tm m k frame] True in \<open>auto simp: child_frames_def\<close>)
    then show ?thesis using Suc.prems [OF frame_in_tree that] by (simp add: entry_clonable_def)
  next
    case False
    then show ?thesis using Suc.prems [OF frame_in_tree that] by (auto simp: entry_clonable_def)
  qed
  then show ?case unfolding clonable_entries by blast
qed simp

section \<open>The contract of a table memory\<close>

text \<open>
  \<open>live\<close> are the frames that hold tables, \<open>held\<close> those that were allocated and may be written and released.
  An allocated frame was not in use; all other tables keep their contents. \<open>ok\<close> says that no operation has
  panicked: \<open>release\<close> of the kernel's table memory can panic, and then nothing is promised.
\<close>

locale table_memory =
  fixes tm :: "'m table_ops"
    and inv :: "'m \<Rightarrow> bool"
    and live :: "'m \<Rightarrow> u64 set"
    and held :: "'m \<Rightarrow> u64 set"
    and ok :: "'m \<Rightarrow> bool"
  assumes held_live: "inv m \<Longrightarrow> held m \<subseteq> live m"
    and allocate_some: "\<lbrakk>inv m; tm_allocate tm m = (m', Some f)\<rbrakk> \<Longrightarrow>
      inv m' \<and> f \<notin> live m \<and> live m' = insert f (live m) \<and> held m' = insert f (held m) \<and>
      (\<forall>g\<in>live m. \<forall>i. tm_read tm m' g i = tm_read tm m g i)"
    and allocate_none: "\<lbrakk>inv m; tm_allocate tm m = (m', None)\<rbrakk> \<Longrightarrow> m' = m"
    and release_ok: "ok (tm_release tm m f) \<Longrightarrow> ok m"
    and release_law: "\<lbrakk>inv m; f \<in> held m; ok (tm_release tm m f)\<rbrakk> \<Longrightarrow>
      inv (tm_release tm m f) \<and> live (tm_release tm m f) = live m - {f} \<and>
      held (tm_release tm m f) = held m - {f} \<and>
      (\<forall>g\<in>live m - {f}. \<forall>i. tm_read tm (tm_release tm m f) g i = tm_read tm m g i)"
    and write_law: "\<lbrakk>inv m; f \<in> held m; i < 512\<rbrakk> \<Longrightarrow>
      inv (tm_write tm m f i e) \<and> live (tm_write tm m f i e) = live m \<and> held (tm_write tm m f i e) = held m \<and>
      (\<forall>g\<in>live m. \<forall>j. tm_read tm (tm_write tm m f i e) g j = (if g = f \<and> j = i then e else tm_read tm m g j))"
begin

abbreviation frames :: "'m \<Rightarrow> nat \<Rightarrow> u64 \<Rightarrow> u64 list" where
  "frames m k f \<equiv> tree_frames tm m k f"

text \<open>Nothing that was live changed.\<close>

definition kept :: "'m \<Rightarrow> 'm \<Rightarrow> bool" where
  "kept m m' \<longleftrightarrow> live m \<subseteq> live m' \<and> (\<forall>g\<in>live m. \<forall>i. tm_read tm m' g i = tm_read tm m g i)"

text \<open>\<open>m'\<close> is \<open>m\<close> with a tree of new tables.\<close>

definition built :: "'m \<Rightarrow> 'm \<Rightarrow> nat \<Rightarrow> u64 \<Rightarrow> bool" where
  "built m m' k dest \<longleftrightarrow> inv m' \<and> kept m m' \<and> distinct (frames m' k dest) \<and>
     set (frames m' k dest) \<inter> live m = {} \<and> live m' = live m \<union> set (frames m' k dest) \<and>
     held m' = held m \<union> set (frames m' k dest)"

lemma kept_refl [simp]: "kept m m" by (simp add: kept_def)

lemma kept_trans: "kept a b \<Longrightarrow> kept b c \<Longrightarrow> kept a c"
  unfolding kept_def by (metis subset_iff)

lemma kept_frames: "kept m m' \<Longrightarrow> set (frames m k f) \<subseteq> live m \<Longrightarrow> frames m' k f = frames m k f"
  by (rule tree_frames_cong) (auto simp: kept_def)

lemma kept_walk:
  "kept m m' \<Longrightarrow> set (frames m k f) \<subseteq> live m \<Longrightarrow> (\<And>l. path l < 512) \<Longrightarrow>
   walk_path tm m' k f path = walk_path tm m k f path"
  by (rule walk_path_cong) (auto simp: kept_def)

lemma kept_clonable:
  "kept m m' \<Longrightarrow> set (frames m k f) \<subseteq> live m \<Longrightarrow> clonable tm m' k f anc = clonable tm m k f anc"
  by (rule clonable_cong) (auto simp: kept_def)

lemma clear_table_law:
  assumes "inv m" and "f \<in> held m" and "set is \<subseteq> {..<512}"
  shows "inv (clear_table tm f is m) \<and> live (clear_table tm f is m) = live m \<and>
    held (clear_table tm f is m) = held m \<and>
    (\<forall>g\<in>live m. \<forall>j. tm_read tm (clear_table tm f is m) g j = (if g = f \<and> j \<in> set is then 0 else tm_read tm m g j))"
  using assms
proof (induction "is" arbitrary: m)
  case (Cons i "is")
  note W = write_law [OF Cons.prems(1,2), of i 0]
  have IH: "inv (clear_table tm f is (tm_write tm m f i 0)) \<and>
    live (clear_table tm f is (tm_write tm m f i 0)) = live (tm_write tm m f i 0) \<and>
    held (clear_table tm f is (tm_write tm m f i 0)) = held (tm_write tm m f i 0) \<and>
    (\<forall>g\<in>live (tm_write tm m f i 0). \<forall>j. tm_read tm (clear_table tm f is (tm_write tm m f i 0)) g j =
       (if g = f \<and> j \<in> set is then 0 else tm_read tm (tm_write tm m f i 0) g j))"
    by (rule Cons.IH) (use W Cons.prems in auto)
  then show ?case using W Cons.prems by auto
qed simp

text \<open>\<open>m'\<close> is \<open>m\<close> without the frames \<open>F\<close>.\<close>

definition released :: "'m \<Rightarrow> 'm \<Rightarrow> u64 set \<Rightarrow> bool" where
  "released m m' F \<longleftrightarrow> inv m' \<and> live m' = live m - F \<and> held m' = held m - F \<and>
     (\<forall>g\<in>live m - F. \<forall>i. tm_read tm m' g i = tm_read tm m g i)"

lemma released_trans: "released m m1 F \<Longrightarrow> released m1 m2 G \<Longrightarrow> released m m2 (F \<union> G)"
  unfolding released_def by auto

lemma released_none [simp]: "released m m {} \<longleftrightarrow> inv m"
  by (simp add: released_def)

lemma released_children:
  assumes "released m m' F" and "f \<in> live m - F" and "set (child_frames tm m k f j) \<subseteq> live m - F"
  shows "child_frames tm m' k f j = child_frames tm m k f j"
proof -
  have e: "tm_read tm m' f j = tm_read tm m f j" using assms(1,2) by (simp add: released_def)
  have "frames m' k (tm_read tm m f j AND ADDRESS) = frames m k (tm_read tm m f j AND ADDRESS)"
    if "present (tm_read tm m f j) \<and> \<not> huge (tm_read tm m f j)"
    by (rule tree_frames_cong) (use assms that in \<open>auto simp: released_def child_frames_def\<close>)
  then show ?thesis using e by (simp add: child_frames_def)
qed

lemma ok_release_loop:
  assumes "\<And>f m. ok (release_tree tm k f m) \<Longrightarrow> ok m" and "ok (release_loop tm k f is m)"
  shows "ok m"
  using assms(2) by (induction "is" arbitrary: m) (auto simp: Let_def split: if_splits intro: assms(1))

lemma ok_release_tree: "ok (release_tree tm k f m) \<Longrightarrow> ok m"
proof (induction k arbitrary: f m)
  case (Suc k)
  then have "ok (release_loop tm k f [0..<512] m)" by (auto dest: release_ok)
  then show ?case using Suc.IH by (rule ok_release_loop [rotated])
qed (auto dest: release_ok)

lemma release_loop_law:
  assumes tree: "\<And>f m. \<lbrakk>inv m; distinct (frames m k f); set (frames m k f) \<subseteq> held m; ok (release_tree tm k f m)\<rbrakk> \<Longrightarrow>
      released m (release_tree tm k f m) (set (frames m k f))"
    and "inv m" and "f \<in> live m" and "distinct (concat (map (child_frames tm m k f) is))"
    and "f \<notin> set (concat (map (child_frames tm m k f) is))"
    and "set (concat (map (child_frames tm m k f) is)) \<subseteq> held m" and "ok (release_loop tm k f is m)"
  shows "released m (release_loop tm k f is m) (set (concat (map (child_frames tm m k f) is)))"
  using assms(2-)
proof (induction "is" arbitrary: m)
  case (Cons i "is")
  let ?C = "child_frames tm m k f" and ?e = "tm_read tm m f i"
  define m1 where "m1 = (if present ?e \<and> \<not> huge ?e then release_tree tm k (?e AND ADDRESS) m else m)"
  let ?R = "concat (map ?C is)"
  have D: "distinct (?C i)" "distinct ?R" "set (?C i) \<inter> set ?R = {}" using Cons.prems(3) by simp_all
  have H: "set (?C i) \<subseteq> held m" "set ?R \<subseteq> held m" "f \<notin> set (?C i)" "f \<notin> set ?R"
    using Cons.prems(4,5) by simp_all
  have k: "ok (release_loop tm k f is m1)" using Cons.prems(6) by (simp add: m1_def Let_def)
  then have "ok m1" by (rule ok_release_loop [rotated]) (rule ok_release_tree)
  then have R: "released m m1 (set (?C i))"
    using tree [OF Cons.prems(1), of "?e AND ADDRESS"] Cons.prems(1) D(1) H(1)
    unfolding m1_def child_frames_def by (cases "present ?e \<and> \<not> huge ?e") (simp_all only: if_True if_False simp_thms, simp_all)
  have L: "held m \<subseteq> live m" by (rule held_live) (rule Cons.prems)
  have "child_frames tm m1 k f j = ?C j" if "j \<in> set is" for j
  proof (rule released_children [OF R])
    show "f \<in> live m - set (?C i)" using Cons.prems(2) H(3) by simp
    have "set (?C j) \<subseteq> set ?R" using that by auto
    then show "set (?C j) \<subseteq> live m - set (?C i)" using D(3) H(2) L by blast
  qed
  then have C: "map (child_frames tm m1 k f) is = map ?C is" by simp
  have "released m1 (release_loop tm k f is m1) (set (concat (map (child_frames tm m1 k f) is)))"
  proof (rule Cons.IH, unfold C)
    show "inv m1" "f \<in> live m1" using R Cons.prems(2) H(3) by (simp_all add: released_def)
    show "distinct ?R" "f \<notin> set ?R" by (fact D H)+
    show "set ?R \<subseteq> held m1" using R D(3) H(2) unfolding released_def by blast
    show "ok (release_loop tm k f is m1)" by (fact k)
  qed
  then show ?case using released_trans [OF R] unfolding C by (simp add: Let_def m1_def)
qed simp

lemma release_tree_law:
  "\<lbrakk>inv m; distinct (frames m k f); set (frames m k f) \<subseteq> held m; ok (release_tree tm k f m)\<rbrakk> \<Longrightarrow>
     released m (release_tree tm k f m) (set (frames m k f))"
proof (induction k arbitrary: f m)
  case 0
  then show ?case using release_law [of m f] by (auto simp: released_def)
next
  case (Suc k)
  let ?F = "set (concat (map (child_frames tm m k f) [0..<512]))"
  have L: "held m \<subseteq> live m" by (rule held_live) (rule Suc.prems)
  have P: "distinct (concat (map (child_frames tm m k f) [0..<512]))" "f \<notin> ?F" "?F \<subseteq> held m" "f \<in> live m"
    using Suc.prems(2,3) L by (simp_all add: tree_frames_Suc subset_iff)
  have k: "ok (release_loop tm k f [0..<512] m)" using Suc.prems(4) by (auto dest: release_ok)
  have R: "released m (release_loop tm k f [0..<512] m) ?F"
    by (rule release_loop_law [OF Suc.IH Suc.prems(1) P(4,1,2,3) k])
  have f: "f \<in> held m" "f \<notin> ?F" using Suc.prems by (auto simp: tree_frames_Suc)
  let ?m = "release_loop tm k f [0..<512] m"
  have "released ?m (tm_release tm ?m f) {f}"
    using release_law [of ?m f] R f Suc.prems(4) by (auto simp: released_def)
  from released_trans [OF R this] show ?case by (simp add: tree_frames_Suc)
qed

text \<open>Writing an entry, a leaf or the link to a tree of new tables, into an empty place.\<close>

lemma sub_frames_kept:
  assumes "\<And>g l. g \<in> set (sub_frames tm m k f j) \<Longrightarrow> tm_read tm m' g l = tm_read tm m g l"
    and "tm_read tm m' f j = tm_read tm m f j"
  shows "sub_frames tm m' k f j = sub_frames tm m k f j"
proof (cases "0 < k \<and> present (tm_read tm m f j) \<and> \<not> huge (tm_read tm m f j)")
  case True
  then have "frames m' (k - 1) (tm_read tm m f j AND ADDRESS) = frames m (k - 1) (tm_read tm m f j AND ADDRESS)"
    by (intro tree_frames_cong assms(1)) (simp add: sub_frames_def child_frames_def)
  then show ?thesis using assms(2) by (simp add: sub_frames_def child_frames_def)
next
  case False
  then show ?thesis using assms(2) by (auto simp: sub_frames_def child_frames_def)
qed

lemma entry_view_kept:
  assumes "\<And>g l. g \<in> set (sub_frames tm m k f j) \<Longrightarrow> tm_read tm m' g l = tm_read tm m g l"
    and "tm_read tm m' f j = tm_read tm m f j" and "\<And>l. path l < 512"
  shows "entry_view tm m' k f j path = entry_view tm m k f j path"
proof (cases "0 < k \<and> present (tm_read tm m f j) \<and> \<not> huge (tm_read tm m f j)")
  case True
  then have "walk_path tm m' (k - 1) (tm_read tm m f j AND ADDRESS) path = walk_path tm m (k - 1) (tm_read tm m f j AND ADDRESS) path"
    by (intro walk_path_cong assms(1,3)) (simp add: sub_frames_def child_frames_def)
  then show ?thesis using assms(2) by (simp add: entry_view_def Let_def)
next
  case False
  then show ?thesis using assms(2) by (auto simp: entry_view_def)
qed

definition hung :: "'m \<Rightarrow> 'm \<Rightarrow> u64 list \<Rightarrow> bool" where
  "hung m m1 F \<longleftrightarrow> inv m1 \<and> kept m m1 \<and> distinct F \<and> set F \<inter> live m = {} \<and>
     live m1 = live m \<union> set F \<and> held m1 = held m \<union> set F"

lemma built_hung: "built m m1 k d \<longleftrightarrow> hung m m1 (frames m1 k d)"
  by (simp add: built_def hung_def)

lemma sub_frames_subset: "j < 512 \<Longrightarrow> set (sub_frames tm m k f j) \<subseteq> set (frames m k f)"
  by (auto simp: tree_frames_sub)

lemma sub_frames_not_root: "distinct (frames m k f) \<Longrightarrow> j < 512 \<Longrightarrow> f \<notin> set (sub_frames tm m k f j)"
  by (auto simp: tree_frames_sub)

lemma write_hung:
  fixes m m0 m1 :: 'm and i k :: nat and dest e :: u64
  assumes b: "built m0 m k dest" and i: "i < 512" and z: "tm_read tm m dest i = 0" and h: "hung m m1 F"
  defines "m2 \<equiv> tm_write tm m1 dest i e"
  assumes F: "sub_frames tm m2 k dest i = F"
  shows "built m0 m2 k dest" and "length (frames m2 k dest) = length (frames m k dest) + length F"
    and "\<And>j. j < 512 \<Longrightarrow> j \<noteq> i \<Longrightarrow> tm_read tm m2 dest j = tm_read tm m dest j"
    and "\<And>j path. j < 512 \<Longrightarrow> j \<noteq> i \<Longrightarrow> (\<And>l. path l < 512) \<Longrightarrow>
      entry_view tm m2 k dest j path = entry_view tm m k dest j path"
proof -
  have d: "dest \<in> set (frames m k dest)" by simp
  have dl: "dest \<in> held m1" "dest \<in> live m" "dest \<notin> live m0" "inv m1"
    using b h d unfolding built_def hung_def by blast+
  note W = write_law [OF dl(4,1) i, of e, folded m2_def]
  have R: "tm_read tm m2 g l = (if g = dest \<and> l = i then e else tm_read tm m g l)" if "g \<in> live m" for g l
    using W h that unfolding hung_def kept_def by auto
  show rd: "tm_read tm m2 dest j = tm_read tm m dest j" if "j < 512" "j \<noteq> i" for j
    using R [OF dl(2)] that by simp
  have sub: "tm_read tm m2 g l = tm_read tm m g l" if "j < 512" "g \<in> set (sub_frames tm m k dest j)" for j g l
  proof -
    have "g \<in> live m" "g \<noteq> dest"
      using b that sub_frames_subset [OF that(1), of m k dest] sub_frames_not_root [OF _ that(1), of m k dest]
      unfolding built_def by blast+
    then show ?thesis using R by simp
  qed
  show "entry_view tm m2 k dest j path = entry_view tm m k dest j path"
    if "j < 512" "j \<noteq> i" "\<And>l. path l < 512" for j path
    by (rule entry_view_kept) (use sub rd that in auto)
  have S: "sub_frames tm m2 k dest j = ((sub_frames tm m k dest)(i := F)) j" if "j < 512" for j
    using F sub_frames_kept [OF sub rd] that by (cases "j = i") simp_all
  have E: "sub_frames tm m k dest i = []" using z by (simp add: sub_frames_def child_frames_def present_def)
  have "mset (concat (map (sub_frames tm m2 k dest) [0..<512])) =
      mset (concat (map ((sub_frames tm m k dest)(i := F)) [0..<512]))"
    by (intro arg_cong [of _ _ mset] arg_cong [of _ _ concat] map_cong refl S) simp
  also have "\<dots> = mset (concat (map (sub_frames tm m k dest) [0..<512])) + mset F"
    by (rule concat_update) (use i E in auto)
  finally have M: "mset (frames m2 k dest) = mset (frames m k dest @ F)"
    by (simp add: tree_frames_sub add.commute add.left_commute)
  from mset_eq_length [OF M] show "length (frames m2 k dest) = length (frames m k dest) + length F" by simp
  have fs: "set (frames m2 k dest) = set (frames m k dest) \<union> set F" using mset_eq_setD [OF M] by simp
  have "distinct (frames m2 k dest)"
    using mset_eq_imp_distinct_iff [OF M] b h by (auto simp: built_def hung_def)
  moreover have "kept m0 m2" using b h W R dl(3) unfolding built_def hung_def kept_def by auto
  ultimately show "built m0 m2 k dest" using W b h fs unfolding built_def hung_def kept_def by auto
qed

text \<open>A loop that has still to copy the entries \<open>is\<close> of \<open>source\<close>.\<close>

definition copying :: "'m \<Rightarrow> nat \<Rightarrow> u64 \<Rightarrow> u64 \<Rightarrow> nat list \<Rightarrow> 'm \<Rightarrow> bool" where
  "copying m0 k source dest is m \<longleftrightarrow> built m0 m k dest \<and> (\<forall>i\<in>set is. tm_read tm m dest i = 0) \<and>
     (\<forall>i<512. i \<notin> set is \<longrightarrow> (\<forall>path. (\<forall>l. path l < 512) \<longrightarrow>
        entry_view tm m k dest i path = entry_view tm m0 k source i path))"

lemma copying_write:
  assumes c: "copying m0 k source dest (i # is) m" and i: "i < 512" "i \<notin> set is" "set is \<subseteq> {..<512}"
    and h: "hung m m1 F" and F: "sub_frames tm (tm_write tm m1 dest i e) k dest i = F"
    and v: "\<And>path. (\<And>l. path l < 512) \<Longrightarrow>
      entry_view tm (tm_write tm m1 dest i e) k dest i path = entry_view tm m0 k source i path"
  shows "copying m0 k source dest is (tm_write tm m1 dest i e)"
    and "length (frames (tm_write tm m1 dest i e) k dest) = length (frames m k dest) + length F"
proof -
  have b: "built m0 m k dest" "tm_read tm m dest i = 0" using c by (simp_all add: copying_def)
  note W = write_hung [OF b(1) i(1) b(2) h F]
  show "copying m0 k source dest is (tm_write tm m1 dest i e)"
    unfolding copying_def
  proof (intro conjI allI ballI impI)
    show "tm_read tm (tm_write tm m1 dest i e) dest j = 0" if "j \<in> set is" for j
      using W(3) [of j] c that i by (auto simp: copying_def)
    show "entry_view tm (tm_write tm m1 dest i e) k dest j path = entry_view tm m0 k source j path"
      if "j < 512" "j \<notin> set is" "\<forall>l. path l < 512" for j path
      using W(4) [of j path] v [of path] c that by (cases "j = i") (auto simp: copying_def)
  qed (rule W(1))
  show "length (frames (tm_write tm m1 dest i e) k dest) = length (frames m k dest) + length F" by (rule W(2))
qed

lemma copying_source:
  assumes "copying m0 k source dest is m" and "set (frames m0 k source) \<subseteq> live m0"
  shows "tm_read tm m source i = tm_read tm m0 source i" and "dest \<in> held m" and "inv m" and "kept m0 m"
    and "dest \<in> live m"
proof -
  have "source \<in> live m0" using assms(2) by (auto simp: subset_iff)
  then show "tm_read tm m source i = tm_read tm m0 source i" "inv m" "kept m0 m" "dest \<in> held m" "dest \<in> live m"
    using assms(1) by (auto simp: copying_def built_def kept_def)
qed

lemma copying_leaf:
  assumes c: "copying m0 k source dest (i # is) m" and i: "i < 512" "i \<notin> set is" "set is \<subseteq> {..<512}"
    and s: "set (frames m0 k source) \<subseteq> live m0"
    and e: "e = tm_read tm m source i" "\<not> (0 < k \<and> present e \<and> \<not> huge e)"
  shows "copying m0 k source dest is (tm_write tm m dest i e)"
    and "length (frames (tm_write tm m dest i e) k dest) = length (frames m k dest)"
proof -
  note S = copying_source [OF c s]
  have h: "hung m m []" using S by (simp add: hung_def)
  have r: "tm_read tm (tm_write tm m dest i e) dest i = e" using write_law [OF S(3,2) i(1), of e] S(5) by simp
  have F: "sub_frames tm (tm_write tm m dest i e) k dest i = []"
    using e(2) r by (auto simp: sub_frames_def child_frames_def)
  have v: "entry_view tm (tm_write tm m dest i e) k dest i path = entry_view tm m0 k source i path" for path
    using e r S(1) by (auto simp: entry_view_def Let_def)
  show "copying m0 k source dest is (tm_write tm m dest i e)"
    "length (frames (tm_write tm m dest i e) k dest) = length (frames m k dest)"
    using copying_write [OF c i h F v] by simp_all
qed

lemma copying_child:
  assumes c: "copying m0 (Suc k) source dest (i # is) m" and i: "i < 512" "i \<notin> set is" "set is \<subseteq> {..<512}"
    and s: "set (frames m0 (Suc k) source) \<subseteq> live m0"
    and e: "e = tm_read tm m source i" "present e" "\<not> huge e"
    and b: "built m m1 k child" "\<not> bad_frame child"
    and w: "\<And>path. (\<And>l. path l < 512) \<Longrightarrow> walk_path tm m1 k child path = walk_path tm m k (e AND ADDRESS) path"
  defines "m2 \<equiv> tm_write tm m1 dest i (relink e child)"
  shows "copying m0 (Suc k) source dest is m2"
    and "length (frames m2 (Suc k) dest) = length (frames m (Suc k) dest) + length (frames m1 k child)"
proof -
  note S = copying_source [OF c s]
  have m1: "inv m1" "dest \<in> held m1" "dest \<in> live m1" "dest \<notin> set (frames m1 k child)"
      "set (frames m1 k child) \<subseteq> live m1"
    using b(1) S unfolding built_def by blast+
  note W = write_law [OF m1(1,2) i(1), of "relink e child", folded m2_def]
  have r: "tm_read tm m2 dest i = relink e child" using W m1(3) by simp
  have k: "tm_read tm m2 g j = tm_read tm m1 g j" if "g \<in> set (frames m1 k child)" for g j
    using W m1(4,5) that by auto
  have F: "sub_frames tm m2 (Suc k) dest i = frames m1 k child"
    using r relink_entry(1) [OF b(2)] relink_flags [OF b(2)] e tree_frames_cong [of tm m1 k child m2, OF k]
    by (simp add: sub_frames_def child_frames_def)
  have sub: "set (frames m0 k (e AND ADDRESS)) \<subseteq> live m0"
    using child_frames_subset [OF i(1), of tm m0 k source] s e S(1) by (simp add: child_frames_def)
  have v: "entry_view tm m2 (Suc k) dest i path = entry_view tm m0 (Suc k) source i path" if p: "\<And>l. path l < 512" for path
    using r relink_entry [OF b(2)] relink_flags [OF b(2)] e S(1) walk_path_cong [of tm m1 k child m2 path, OF k p]
      w [OF p] kept_walk [OF S(4) sub p]
    by (simp add: entry_view_def Let_def)
  have h: "hung m m1 (frames m1 k child)" using b(1) by (simp add: built_hung)
  show "copying m0 (Suc k) source dest is m2"
    "length (frames m2 (Suc k) dest) = length (frames m (Suc k) dest) + length (frames m1 k child)"
    using copying_write [OF c i h F [unfolded m2_def] v [unfolded m2_def]] by (simp_all add: m2_def)
qed

text \<open>
  The outcome of \<open>clone_table\<close>: an error leaves nothing behind; a success is a tree of new tables through which
  every walk sees what it sees through the source.
\<close>

definition cloned :: "nat \<Rightarrow> nat \<Rightarrow> u64 \<Rightarrow> 'm clone_state \<Rightarrow> 'm clone_state \<times> (clone_error + u64) \<Rightarrow> bool" where
  "cloned limit k source st r = (case r of
     (st', Inl e) \<Rightarrow> ok (cs_mem st') \<longrightarrow> released (cs_mem st) (cs_mem st') {}
   | (st', Inr d) \<Rightarrow> built (cs_mem st) (cs_mem st') k d \<and> \<not> bad_frame d \<and>
       cs_count st' = cs_count st + length (frames (cs_mem st') k d) \<and> cs_count st' \<le> limit \<and>
       (\<forall>path. (\<forall>l. path l < 512) \<longrightarrow> walk_path tm (cs_mem st') k d path = walk_path tm (cs_mem st) k source path))"

definition looped :: "nat \<Rightarrow> 'm \<Rightarrow> nat \<Rightarrow> u64 \<Rightarrow> u64 \<Rightarrow> nat \<Rightarrow> 'm clone_state \<times> (clone_error + unit) \<Rightarrow> bool" where
  "looped limit m0 k source dest c r = (case r of
     (st', Inl e) \<Rightarrow> ok (cs_mem st') \<longrightarrow> built m0 (cs_mem st') k dest
   | (st', Inr _) \<Rightarrow> copying m0 k source dest [] (cs_mem st') \<and>
       cs_count st' = c + length (frames (cs_mem st') k dest) \<and> cs_count st' \<le> limit)"

lemma built_released:
  assumes "built m0 m k dest" and "released m m' {}"
  shows "built m0 m' k dest"
proof -
  have "frames m' k dest = frames m k dest"
    by (rule tree_frames_cong) (use assms in \<open>auto simp: built_def released_def\<close>)
  then show ?thesis using assms by (auto simp: built_def released_def kept_def)
qed

lemma clone_loop_law:
  assumes tree: "\<And>l s st. \<lbrakk>k = Suc l; inv (cs_mem st); set (frames (cs_mem st) l s) \<subseteq> live (cs_mem st);
      cs_count st \<le> limit\<rbrakk> \<Longrightarrow> cloned limit l s st (clone_table tm limit l s st)"
    and src: "set (frames m0 k source) \<subseteq> live m0"
    and "copying m0 k source dest is (cs_mem st)" and "distinct is" and "set is \<subseteq> {..<512}"
    and "cs_count st = c + length (frames (cs_mem st) k dest)" and "cs_count st \<le> limit"
  shows "looped limit m0 k source dest c (clone_loop tm limit k source dest is st)"
  using assms(3-)
proof (induction "is" arbitrary: st)
  case Nil
  then show ?case by (simp add: looped_def)
next
  case (Cons i "is")
  let ?m = "cs_mem st"
  define e where "e = tm_read tm ?m source i"
  have i: "i < 512" "i \<notin> set is" "set is \<subseteq> {..<512}" "distinct is" using Cons.prems by auto
  note S = copying_source [OF Cons.prems(1) src]
  have b: "built m0 ?m k dest" using Cons.prems(1) by (simp add: copying_def)
  show ?case
  proof (cases "0 < k \<and> present e \<and> \<not> huge e")
    case False
    note L = copying_leaf [OF Cons.prems(1) i(1-3) src e_def False]
    have "looped limit m0 k source dest c (clone_loop tm limit k source dest is (st\<lparr>cs_mem := tm_write tm ?m dest i e\<rparr>))"
      by (rule Cons.IH) (use L i Cons.prems in simp_all)
    then show ?thesis using False b
      by (auto simp: clone_loop.simps(2) Let_def e_def [symmetric] looped_def)
  next
    case True
    then obtain l where k: "k = Suc l" by (cases k) auto
    obtain st' r where T: "clone_table tm limit l (e AND ADDRESS) st = (st', r)" by fastforce
    have "set (frames m0 l (e AND ADDRESS)) \<subseteq> live m0"
      using child_frames_subset [OF i(1), of tm m0 l source] src True S(1) by (simp add: child_frames_def e_def k)
    moreover have "frames ?m l (e AND ADDRESS) = frames m0 l (e AND ADDRESS)"
      by (rule kept_frames [OF S(4)]) (fact calculation)
    ultimately have "set (frames ?m l (e AND ADDRESS)) \<subseteq> live ?m" using S(4) by (auto simp: kept_def)
    from tree [OF k S(3) this Cons.prems(5)] have C: "cloned limit l (e AND ADDRESS) st (st', r)" by (simp add: T)
    show ?thesis
    proof (cases r)
      case (Inl x)
      then show ?thesis using C T True k built_released [OF b]
        by (simp add: clone_loop.simps(2) Let_def e_def [symmetric] looped_def cloned_def)
    next
      case (Inr child)
      note P = C [unfolded cloned_def Inr, simplified]
      note L = copying_child [OF Cons.prems(1) [unfolded k] i(1-3) src [unfolded k] e_def, of "cs_mem st'" child]
      let ?st = "st'\<lparr>cs_mem := tm_write tm (cs_mem st') dest i (relink e child)\<rparr>"
      have "looped limit m0 k source dest c (clone_loop tm limit k source dest is ?st)"
        by (rule Cons.IH) (use L P True i Cons.prems in \<open>simp_all add: k\<close>)
      then show ?thesis using T True k Inr
        by (simp add: clone_loop.simps(2) Let_def e_def [symmetric] relink_def)
    qed
  qed
qed

lemma copying_start:
  assumes "inv m" and "tm_allocate tm m = (m1, Some dest)"
  defines "m2 \<equiv> clear_table tm dest [0..<512] m1"
  shows "copying m k source dest [0..<512] m2" and "frames m2 k dest = [dest]"
proof -
  note A = allocate_some [OF assms(1,2)]
  have "dest \<in> held m1" "set [0..<512] \<subseteq> {..<512}" using A by auto
  note C = clear_table_law [OF conjunct1 [OF A] this, folded m2_def]
  have z: "tm_read tm m2 dest i = 0" if "i < 512" for i using C A that by simp
  have "map (sub_frames tm m2 k dest) [0..<512] = map (\<lambda>i. []) [0..<512]"
    by (rule map_cong) (use z in \<open>simp_all add: sub_frames_def child_frames_def present_def\<close>)
  then show F: "frames m2 k dest = [dest]" unfolding tree_frames_sub by (simp add: map_replicate_const)
  have "kept m m2" using A C by (auto simp: kept_def)
  then show "copying m k source dest [0..<512] m2" using A C z by (simp add: copying_def built_def F)
qed

lemma undo_allocate:
  assumes "inv m" and "tm_allocate tm m = (m1, Some dest)"
    and "ok (tm_release tm m1 dest)"
  shows "released m (tm_release tm m1 dest) {}"
proof -
  note A = allocate_some [OF assms(1,2)]
  have "dest \<notin> held m" using A held_live [OF assms(1)] by auto
  then show ?thesis using A release_law [of m1 dest] assms(3) by (auto simp: released_def)
qed

lemma undo_built:
  assumes "built m m' k dest" and "inv m" and "ok (release_tree tm k dest m')"
  shows "released m (release_tree tm k dest m') {}"
proof -
  have R: "released m' (release_tree tm k dest m') (set (frames m' k dest))"
    by (rule release_tree_law) (use assms(1,3) in \<open>auto simp: built_def\<close>)
  have "live m' - set (frames m' k dest) = live m" "held m' - set (frames m' k dest) = held m"
    using assms(1) held_live [OF assms(2)] unfolding built_def by blast+
  then show ?thesis using R assms(1) by (simp add: released_def built_def kept_def)
qed

lemma clone_table_law:
  "\<lbrakk>inv (cs_mem st); set (frames (cs_mem st) k source) \<subseteq> live (cs_mem st); cs_count st \<le> limit\<rbrakk> \<Longrightarrow>
   cloned limit k source st (clone_table tm limit k source st)"
proof (induction k arbitrary: source st rule: less_induct)
  case (less k)
  let ?m = "cs_mem st"
  obtain m1 a where A: "tm_allocate tm ?m = (m1, a)" by fastforce
  show ?case
  proof (cases "bad_frame source \<or> source \<in> set (take (3 - k) (cs_ancestors st)) \<or> cs_count st = limit")
    case True
    then show ?thesis using less.prems by (auto simp: clone_table.simps Let_def cloned_def)
  next
    case ok: False
    show ?thesis
    proof (cases a)
      case None
      then show ?thesis using ok A allocate_none [OF less.prems(1)] less.prems
        by (simp add: clone_table.simps Let_def cloned_def)
    next
      case (Some dest)
      note A = A [unfolded Some]
      show ?thesis
      proof (cases "bad_frame dest")
        case True
        then show ?thesis using ok A undo_allocate [OF less.prems(1) A]
          by (simp add: clone_table.simps Let_def cloned_def)
      next
        case False
        note B = copying_start [OF less.prems(1) A, of k]
        let ?st = "st\<lparr>cs_ancestors := (cs_ancestors st)[3 - k := source], cs_count := cs_count st + 1,
          cs_mem := clear_table tm dest [0..<512] m1\<rparr>"
        obtain st' r where R: "clone_loop tm limit k source dest [0..<512] ?st = (st', r)" by fastforce
        have "looped limit ?m k source dest (cs_count st) (clone_loop tm limit k source dest [0..<512] ?st)"
          by (rule clone_loop_law [OF less.IH less.prems(2)]) (use B less.prems ok in auto)
        then have L: "looped limit ?m k source dest (cs_count st) (st', r)" by (simp only: R)
        have T: "clone_table tm limit k source st = (case r of
            Inl e \<Rightarrow> (st'\<lparr>cs_mem := release_tree tm k dest (cs_mem st')\<rparr>, Inl e) | Inr _ \<Rightarrow> (st', Inr dest))"
          using ok A False R by (simp add: clone_table.simps Let_def)
        show ?thesis
          using L undo_built [OF _ less.prems(1), of "cs_mem st'" k dest] ok_release_tree [of k dest "cs_mem st'"] False
          by (cases r) (auto simp: T looped_def cloned_def copying_def walk_entry)
      qed
    qed
  qed
qed

text \<open>The theorem for \<open>clone_root\<close>.\<close>

theorem clone_root_law:
  assumes "inv m" and "set (frames m 3 source) \<subseteq> live m" and "clone_root tm limit source m = (m', r)"
  shows "case r of
     Inl e \<Rightarrow> ok m' \<longrightarrow> released m m' {}
   | Inr root \<Rightarrow> built m m' 3 (or_physical root) \<and> \<not> bad_frame (or_physical root) \<and> or_table_frames root = length (frames m' 3 (or_physical root)) \<and>
       or_table_frames root \<le> limit \<and>
       (\<forall>path. (\<forall>l. path l < 512) \<longrightarrow> walk_path tm m' 3 (or_physical root) path = walk_path tm m 3 source path)"
proof -
  let ?st = "\<lparr>cs_mem = m, cs_ancestors = [0, 0, 0, 0], cs_count = 0\<rparr>"
  have "cloned limit 3 source ?st (clone_table tm limit 3 source ?st)"
    by (rule clone_table_law) (use assms in simp_all)
  then show ?thesis using assms(3)
    by (auto simp: clone_root_def cloned_def split: prod.splits sum.splits)
qed

end

text \<open>A memory that knows how many tables it can still hand out.\<close>

locale table_memory_room = table_memory +
  fixes room :: "'a \<Rightarrow> nat"
  assumes allocate_room: "\<lbrakk>inv m; 0 < room m\<rbrakk> \<Longrightarrow>
      \<exists>m' f. tm_allocate tm m = (m', Some f) \<and> \<not> bad_frame f \<and> room m' = room m - 1"
    and write_room: "\<lbrakk>inv m; f \<in> held m; i < 512\<rbrakk> \<Longrightarrow> room (tm_write tm m f i e) = room m"
begin

lemma clear_table_room:
  assumes "inv m" and "f \<in> held m" and "set is \<subseteq> {..<512}"
  shows "room (clear_table tm f is m) = room m"
  using assms
proof (induction "is" arbitrary: m)
  case (Cons i "is")
  then show ?case using write_law [of m f i 0] write_room [of m f i 0] by simp
qed simp

text \<open>The loop, given that the tables below can be cloned.\<close>

lemma clone_loop_succeeds:
  assumes tree: "\<And>l s st. \<lbrakk>k = Suc l; inv (cs_mem st); set (frames (cs_mem st) l s) \<subseteq> live (cs_mem st);
      clonable tm (cs_mem st) l s (take (3 - l) (cs_ancestors st)); length (cs_ancestors st) = 4;
      cs_count st + length (frames (cs_mem st) l s) \<le> limit; length (frames (cs_mem st) l s) \<le> room (cs_mem st)\<rbrakk> \<Longrightarrow>
      \<exists>st' d. clone_table tm limit l s st = (st', Inr d) \<and>
        cs_count st' = cs_count st + length (frames (cs_mem st) l s) \<and>
        room (cs_mem st') = room (cs_mem st) - length (frames (cs_mem st) l s) \<and>
        length (cs_ancestors st') = 4 \<and> take (3 - l) (cs_ancestors st') = take (3 - l) (cs_ancestors st)"
    and src: "set (frames m0 k source) \<subseteq> live m0" and k3: "k \<le> 3"
    and "copying m0 k source dest is (cs_mem st)" and "distinct is" and "set is \<subseteq> {..<512}"
    and "\<forall>i\<in>set is. entry_clonable tm m0 k source (take (4 - k) (cs_ancestors st)) i" and "length (cs_ancestors st) = 4"
    and "cs_count st + length (concat (map (sub_frames tm m0 k source) is)) \<le> limit"
    and "length (concat (map (sub_frames tm m0 k source) is)) \<le> room (cs_mem st)"
  shows "\<exists>st'. clone_loop tm limit k source dest is st = (st', Inr ()) \<and>
    cs_count st' = cs_count st + length (concat (map (sub_frames tm m0 k source) is)) \<and>
    room (cs_mem st') = room (cs_mem st) - length (concat (map (sub_frames tm m0 k source) is)) \<and>
    length (cs_ancestors st') = 4 \<and> take (4 - k) (cs_ancestors st') = take (4 - k) (cs_ancestors st)"
  using assms(4-)
proof (induction "is" arbitrary: st)
  case (Cons i "is")
  let ?m = "cs_mem st" and ?F = "sub_frames tm m0 k source"
  define e where "e = tm_read tm ?m source i"
  have i: "i < 512" "i \<notin> set is" "set is \<subseteq> {..<512}" "distinct is" using Cons.prems by auto
  note S = copying_source [OF Cons.prems(1) src]
  have e0: "tm_read tm m0 source i = e" by (simp add: e_def S(1))
  have E: "entry_clonable tm m0 k source (take (4 - k) (cs_ancestors st)) i" using Cons.prems(4) by simp
  show ?case
  proof (cases "0 < k \<and> present e \<and> \<not> huge e")
    case False
    note L = copying_leaf [OF Cons.prems(1) i(1-3) src e_def False]
    let ?st = "st\<lparr>cs_mem := tm_write tm ?m dest i e\<rparr>"
    have F: "?F i = []" using False by (auto simp: sub_frames_def child_frames_def e0)
    have C: "clone_loop tm limit k source dest (i # is) st = clone_loop tm limit k source dest is ?st"
      using False E by (auto simp: clone_loop.simps(2) Let_def e_def [symmetric] entry_clonable_def e0)
    note IH = Cons.IH [of ?st]
    show ?thesis unfolding C using IH L i Cons.prems F write_room [OF S(3,2) i(1)] by simp
  next
    case True
    then obtain l where k: "k = Suc l" by (cases k) auto
    let ?a = "e AND ADDRESS"
    have s0: "set (frames m0 l ?a) \<subseteq> live m0"
      using child_frames_subset [OF i(1), of tm m0 l source] src True by (simp add: child_frames_def e0 k)
    have fm: "frames ?m l ?a = frames m0 l ?a" by (rule kept_frames [OF S(4) s0])
    have F: "?F i = frames m0 l ?a" using True by (simp add: sub_frames_def child_frames_def e0 k)
    have "clonable tm m0 l ?a (take (3 - l) (cs_ancestors st))" using E True by (simp add: entry_clonable_def e0 k)
    then have cl: "clonable tm ?m l ?a (take (3 - l) (cs_ancestors st))"
      using kept_clonable [OF S(4) s0] by simp
    have sl: "set (frames ?m l ?a) \<subseteq> live ?m" using fm s0 S(4) by (auto simp: kept_def)
    from tree [OF k S(3) sl cl Cons.prems(5)] obtain st' child where
      T: "clone_table tm limit l ?a st = (st', Inr child)" "cs_count st' = cs_count st + length (?F i)"
        "room (cs_mem st') = room ?m - length (?F i)" "length (cs_ancestors st') = 4"
        "take (3 - l) (cs_ancestors st') = take (3 - l) (cs_ancestors st)"
      using Cons.prems(6,7) F fm by auto
    have "cloned limit l ?a st (clone_table tm limit l ?a st)"
      by (rule clone_table_law) (use S(3) sl Cons.prems(6) in simp_all)
    note P = this [unfolded T(1) cloned_def, simplified]
    have m1: "inv (cs_mem st')" "dest \<in> held (cs_mem st')" using P S(2) by (auto simp: built_def)
    note L = copying_child [OF Cons.prems(1) [unfolded k] i(1-3) src [unfolded k] e_def, of "cs_mem st'" child]
    let ?st = "st'\<lparr>cs_mem := tm_write tm (cs_mem st') dest i (relink e child)\<rparr>"
    have C: "clone_loop tm limit k source dest (i # is) st = clone_loop tm limit k source dest is ?st"
      using True T(1) k by (simp add: clone_loop.simps(2) Let_def e_def [symmetric] relink_def)
    have R: "length (concat (map ?F is)) \<le> room ?m - length (?F i)" using Cons.prems(7) by simp
    have "\<exists>st''. clone_loop tm limit k source dest is ?st = (st'', Inr ()) \<and>
        cs_count st'' = cs_count ?st + length (concat (map ?F is)) \<and>
        room (cs_mem st'') = room (cs_mem ?st) - length (concat (map ?F is)) \<and>
        length (cs_ancestors st'') = 4 \<and> take (4 - k) (cs_ancestors st'') = take (4 - k) (cs_ancestors ?st)"
      by (rule Cons.IH) (use L P True i Cons.prems(4-6) T(2-5) R write_room [OF m1 i(1)] in \<open>simp_all add: k\<close>)
    then show ?thesis unfolding C using T(2-5) write_room [OF m1 i(1)] by (simp add: k add.assoc)
  qed
qed simp

lemma ancestors_update:
  assumes "length a = 4" and "k \<le> 3"
  shows "take (4 - k) (a[3 - k := x]) = take (3 - k) a @ [x]"
proof -
  have "4 - k = Suc (3 - k)" using assms(2) by simp
  then show ?thesis using assms(1) by (simp add: take_Suc_conv_app_nth)
qed

lemma clone_table_succeeds:
  "\<lbrakk>inv (cs_mem st); set (frames (cs_mem st) k source) \<subseteq> live (cs_mem st); k \<le> 3;
    clonable tm (cs_mem st) k source (take (3 - k) (cs_ancestors st)); length (cs_ancestors st) = 4;
    cs_count st + length (frames (cs_mem st) k source) \<le> limit;
    length (frames (cs_mem st) k source) \<le> room (cs_mem st)\<rbrakk> \<Longrightarrow>
   \<exists>st' d. clone_table tm limit k source st = (st', Inr d) \<and>
     cs_count st' = cs_count st + length (frames (cs_mem st) k source) \<and>
     room (cs_mem st') = room (cs_mem st) - length (frames (cs_mem st) k source) \<and>
     length (cs_ancestors st') = 4 \<and> take (3 - k) (cs_ancestors st') = take (3 - k) (cs_ancestors st)"
proof (induction k arbitrary: source st rule: less_induct)
  case (less k)
  let ?m = "cs_mem st" and ?a = "cs_ancestors st"
  let ?C = "concat (map (sub_frames tm ?m k source) [0..<512])"
  have n: "length (frames ?m k source) = length ?C + 1" by (simp add: tree_frames_sub)
  have s: "\<not> bad_frame source" "source \<notin> set (take (3 - k) ?a)"
    "\<forall>i<512. entry_clonable tm ?m k source (take (3 - k) ?a @ [source]) i"
    using clonable_entries [THEN iffD1, OF less.prems(4)] by simp_all
  have "0 < room ?m" using less.prems(7) n by linarith
  then obtain m1 dest where A: "tm_allocate tm ?m = (m1, Some dest)" "\<not> bad_frame dest" "room m1 = room ?m - 1"
    using allocate_room [OF less.prems(1)] by blast
  note B = copying_start [OF less.prems(1) A(1), of k]
  note A' = allocate_some [OF less.prems(1) A(1)]
  have r: "room (clear_table tm dest [0..<512] m1) = room ?m - 1"
    using clear_table_room [of m1 dest "[0..<512]"] A' A(3) by (simp add: lessThan_atLeast0)
  let ?st = "st\<lparr>cs_ancestors := ?a[3 - k := source], cs_count := cs_count st + 1,
    cs_mem := clear_table tm dest [0..<512] m1\<rparr>"
  note U = ancestors_update [OF less.prems(5,3)]
  have "\<exists>st'. clone_loop tm limit k source dest [0..<512] ?st = (st', Inr ()) \<and>
      cs_count st' = cs_count ?st + length ?C \<and> room (cs_mem st') = room (cs_mem ?st) - length ?C \<and>
      length (cs_ancestors st') = 4 \<and> take (4 - k) (cs_ancestors st') = take (4 - k) (cs_ancestors ?st)"
  proof (rule clone_loop_succeeds [OF less.IH less.prems(2,3)])
    show "copying ?m k source dest [0..<512] (cs_mem ?st)" using B(1) by simp
    show "\<forall>i\<in>set [0..<512]. entry_clonable tm ?m k source (take (4 - k) (cs_ancestors ?st)) i"
      using s(3) U by simp
    show "cs_count ?st + length ?C \<le> limit" using less.prems(6) n by simp
    show "length ?C \<le> room (cs_mem ?st)" using less.prems(7) n r by simp
  qed (use less.prems in auto)
  then obtain st' where L: "clone_loop tm limit k source dest [0..<512] ?st = (st', Inr ())"
      "cs_count st' = cs_count st + 1 + length ?C" "room (cs_mem st') = room ?m - 1 - length ?C"
      "length (cs_ancestors st') = 4" "take (4 - k) (cs_ancestors st') = take (3 - k) ?a @ [source]"
    using r U by auto
  have "take (3 - k) (cs_ancestors st') = take (3 - k) (take (4 - k) (cs_ancestors st'))"
    by (simp add: min_def)
  also have "\<dots> = take (3 - k) ?a" using L(5) less.prems(5) by simp
  finally have T: "take (3 - k) (cs_ancestors st') = take (3 - k) ?a" .
  have c: "cs_count st \<noteq> limit" using less.prems(6) n by linarith
  have "clone_table tm limit k source st = (st', Inr dest)"
    using s(1,2) c A(1,2) L(1) by (simp add: clone_table.simps Let_def)
  then show ?case using L n T by simp
qed

theorem clone_root_succeeds:
  assumes "inv m" and "set (frames m 3 source) \<subseteq> live m" and "clonable tm m 3 source []"
    and "length (frames m 3 source) \<le> limit" and "length (frames m 3 source) \<le> room m"
  shows "\<exists>m' root. clone_root tm limit source m = (m', Inr root) \<and> or_table_frames root = length (frames m 3 source)"
  using clone_table_succeeds [of "\<lparr>cs_mem = m, cs_ancestors = [0, 0, 0, 0], cs_count = 0\<rparr>" 3 source limit] assms
  by (auto simp: clone_root_def)

end

end
