(* ===== verification/Boot_Tables.thy ===== *)
theory Boot_Tables
  imports Page_Tables Physical_Memory Byte_Fields
begin

text \<open>
  The table memory of the kernel, \<open>BootTables\<close> of \<open>kernel/src/arch/memory.rs\<close>: page tables live in frames of
  the physical memory manager and are reached through the direct map of the boot loader.
\<close>

section \<open>Bytes behind an address\<close>

type_synonym memory = "u64 \<Rightarrow> byte"

definition load_bytes :: "memory \<Rightarrow> u64 \<Rightarrow> nat \<Rightarrow> byte list" where
  "load_bytes mem p n = map (\<lambda>j. mem (p + of_nat j)) [0..<n]"

definition store_bytes :: "memory \<Rightarrow> u64 \<Rightarrow> byte list \<Rightarrow> memory" where
  "store_bytes mem p bs = (\<lambda>w. if unat (w - p) < length bs then bs ! unat (w - p) else mem w)"

lemma load_store_same: "length bs < 2 ^ 64 \<Longrightarrow> load_bytes (store_bytes mem p bs) p (length bs) = bs"
  by (rule nth_equalityI) (simp_all add: load_bytes_def store_bytes_def unat_of_nat)

lemma load_store_other:
  "(\<And>j. j < n \<Longrightarrow> length bs \<le> unat (q + of_nat j - p)) \<Longrightarrow>
   load_bytes (store_bytes mem p bs) q n = load_bytes mem q n"
  by (simp add: load_bytes_def store_bytes_def not_less [symmetric])

section \<open>The code\<close>

text \<open>
  \<open>bt_bytes\<close> is the memory behind the direct map, by virtual address. \<open>bt_panicked\<close> records a failed
  \<open>expect\<close>. The parameter \<open>virt_ok\<close> tells which addresses \<open>VirtAddr::new\<close> accepts without a panic.
\<close>

record boot_tables =
  bt_offset :: u64
  bt_pmm :: physical_memory
  bt_bytes :: memory
  bt_panicked :: bool

definition bt_address :: "(u64 \<Rightarrow> bool) \<Rightarrow> boot_tables \<Rightarrow> u64 \<Rightarrow> u64 option" where
  "bt_address virt_ok t physical =
     (case checked_add (bt_offset t) physical of
        None \<Rightarrow> None
      | Some address \<Rightarrow> if virt_ok address then Some address else None)"

definition bt_pointer :: "(u64 \<Rightarrow> bool) \<Rightarrow> boot_tables \<Rightarrow> u64 \<Rightarrow> nat \<Rightarrow> u64 option" where
  "bt_pointer virt_ok t physical index =
     (if index < 512 then map_option (\<lambda>address. address + 8 * of_nat index) (bt_address virt_ok t physical)
      else None)"

definition zero_physical_frame :: "(u64 \<Rightarrow> bool) \<Rightarrow> boot_tables \<Rightarrow> u64 \<Rightarrow> boot_tables" where
  "zero_physical_frame virt_ok t physical =
     (case bt_address virt_ok t physical of
        None \<Rightarrow> t\<lparr>bt_panicked := True\<rparr>
      | Some ptr \<Rightarrow> t\<lparr>bt_bytes := store_bytes (bt_bytes t) ptr (replicate 4096 0)\<rparr>)"

definition bt_allocate :: "(u64 \<Rightarrow> bool) \<Rightarrow> boot_tables \<Rightarrow> boot_tables \<times> u64 option" where
  "bt_allocate virt_ok t =
     (case allocate_frame (bt_pmm t) of
        (pmm, Inr (Some frame)) \<Rightarrow> (zero_physical_frame virt_ok (t\<lparr>bt_pmm := pmm\<rparr>) frame, Some frame)
      | (pmm, _) \<Rightarrow> (t\<lparr>bt_pmm := pmm\<rparr>, None))"

definition bt_release :: "boot_tables \<Rightarrow> u64 \<Rightarrow> boot_tables" where
  "bt_release t frame =
     (case free_pages (bt_pmm t) frame 1 of
        (pmm, Inr _) \<Rightarrow> t\<lparr>bt_pmm := pmm\<rparr>
      | (pmm, Inl _) \<Rightarrow> t\<lparr>bt_pmm := pmm, bt_panicked := True\<rparr>)"

definition bt_read :: "(u64 \<Rightarrow> bool) \<Rightarrow> boot_tables \<Rightarrow> u64 \<Rightarrow> nat \<Rightarrow> u64" where
  "bt_read virt_ok t frame index =
     (case bt_pointer virt_ok t frame index of None \<Rightarrow> 0 | Some p \<Rightarrow> le_word (load_bytes (bt_bytes t) p 8))"

definition bt_write :: "(u64 \<Rightarrow> bool) \<Rightarrow> boot_tables \<Rightarrow> u64 \<Rightarrow> nat \<Rightarrow> u64 \<Rightarrow> boot_tables" where
  "bt_write virt_ok t frame index entry =
     (case bt_pointer virt_ok t frame index of
        None \<Rightarrow> t\<lparr>bt_panicked := True\<rparr>
      | Some p \<Rightarrow> t\<lparr>bt_bytes := store_bytes (bt_bytes t) p (le_bytes 8 (unat entry))\<rparr>)"

definition boot_ops :: "(u64 \<Rightarrow> bool) \<Rightarrow> boot_tables table_ops" where
  "boot_ops virt_ok = \<lparr>tm_allocate = bt_allocate virt_ok, tm_release = bt_release,
     tm_read = bt_read virt_ok, tm_write = bt_write virt_ok\<rparr>"

lemma boot_ops_simps [simp]:
  "tm_allocate (boot_ops virt_ok) = bt_allocate virt_ok" "tm_release (boot_ops virt_ok) = bt_release"
  "tm_read (boot_ops virt_ok) = bt_read virt_ok" "tm_write (boot_ops virt_ok) = bt_write virt_ok"
  by (simp_all add: boot_ops_def)

section \<open>The contract\<close>

text \<open>
  A page in use is one that the direct map reaches and the manager does not have; the manager's own pages
  are held. The boot loader maps all memory that the manager has; physical addresses have 52 bits.
\<close>

definition reachable :: "(u64 \<Rightarrow> bool) \<Rightarrow> boot_tables \<Rightarrow> u64 \<Rightarrow> bool" where
  "reachable virt_ok t f \<longleftrightarrow> 4096 dvd unat f \<and> bt_address virt_ok t f \<noteq> None"

definition bt_live :: "(u64 \<Rightarrow> bool) \<Rightarrow> boot_tables \<Rightarrow> u64 set" where
  "bt_live virt_ok t = {f. reachable virt_ok t f \<and> block f 1 \<inter> free_addrs (bt_pmm t) = {}}"

definition bt_held :: "(u64 \<Rightarrow> bool) \<Rightarrow> boot_tables \<Rightarrow> u64 set" where
  "bt_held virt_ok t = {f \<in> bt_live virt_ok t. block f 1 \<subseteq> addrs (managed_list (bt_pmm t))}"

definition bt_inv :: "(u64 \<Rightarrow> bool) \<Rightarrow> boot_tables \<Rightarrow> bool" where
  "bt_inv virt_ok t \<longleftrightarrow> pm_inv (bt_pmm t) \<and> \<not> bt_panicked t \<and>
     (\<forall>f. 4096 dvd unat f \<and> unat f \<in> addrs (managed_list (bt_pmm t)) \<longrightarrow>
        bt_address virt_ok t f \<noteq> None \<and> unat f < 2 ^ 52)"

lemma page_parts:
  fixes f g a b :: u64
  assumes "4096 dvd unat f" "4096 dvd unat g" "unat a < 4096" "unat b < 4096" "f + a = g + b"
  shows "f = g \<and> a = b"
proof -
  have "unat (x + y) = unat x + unat y" if x: "4096 dvd unat x" and y: "unat y < 4096" for x y :: u64
  proof -
    obtain n where n: "unat x = 4096 * n" using x by (elim dvdE)
    then have "n < 2 ^ 52" using unat_below [of x] by simp
    then have "unat x + unat y < 2 ^ 64" using n y by simp
    then show ?thesis by (simp add: unat_word_ariths)
  qed
  from this [OF assms(1,3)] this [OF assms(2,4)] have "unat f + unat a = unat g + unat b" using assms(5) by simp
  moreover have "(unat f + unat a) div 4096 = unat f div 4096" "(unat g + unat b) div 4096 = unat g div 4096"
    using assms(1-4) by (simp_all add: div_plus_div_distrib_dvd_left)
  ultimately have "unat f = unat g" using assms(1,2) by (metis dvd_div_eq_iff)
  then have "f = g" by (simp add: word_unat_eq_iff)
  then show ?thesis using assms(5) by simp
qed

lemma word_offset: "i < 512 \<Longrightarrow> unat (8 * of_nat i :: u64) = 8 * i"
  by (simp add: unat_word_ariths unat_of_nat)

lemma page_offset:
  fixes off f g :: u64
  assumes "4096 dvd unat f" "4096 dvd unat g" "a < 4096" "b < 4096" "off + f + of_nat a = off + g + of_nat b"
  shows "f = g \<and> a = b"
proof -
  have u: "unat (of_nat n :: u64) = n" if "n < 4096" for n using that by (simp add: unat_of_nat)
  have "f + of_nat a = g + of_nat b" using assms(5) by (simp add: add.assoc)
  then have "f = g \<and> (of_nat a :: u64) = of_nat b" using assms(1-4) by (intro page_parts) (simp_all add: u)
  then show ?thesis using u assms(3,4) by metis
qed

text \<open>Words and pages of different tables do not overlap.\<close>

lemma table_word:
  fixes off f g :: u64
  assumes "4096 dvd unat f" "4096 dvd unat g" "i < 512" "j < 512" "g \<noteq> f \<or> j \<noteq> i" "a < 8"
  shows "8 \<le> unat (off + g + 8 * of_nat j + of_nat a - (off + f + 8 * of_nat i))"
proof (rule ccontr)
  define d where "d = off + g + 8 * of_nat j + of_nat a - (off + f + 8 * of_nat i)"
  define b where "b = unat d"
  assume "\<not> 8 \<le> unat (off + g + 8 * of_nat j + of_nat a - (off + f + 8 * of_nat i))"
  then have b: "b < 8" "d = of_nat b" by (simp_all only: not_le b_def d_def [symmetric]) simp
  have "off + g + 8 * of_nat j + of_nat a = off + f + 8 * of_nat i + of_nat b" using b(2) by (simp add: d_def algebra_simps)
  then have "off + g + of_nat (8 * j + a) = off + f + of_nat (8 * i + b)" by (simp add: algebra_simps)
  from page_offset [OF assms(2,1) _ _ this] show False using assms(3-6) b(1) by auto
qed

lemma table_page:
  fixes off f g :: u64
  assumes "4096 dvd unat f" "4096 dvd unat g" "j < 512" "g \<noteq> f" "a < 8"
  shows "4096 \<le> unat (off + g + 8 * of_nat j + of_nat a - (off + f))"
proof (rule ccontr)
  define d where "d = off + g + 8 * of_nat j + of_nat a - (off + f)"
  define b where "b = unat d"
  assume "\<not> 4096 \<le> unat (off + g + 8 * of_nat j + of_nat a - (off + f))"
  then have b: "b < 4096" "d = of_nat b" by (simp_all only: not_le b_def d_def [symmetric]) simp
  have "off + g + of_nat (8 * j + a) = off + f + of_nat b" using b(2) by (simp add: d_def algebra_simps)
  from page_offset [OF assms(2,1) _ _ this] show False using assms(3-5) b(1) by auto
qed

lemma bt_address_Some: "bt_address virt_ok t f = Some p \<Longrightarrow> p = bt_offset t + f"
  by (auto simp: bt_address_def checked_add_def split: if_splits)

lemma bt_address_cong [simp]:
  "bt_address virt_ok (t\<lparr>bt_pmm := x\<rparr>) = bt_address virt_ok t"
  "bt_address virt_ok (t\<lparr>bt_bytes := y\<rparr>) = bt_address virt_ok t"
  "bt_address virt_ok (t\<lparr>bt_panicked := z\<rparr>) = bt_address virt_ok t"
  by (simp_all add: bt_address_def fun_eq_iff)

lemma bt_read_reachable:
  assumes "reachable virt_ok t f"
  shows "bt_read virt_ok t f i = (if i < 512 then le_word (load_bytes (bt_bytes t) (bt_offset t + f + 8 * of_nat i) 8) else 0)"
  using assms by (auto simp: reachable_def bt_read_def bt_pointer_def dest: bt_address_Some)

lemma reachable_cong [simp]:
  "reachable virt_ok (t\<lparr>bt_pmm := x\<rparr>) = reachable virt_ok t"
  "reachable virt_ok (t\<lparr>bt_bytes := y\<rparr>) = reachable virt_ok t"
  by (simp_all add: reachable_def fun_eq_iff)

lemma blocks_meet:
  assumes "4096 dvd unat f" "4096 dvd unat g" "block f 1 \<inter> block g 1 \<noteq> {}"
  shows "f = g"
proof -
  obtain m n where "unat f = 4096 * m" "unat g = 4096 * n" using assms(1,2) by (elim dvdE)
  then have "m = n" using assms(3) by (auto simp: block_def)
  then show ?thesis using \<open>unat f = 4096 * m\<close> \<open>unat g = 4096 * n\<close> by (simp add: word_unat_eq_iff)
qed

lemma write_words:
  assumes "reachable virt_ok t f" "reachable virt_ok t g" "i < 512"
  shows "bt_read virt_ok (bt_write virt_ok t f i e) g j = (if g = f \<and> j = i then e else bt_read virt_ok t g j)"
proof -
  obtain p where p: "bt_address virt_ok t f = Some p" using assms(1) by (auto simp: reachable_def)
  let ?p = "\<lambda>f i. bt_offset t + f + 8 * of_nat i" and ?b = "le_bytes 8 (unat e)"
  have w: "bt_write virt_ok t f i e = t\<lparr>bt_bytes := store_bytes (bt_bytes t) (?p f i) ?b\<rparr>"
    using p bt_address_Some [OF p] assms(3) by (simp add: bt_write_def bt_pointer_def)
  have r: "reachable virt_ok (bt_write virt_ok t f i e) g" using assms(2) by (simp add: w)
  have same: "load_bytes (store_bytes (bt_bytes t) (?p f i) ?b) (?p f i) 8 = ?b"
    using load_store_same [of ?b] by simp
  have "load_bytes (store_bytes (bt_bytes t) (?p f i) ?b) (?p g j) 8 = load_bytes (bt_bytes t) (?p g j) 8"
    if "j < 512" "g \<noteq> f \<or> j \<noteq> i"
    by (rule load_store_other, unfold length_le_bytes, rule table_word)
      (use assms that in \<open>simp_all add: reachable_def\<close>)
  then show ?thesis
    using assms same unfolding bt_read_reachable [OF r] bt_read_reachable [OF assms(2)] by (auto simp: w le_word_le_bytes)
qed

text \<open>A single frame is refused only when nothing is free: taking the first page of a range never splits it.\<close>

lemma alloc_scan_no_capacity:
  assumes "page_aligned (free_list m)" and "\<forall>i\<in>set is. i < pm_free_len m" and "pm_free_len m \<le> length (pm_free m)"
  shows "snd (alloc_scan m PAGE_SIZE PAGE_SIZE is) \<noteq> Inl Capacity"
  using assms(2)
proof (induction "is")
  case (Cons i "is")
  let ?r = "pm_free m ! i"
  have i: "i < pm_free_len m" using Cons.prems by simp
  have "?r \<in> set (free_list m)" using i assms(3) nth_free_list [OF i] nth_mem [of i "free_list m"] by simp
  then have "4096 dvd lo ?r" using assms(1) by (simp add: page_aligned_def)
  then have s: "s = r_start ?r" if "align_up (r_start ?r) PAGE_SIZE = Some s" for s
    using that round_up_id [of 4096 "lo ?r"] by (simp add: align_up_eq_Some is_power_of_two_page word_unat_eq_iff)
  have n: "s = r_start ?r" if "candidate ?r PAGE_SIZE PAGE_SIZE = Some (s, e)" for s e
    using that s by (auto simp: candidate_def split: option.splits if_splits)
  show ?case
  proof (cases "candidate ?r PAGE_SIZE PAGE_SIZE")
    case None
    then show ?thesis using Cons by (simp add: alloc_scan_step del: alloc_scan.simps)
  next
    case (Some p)
    obtain s e where p: "p = (s, e)" by fastforce
    then show ?thesis using Some n
      by (auto simp: alloc_scan_step split_free_def simp del: alloc_scan.simps split: bool.splits prod.splits)
  qed
qed simp

lemma allocate_frame_cases:
  assumes "pm_inv p" and "allocate_frame p = (p', r)"
  obtains (none) "r = Inr None" "p' = p" "unat (pm_free_bytes p) = 0"
  | (some) f where "r = Inr (Some f)" "4096 dvd unat f" "block f 1 \<subseteq> free_addrs p" "free_addrs p' = free_addrs p - block f 1"
      "unat (pm_free_bytes p') + 4096 = unat (pm_free_bytes p)" "managed_list p' = managed_list p" "pm_inv p'"
proof -
  have pow: "is_power_of_two (1 :: u64)" by (auto simp: is_power_of_two_iff intro!: exI [of _ 0])
  have pg: "checked_mul 1 PAGE_SIZE = Some PAGE_SIZE" by (simp add: checked_mul_def PAGE_SIZE_def)
  have c: "r \<noteq> Inl Capacity"
    using alloc_scan_no_capacity [of p "[0..<pm_free_len p]"] assms pow pg
    by (auto simp: allocate_frame_def allocate_pages_def pm_inv_def)
  have z: "unat (pm_free_bytes p) = 0" if none: "\<forall>a. 4096 dvd a \<longrightarrow> \<not> {a..<a + 4096} \<subseteq> free_addrs p"
  proof (rule ccontr)
    assume "unat (pm_free_bytes p) \<noteq> 0"
    then have "free_list p \<noteq> []" using assms(1) by (auto simp: pm_inv_def bytes_def)
    then obtain q where q: "q \<in> set (free_list p)" by (meson ex_in_conv set_empty)
    have al: "4096 dvd lo q" "4096 dvd hi q" "lo q < hi q"
      using assms(1) q by (auto simp: pm_inv_def page_aligned_def wf_ranges_def)
    then have "lo q + 4096 \<le> hi q" by (metis dvd_imp_le dvd_minus_self le_diff_conv2 less_imp_le zero_less_diff add.commute dvd_diff_nat)
    then have "{lo q..<lo q + 4096} \<subseteq> free_addrs p" using q by (force simp: free_addrs_def addrs_def)
    then show False using none al(1) by blast
  qed
  from assms(1) have "allocate_pages p 1 1 = (p', r)" using assms(2) by (simp add: allocate_frame_def)
  from assms(1) this show ?thesis
  proof (cases rule: allocate_pages_cases)
    case none
    then show ?thesis using z that(1) by simp
  next
    case (some f)
    then show ?thesis using that(2) [of f] by simp
  qed (use pow c in simp_all)
qed

lemma good_frame:
  assumes "4096 dvd unat f" and "unat f < 2 ^ 52"
  shows "f AND NOT ADDRESS = 0"
proof -
  have A: "ADDRESS = mask 52 AND NOT (mask 12)" by (simp add: ADDRESS_def mask_eq_exp_minus_1)
  have t: "unat (take_bit n f) = unat f mod 2 ^ n" for n
    by (simp add: unsigned_take_bit_eq flip: take_bit_eq_mod)
  have "take_bit 52 f = f" using t [of 52] assms(2) by (simp add: word_unat_eq_iff)
  then have hi: "f AND NOT (mask 52) = 0" by (metis and_not_num.simps take_bit_eq_mask bit.conj_cancel_right and.assoc bit.conj_zero_right)
  have "take_bit 12 f = 0" using t [of 12] assms(1) by (simp add: word_unat_eq_iff dvd_eq_mod_eq_0)
  then have lo: "f AND mask 12 = 0" by (simp add: take_bit_eq_mask)
  show ?thesis unfolding A using hi lo by (simp add: bit.de_Morgan_conj bit.conj_disj_distrib)
qed

text \<open>The contract, operation by operation.\<close>

lemma allocate_contract:
  assumes inv: "bt_inv virt_ok t" and run: "bt_allocate virt_ok t = (t', Some f)"
  shows "bt_inv virt_ok t'" and "f \<notin> bt_live virt_ok t" and "bt_live virt_ok t' = insert f (bt_live virt_ok t)"
    and "bt_held virt_ok t' = insert f (bt_held virt_ok t)" and "\<not> bad_frame f"
    and "g \<in> bt_live virt_ok t \<Longrightarrow> bt_read virt_ok t' g i = bt_read virt_ok t g i"
    and "unat (pm_free_bytes (bt_pmm t')) + 4096 = unat (pm_free_bytes (bt_pmm t))"
proof -
  obtain p' r where A: "allocate_frame (bt_pmm t) = (p', r)" by fastforce
  have pm: "pm_inv (bt_pmm t)" using inv by (simp add: bt_inv_def)
  from pm A have "r = Inr (Some f) \<and> 4096 dvd unat f \<and> block f 1 \<subseteq> free_addrs (bt_pmm t) \<and>
      free_addrs p' = free_addrs (bt_pmm t) - block f 1 \<and> unat (pm_free_bytes p') + 4096 = unat (pm_free_bytes (bt_pmm t)) \<and>
      managed_list p' = managed_list (bt_pmm t) \<and> pm_inv p'"
    by (cases rule: allocate_frame_cases) (use run A in \<open>simp_all add: bt_allocate_def\<close>)
  then have r: "r = Inr (Some f)" and f: "4096 dvd unat f" "block f 1 \<subseteq> free_addrs (bt_pmm t)"
      "free_addrs p' = free_addrs (bt_pmm t) - block f 1" "managed_list p' = managed_list (bt_pmm t)" "pm_inv p'"
      "unat (pm_free_bytes p') + 4096 = unat (pm_free_bytes (bt_pmm t))" by simp_all
  have fb: "unat f \<in> block f 1" by (simp add: block_def)
  have fm: "block f 1 \<subseteq> addrs (managed_list (bt_pmm t))" using f(2) pm by (auto simp: pm_inv_def free_addrs_def)
  then have ad: "bt_address virt_ok t f \<noteq> None" "unat f < 2 ^ 52" using inv f(1) fb by (auto simp: bt_inv_def)
  then obtain ptr where ptr: "bt_address virt_ok t f = Some ptr" by blast
  have t': "t' = t\<lparr>bt_pmm := p', bt_bytes := store_bytes (bt_bytes t) (bt_offset t + f) (replicate 4096 0)\<rparr>"
    using run A r ptr bt_address_Some [OF ptr] by (simp add: bt_allocate_def zero_physical_frame_def)
  show inv': "bt_inv virt_ok t'" using inv f(4,5) by (simp add: bt_inv_def t')
  have meet: "block g 1 \<inter> free_addrs (bt_pmm t) \<noteq> {} \<longleftrightarrow> g = f \<or> block g 1 \<inter> free_addrs p' \<noteq> {}"
    if "4096 dvd unat g" for g
    using f(2,3) fb blocks_meet [OF that f(1)] by auto
  show nf: "f \<notin> bt_live virt_ok t" using f(2) fb by (auto simp: bt_live_def)
  have ff: "block f 1 \<inter> free_addrs p' = {}" using f(3) by blast
  show live: "bt_live virt_ok t' = insert f (bt_live virt_ok t)"
    using meet ff f(1) ad(1) by (auto simp: bt_live_def t' reachable_def)
  show "bt_held virt_ok t' = insert f (bt_held virt_ok t)"
    unfolding bt_held_def live using fm f(4) by (auto simp: t')
  have "unat f \<notin> {0..<4096}" using fm fb pm by (auto simp: pm_inv_def)
  then show "\<not> bad_frame f" using good_frame [OF f(1) ad(2)] by (auto simp: bad_frame_def)
  show "unat (pm_free_bytes (bt_pmm t')) + 4096 = unat (pm_free_bytes (bt_pmm t))" using f(6) by (simp add: t')
  show "bt_read virt_ok t' g i = bt_read virt_ok t g i" if g: "g \<in> bt_live virt_ok t"
  proof -
    have gr: "reachable virt_ok t g" "g \<noteq> f" using g nf by (auto simp: bt_live_def)
    then have "reachable virt_ok t' g" by (simp add: t')
    moreover have "load_bytes (bt_bytes t') (bt_offset t + g + 8 * of_nat i) 8 =
        load_bytes (bt_bytes t) (bt_offset t + g + 8 * of_nat i) 8" if "i < 512"
      unfolding t' by (simp, rule load_store_other, unfold length_replicate, rule table_page)
        (use gr f(1) that in \<open>simp_all add: reachable_def\<close>)
    ultimately show ?thesis using gr by (simp add: bt_read_reachable t')
  qed
qed

lemma allocate_none_contract:
  assumes "bt_inv virt_ok t" and "bt_allocate virt_ok t = (t', None)"
  shows "t' = t" and "unat (pm_free_bytes (bt_pmm t)) = 0"
proof -
  obtain p' r where A: "allocate_frame (bt_pmm t) = (p', r)" by fastforce
  have pm: "pm_inv (bt_pmm t)" using assms(1) by (simp add: bt_inv_def)
  from pm A show "t' = t" "unat (pm_free_bytes (bt_pmm t)) = 0"
    using assms(2) A by (cases rule: allocate_frame_cases; simp add: bt_allocate_def)+
qed

lemma release_contract:
  assumes inv: "bt_inv virt_ok t" and held: "f \<in> bt_held virt_ok t" and "ok": "\<not> bt_panicked (bt_release t f)"
  shows "bt_inv virt_ok (bt_release t f)" and "bt_live virt_ok (bt_release t f) = bt_live virt_ok t - {f}"
    and "bt_held virt_ok (bt_release t f) = bt_held virt_ok t - {f}"
    and "g \<in> bt_live virt_ok t - {f} \<Longrightarrow> bt_read virt_ok (bt_release t f) g i = bt_read virt_ok t g i"
proof -
  obtain p' r where A: "free_pages (bt_pmm t) f 1 = (p', r)" by fastforce
  have pm: "pm_inv (bt_pmm t)" using inv by (simp add: bt_inv_def)
  have fal: "4096 dvd unat f" using held by (simp add: bt_held_def bt_live_def reachable_def)
  from pm A have "r = Inr () \<and> free_addrs p' = free_addrs (bt_pmm t) \<union> block f 1 \<and>
      managed_list p' = managed_list (bt_pmm t) \<and> pm_inv p'"
    by (cases rule: free_pages_cases) (use "ok" A in \<open>simp_all add: bt_release_def\<close>)
  then have r: "r = Inr ()" and f: "free_addrs p' = free_addrs (bt_pmm t) \<union> block f 1"
    "managed_list p' = managed_list (bt_pmm t)" "pm_inv p'" by simp_all
  have t': "bt_release t f = t\<lparr>bt_pmm := p'\<rparr>" using A r by (simp add: bt_release_def)
  show "bt_inv virt_ok (bt_release t f)" using inv f by (simp add: bt_inv_def t')
  have meet: "block g 1 \<inter> free_addrs p' = {} \<longleftrightarrow> g \<noteq> f \<and> block g 1 \<inter> free_addrs (bt_pmm t) = {}"
    if "4096 dvd unat g" for g
  proof -
    have "block f 1 \<noteq> {}" by (simp add: block_nonempty)
    then show ?thesis using f(1) blocks_meet [OF that fal] by auto
  qed
  show live: "bt_live virt_ok (bt_release t f) = bt_live virt_ok t - {f}"
    using meet by (auto simp: bt_live_def t' reachable_def)
  show "bt_held virt_ok (bt_release t f) = bt_held virt_ok t - {f}"
    unfolding bt_held_def live using f(2) by (auto simp: t')
  show "bt_read virt_ok (bt_release t f) g i = bt_read virt_ok t g i" if "g \<in> bt_live virt_ok t - {f}"
    using that by (simp add: t' bt_read_reachable bt_live_def)
qed

lemma write_contract:
  assumes inv: "bt_inv virt_ok t" and held: "f \<in> bt_held virt_ok t" and i: "i < 512"
  shows "bt_inv virt_ok (bt_write virt_ok t f i e)" and "bt_live virt_ok (bt_write virt_ok t f i e) = bt_live virt_ok t"
    and "bt_held virt_ok (bt_write virt_ok t f i e) = bt_held virt_ok t"
    and "bt_pmm (bt_write virt_ok t f i e) = bt_pmm t"
proof -
  have "bt_address virt_ok t f \<noteq> None" using held by (simp add: bt_held_def bt_live_def reachable_def)
  then obtain w where w: "bt_write virt_ok t f i e = t\<lparr>bt_bytes := w\<rparr>" using i by (auto simp: bt_write_def bt_pointer_def)
  show "bt_inv virt_ok (bt_write virt_ok t f i e)" "bt_live virt_ok (bt_write virt_ok t f i e) = bt_live virt_ok t"
    "bt_held virt_ok (bt_write virt_ok t f i e) = bt_held virt_ok t" "bt_pmm (bt_write virt_ok t f i e) = bt_pmm t"
    using inv by (simp_all add: w bt_inv_def bt_live_def bt_held_def)
qed

definition bt_room :: "boot_tables \<Rightarrow> nat" where
  "bt_room t = unat (pm_free_bytes (bt_pmm t)) div 4096"

interpretation boot: table_memory_room "boot_ops virt_ok" "bt_inv virt_ok" "bt_live virt_ok" "bt_held virt_ok"
  "\<lambda>t. \<not> bt_panicked t" bt_room for virt_ok
proof (unfold_locales, goal_cases)
  case (1 m)
  then show ?case by (auto simp: bt_held_def)
next
  case (2 m m' f)
  then show ?case using allocate_contract [of virt_ok m m' f] by simp
next
  case (3 m m')
  then show ?case using allocate_none_contract [of virt_ok m m'] by simp
next
  case (4 m f)
  then show ?case by (auto simp: bt_release_def split: prod.splits sum.splits)
next
  case (5 m f)
  then show ?case using release_contract [of virt_ok m f] by simp
next
  case (6 m f i e)
  then show ?case using write_contract [of virt_ok m f i e] write_words [of virt_ok m f _ i e]
    by (auto simp: bt_held_def bt_live_def)
next
  case (7 m)
  obtain m' r where A: "bt_allocate virt_ok m = (m', r)" by fastforce
  have "0 < unat (pm_free_bytes (bt_pmm m))" using 7(2) by (cases "unat (pm_free_bytes (bt_pmm m)) = 0") (simp_all add: bt_room_def)
  then obtain f where f: "r = Some f" using A 7(1) allocate_none_contract [of virt_ok m m'] by (cases r) auto
  note C = allocate_contract [OF 7(1) A [unfolded f]]
  then show ?case using A f by (auto simp: bt_room_def C(7) [symmetric])
next
  case (8 m f i e)
  then show ?case using write_contract [of virt_ok m f i e] by (simp add: bt_room_def)
qed

end
