(* ===== verification/Address_Spaces.thy ===== *)
theory Address_Spaces
  imports Boot_Tables
begin

text \<open>
  Address spaces, \<open>kernel/src/arch/memory.rs\<close>: the transition from the tables of the boot loader to tables
  of the kernel, and the creation and activation of private page-table trees for processes.
\<close>

section \<open>The code\<close>

text \<open>The control registers that the code reads and writes.\<close>

record cpu =
  cpu_interrupts :: bool
  cr0_write_protect :: bool
  cr3_frame :: u64
  cr3_flags :: u64
  cr4_bits :: u64

definition L5_PAGING :: u64 where "L5_PAGING = push_bit 12 1"
definition PCID :: u64 where "PCID = push_bit 17 1"
definition PAGE_GLOBAL :: u64 where "PAGE_GLOBAL = push_bit 7 1"

definition TABLE_LIMIT :: nat where "TABLE_LIMIT = 16384"

text \<open>
  A failed assertion or \<open>expect\<close> is \<open>None\<close>. The parameter \<open>phys_ok\<close> tells for which addresses
  \<open>PhysFrame::from_start_address(PhysAddr::new(_))\<close> gives a frame.
\<close>

definition take_ownership ::
  "(u64 \<Rightarrow> bool) \<Rightarrow> (u64 \<Rightarrow> bool) \<Rightarrow> cpu \<Rightarrow> boot_tables \<Rightarrow> (cpu \<times> boot_tables) option" where
  "take_ownership virt_ok phys_ok c t =
     (if cpu_interrupts c then None
      else if cr4_bits c AND L5_PAGING \<noteq> 0 then None
      else if cr4_bits c AND PCID \<noteq> 0 then None
      else
        (let old_root = cr3_frame c; before = pm_free_bytes (bt_pmm t)
         in case clone_root (boot_ops virt_ok) TABLE_LIMIT old_root t of
              (t, Inl _) \<Rightarrow> None
            | (t, Inr owned) \<Rightarrow>
                (if bt_panicked t then None
                 else if before - pm_free_bytes (bt_pmm t) \<noteq> of_nat (or_table_frames owned) * PAGE_SIZE then None
                 else if or_physical owned = old_root then None
                 else if \<not> phys_ok (or_physical owned) then None
                 else
                   (let cr4 = cr4_bits c;
                        c = c\<lparr>cr4_bits := cr4 AND NOT PAGE_GLOBAL\<rparr>;
                        c = c\<lparr>cr3_frame := or_physical owned\<rparr>;
                        c = c\<lparr>cr4_bits := cr4\<rparr>;
                        c = c\<lparr>cr0_write_protect := True\<rparr>
                    in if cr3_frame c \<noteq> or_physical owned then None
                       else if \<not> cr0_write_protect c then None
                       else Some (c, t)))))"

record address_space =
  as_root :: u64

definition active_root :: "cpu \<Rightarrow> u64" where "active_root c = cr3_frame c"

definition create_user_address_space ::
  "(u64 \<Rightarrow> bool) \<Rightarrow> cpu \<Rightarrow> boot_tables \<Rightarrow> boot_tables \<times> (string + address_space)" where
  "create_user_address_space virt_ok c t =
     (let kernel_root = active_root c; before = pm_free_bytes (bt_pmm t)
      in case clone_root (boot_ops virt_ok) TABLE_LIMIT kernel_root t of
           (t, Inl _) \<Rightarrow> (t, Inl ''failed to clone process page-table tree'')
         | (t, Inr owned) \<Rightarrow>
             (case checked_sub before (pm_free_bytes (bt_pmm t)) of
                None \<Rightarrow> (t, Inl ''process page-table accounting underflow'')
              | Some consumed \<Rightarrow>
                  (if consumed \<noteq> of_nat (or_table_frames owned) * PAGE_SIZE
                   then (t, Inl ''process page-table accounting mismatch'')
                   else (t, Inr \<lparr>as_root = or_physical owned\<rparr>))))"

definition activate_address_space :: "(u64 \<Rightarrow> bool) \<Rightarrow> cpu \<Rightarrow> address_space \<Rightarrow> cpu \<times> (string + unit)" where
  "activate_address_space phys_ok c space =
     (if \<not> phys_ok (as_root space) then (c, Inl ''process CR3 is not page aligned'')
      else (c\<lparr>cr3_frame := as_root space\<rparr>, Inr ()))"

section \<open>Accounting\<close>

text \<open>A successful clone takes one page of the manager for every table it counts.\<close>

definition spent :: "boot_tables clone_state \<Rightarrow> nat" where
  "spent st = unat (pm_free_bytes (bt_pmm (cs_mem st))) + 4096 * cs_count st"

lemma bt_write_pmm [simp]: "bt_pmm (bt_write virt_ok t f i e) = bt_pmm t"
  by (simp add: bt_write_def split: option.splits)

lemma clear_table_pmm [simp]: "bt_pmm (clear_table (boot_ops virt_ok) f is t) = bt_pmm t"
  by (induction "is" arbitrary: t) simp_all

lemma bt_allocate_spent:
  assumes "pm_inv (bt_pmm t)" and "bt_allocate virt_ok t = (t', Some f)"
  shows "pm_inv (bt_pmm t')" and "unat (pm_free_bytes (bt_pmm t')) + 4096 = unat (pm_free_bytes (bt_pmm t))"
proof -
  obtain p' r where A: "allocate_frame (bt_pmm t) = (p', r)" by fastforce
  from assms(1) A show "pm_inv (bt_pmm t')" "unat (pm_free_bytes (bt_pmm t')) + 4096 = unat (pm_free_bytes (bt_pmm t))"
    using assms(2) A
    by (cases rule: allocate_frame_cases; auto simp: bt_allocate_def zero_physical_frame_def split: option.splits)+
qed

lemma clone_loop_spent:
  assumes tree: "\<And>l s st st' d. \<lbrakk>k = Suc l; clone_table (boot_ops virt_ok) limit l s st = (st', Inr d); pm_inv (bt_pmm (cs_mem st))\<rbrakk> \<Longrightarrow>
      pm_inv (bt_pmm (cs_mem st')) \<and> spent st' = spent st"
    and "clone_loop (boot_ops virt_ok) limit k source dest is st = (st', Inr ())" and "pm_inv (bt_pmm (cs_mem st))"
  shows "pm_inv (bt_pmm (cs_mem st')) \<and> spent st' = spent st"
  using assms(2,3)
proof (induction "is" arbitrary: st)
  case (Cons i "is")
  let ?e = "bt_read virt_ok (cs_mem st) source i"
  show ?case
  proof (cases "present ?e \<and> 0 < k \<and> \<not> huge ?e")
    case True
    then obtain l where k: "k = Suc l" by (cases k) auto
    obtain st1 r where T: "clone_table (boot_ops virt_ok) limit l (?e AND ADDRESS) st = (st1, r)" by fastforce
    show ?thesis
    proof (cases r)
      case (Inr child)
      note S = tree [OF k T [unfolded Inr] Cons.prems(2)]
      show ?thesis
        using Cons.IH [of "st1\<lparr>cs_mem := bt_write virt_ok (cs_mem st1) dest i (?e AND NOT ADDRESS OR child)\<rparr>"]
          Cons.prems(1) True T Inr k S
        by (simp add: clone_loop.simps(2) Let_def spent_def)
    qed (use Cons.prems(1) True T k in \<open>simp add: clone_loop.simps(2) Let_def\<close>)
  next
    case False
    then show ?thesis
      using Cons.IH [of "st\<lparr>cs_mem := bt_write virt_ok (cs_mem st) dest i ?e\<rparr>"] Cons.prems
      by (auto simp: clone_loop.simps(2) Let_def spent_def split: if_splits)
  qed
qed simp

lemma clone_table_spent:
  "\<lbrakk>clone_table (boot_ops virt_ok) limit k source st = (st', Inr d); pm_inv (bt_pmm (cs_mem st))\<rbrakk> \<Longrightarrow>
   pm_inv (bt_pmm (cs_mem st')) \<and> spent st' = spent st"
proof (induction k arbitrary: source st st' d rule: less_induct)
  case (less k)
  obtain t1 a where A: "bt_allocate virt_ok (cs_mem st) = (t1, a)" by fastforce
  have p: "\<not> bad_frame source" "source \<notin> set (take (3 - k) (cs_ancestors st))" "cs_count st \<noteq> limit"
    using less.prems(1) by (auto simp: clone_table.simps Let_def split: if_splits)
  obtain f where f: "a = Some f"
    using less.prems(1) p A by (cases a) (auto simp: clone_table.simps Let_def)
  note S = bt_allocate_spent [OF less.prems(2) A [unfolded f]]
  let ?st = "st\<lparr>cs_ancestors := (cs_ancestors st)[3 - k := source], cs_count := cs_count st + 1,
    cs_mem := clear_table (boot_ops virt_ok) f [0..<512] t1\<rparr>"
  have L: "clone_loop (boot_ops virt_ok) limit k source f [0..<512] ?st = (st', Inr ())"
    using less.prems(1) p A f
    by (auto simp: clone_table.simps Let_def split: if_splits prod.splits sum.splits)
  have "pm_inv (bt_pmm (cs_mem st')) \<and> spent st' = spent ?st"
    by (rule clone_loop_spent [OF less.IH L]) (use S in simp_all)
  then show ?case using S by (simp add: spent_def)
qed

lemma clone_root_spent:
  assumes "clone_root (boot_ops virt_ok) limit source t = (t', Inr owned)" and "pm_inv (bt_pmm t)"
  shows "unat (pm_free_bytes (bt_pmm t')) + 4096 * or_table_frames owned = unat (pm_free_bytes (bt_pmm t))"
  using assms clone_table_spent [of virt_ok limit 3 source "\<lparr>cs_mem = t, cs_ancestors = [0, 0, 0, 0], cs_count = 0\<rparr>"]
  by (auto simp: clone_root_def spent_def split: prod.splits sum.splits)

section \<open>What an address means\<close>

text \<open>The index of a virtual address in the table with \<open>l\<close> levels below it.\<close>

definition va_index :: "u64 \<Rightarrow> nat \<Rightarrow> nat" where
  "va_index a l = unat (drop_bit (12 + 9 * l) a AND 0x1ff)"

text \<open>What the processor reads on its walk from a root to the entry of an address.\<close>

definition walk :: "(u64 \<Rightarrow> bool) \<Rightarrow> boot_tables \<Rightarrow> u64 \<Rightarrow> u64 \<Rightarrow> u64 list" where
  "walk virt_ok t root a = walk_path (boot_ops virt_ok) t 3 root (va_index a)"

lemma va_index_less [simp]: "va_index a l < 512"
proof -
  have "(0x1ff :: u64) = mask 9" by (simp add: mask_eq_exp_minus_1)
  then have "va_index a l = unat (take_bit 9 (drop_bit (12 + 9 * l) a))" by (simp add: va_index_def take_bit_eq_mask)
  also have "\<dots> < 2 ^ 9" by (simp only: unsigned_take_bit_eq take_bit_nat_less_exp)
  finally show ?thesis by simp
qed

text \<open>The tables below a root.\<close>

definition tables :: "(u64 \<Rightarrow> bool) \<Rightarrow> boot_tables \<Rightarrow> u64 \<Rightarrow> u64 list" where
  "tables virt_ok t root = tree_frames (boot_ops virt_ok) t 3 root"

text \<open>Nothing that is in use has changed.\<close>

definition in_use_kept :: "(u64 \<Rightarrow> bool) \<Rightarrow> boot_tables \<Rightarrow> boot_tables \<Rightarrow> bool" where
  "in_use_kept virt_ok t t' \<longleftrightarrow> bt_inv virt_ok t' \<and> bt_live virt_ok t \<subseteq> bt_live virt_ok t' \<and>
     (\<forall>f\<in>bt_live virt_ok t. \<forall>i. bt_read virt_ok t' f i = bt_read virt_ok t f i)"

text \<open>A private copy of the tables of \<open>source\<close>.\<close>

definition private_copy :: "(u64 \<Rightarrow> bool) \<Rightarrow> boot_tables \<Rightarrow> u64 \<Rightarrow> boot_tables \<Rightarrow> u64 \<Rightarrow> bool" where
  "private_copy virt_ok t source t' root \<longleftrightarrow> in_use_kept virt_ok t t' \<and>
     distinct (tables virt_ok t' root) \<and> set (tables virt_ok t' root) \<inter> bt_live virt_ok t = {} \<and>
     set (tables virt_ok t' root) \<subseteq> bt_held virt_ok t' \<and>
     (\<forall>a. walk virt_ok t' root a = walk virt_ok t source a)"

lemma clone_root_private:
  assumes "bt_inv virt_ok t" and "set (tables virt_ok t source) \<subseteq> bt_live virt_ok t"
    and "clone_root (boot_ops virt_ok) limit source t = (t', Inr owned)"
  shows "private_copy virt_ok t source t' (or_physical owned)"
    and "or_table_frames owned = length (tables virt_ok t' (or_physical owned))" and "or_table_frames owned \<le> limit"
    and "\<not> bad_frame (or_physical owned)"
proof -
  note C = boot.clone_root_law [OF assms(1) assms(2) [unfolded tables_def] assms(3), simplified]
  show "private_copy virt_ok t source t' (or_physical owned)"
    using C by (auto simp: private_copy_def in_use_kept_def tables_def walk_def boot.built_def boot.kept_def)
  show "or_table_frames owned = length (tables virt_ok t' (or_physical owned))" "or_table_frames owned \<le> limit"
    "\<not> bad_frame (or_physical owned)"
    using C by (simp_all add: tables_def)
qed

lemma root_is_new:
  assumes "private_copy virt_ok t source t' root" and "set (tables virt_ok t source) \<subseteq> bt_live virt_ok t"
  shows "root \<noteq> source"
proof -
  have "root \<in> set (tables virt_ok t' root)" "source \<in> set (tables virt_ok t source)" by (simp_all add: tables_def)
  then show ?thesis using assms by (auto simp: private_copy_def)
qed

lemma accounting:
  fixes free' before :: u64
  assumes "unat free' + 4096 * n = unat before"
  shows "before - free' = of_nat n * PAGE_SIZE" and "checked_sub before free' = Some (of_nat n * PAGE_SIZE)"
proof -
  have "before = of_nat (unat free' + 4096 * n)" unfolding assms by simp
  then have "before = free' + of_nat (4096 * n)" by (simp del: of_nat_mult)
  then show b: "before - free' = of_nat n * PAGE_SIZE" by (simp add: PAGE_SIZE_def mult.commute)
  have "free' \<le> before" using assms by (simp add: word_le_nat_alt)
  then show "checked_sub before free' = Some (of_nat n * PAGE_SIZE)" using b by (simp add: checked_sub_def)
qed

section \<open>Ownership and private address spaces\<close>

text \<open>
  C19: The transition from the boot loader's tables to the kernel's own. With interrupts off, four-level paging, a
  tree of at most 16384 tables that can be cloned and enough free pages, no assertion of \<open>take_ownership\<close> fails; the
  new CR3 is the root of a private copy, under which every virtual address means what it meant before; the
  old tables are untouched, CR4 is as before, and write protection is on.
\<close>

theorem take_ownership_correct:
  assumes "bt_inv virt_ok t" and "set (tables virt_ok t (cr3_frame c)) \<subseteq> bt_live virt_ok t"
    and "clonable (boot_ops virt_ok) t 3 (cr3_frame c) []" and "length (tables virt_ok t (cr3_frame c)) \<le> 16384"
    and "4096 * length (tables virt_ok t (cr3_frame c)) \<le> unat (pm_free_bytes (bt_pmm t))"
    and "\<not> cpu_interrupts c" and "cr4_bits c AND L5_PAGING = 0" and "cr4_bits c AND PCID = 0"
    and "\<forall>f. \<not> bad_frame f \<longrightarrow> phys_ok f"
  shows "\<exists>c' t'. take_ownership virt_ok phys_ok c t = Some (c', t') \<and>
    private_copy virt_ok t (cr3_frame c) t' (cr3_frame c') \<and> cr3_frame c' \<noteq> cr3_frame c \<and>
    cr4_bits c' = cr4_bits c \<and> cr3_flags c' = cr3_flags c \<and> cr0_write_protect c' \<and>
    unat (pm_free_bytes (bt_pmm t')) + 4096 * length (tables virt_ok t (cr3_frame c)) = unat (pm_free_bytes (bt_pmm t))"
proof -
  let ?s = "cr3_frame c"
  obtain t' owned where R: "clone_root (boot_ops virt_ok) TABLE_LIMIT ?s t = (t', Inr owned)"
      "or_table_frames owned = length (tables virt_ok t ?s)"
    using boot.clone_root_succeeds [OF assms(1), of ?s TABLE_LIMIT] assms(2-5)
    by (auto simp: tables_def TABLE_LIMIT_def bt_room_def less_eq_div_iff_mult_less_eq mult.commute)
  note P = clone_root_private [OF assms(1,2) R(1)]
  note N = root_is_new [OF P(1) assms(2)]
  have "pm_inv (bt_pmm t)" using assms(1) by (simp add: bt_inv_def)
  from clone_root_spent [OF R(1) this] have S: "unat (pm_free_bytes (bt_pmm t')) + 4096 * or_table_frames owned = unat (pm_free_bytes (bt_pmm t))" .
  have "\<not> bt_panicked t'" using P(1) by (simp add: private_copy_def in_use_kept_def bt_inv_def)
  moreover have "phys_ok (or_physical owned)" using P(4) assms(9) by blast
  ultimately have "take_ownership virt_ok phys_ok c t =
      Some (c\<lparr>cr3_frame := or_physical owned, cr4_bits := cr4_bits c, cr0_write_protect := True\<rparr>, t')"
    using assms(6-8) R(1) N accounting(1) [OF S] by (simp add: take_ownership_def Let_def)
  then show ?thesis using P(1) N S R(2) by simp
qed

text \<open>A processor with an empty root table in a page that the manager does not have.\<close>

definition boot_example :: boot_tables where
  "boot_example = \<lparr>bt_offset = 0, bt_pmm = pm_example, bt_bytes = (\<lambda>_. 0), bt_panicked = False\<rparr>"

definition cpu_example :: cpu where
  "cpu_example = \<lparr>cpu_interrupts = False, cr0_write_protect = False, cr3_frame = 0x9000, cr3_flags = 0, cr4_bits = 0\<rparr>"

lemma boot_example_empty [simp]: "bt_read (\<lambda>_. True) boot_example f i = 0"
proof -
  have z: "le_nat (replicate n 0) = 0" for n by (induction n) simp_all
  have "load_bytes (\<lambda>_. 0) p 8 = replicate 8 0" for p by (simp only: load_bytes_def map_replicate_const length_upt minus_nat.diff_0)
  then have "le_word (load_bytes (bt_bytes boot_example) p 8) = (0 :: u64)" for p
    by (simp add: le_word_def z boot_example_def)
  then show ?thesis by (simp add: bt_read_def split: option.split)
qed

lemma boot_example_tables: "tables (\<lambda>_. True) boot_example f = [f]" "clonable (boot_ops (\<lambda>_. True)) boot_example 3 0x9000 []"
proof -
  have "map (sub_frames (boot_ops (\<lambda>_. True)) boot_example 3 f) [0..<512] = map (\<lambda>i. []) [0..<512]"
    by (simp add: sub_frames_def child_frames_def present_def)
  then show "tables (\<lambda>_. True) boot_example f = [f]" unfolding tables_def tree_frames_sub by (simp add: map_replicate_const)
  show "clonable (boot_ops (\<lambda>_. True)) boot_example 3 0x9000 []"
    by (simp add: clonable_entries entry_clonable_def present_def bad_frame_def ADDRESS_def)
qed

lemma boot_example_free: "unat (pm_free_bytes (bt_pmm boot_example)) = 0x7000"
  by (simp add: boot_example_def pm_example_def)

lemma boot_example_inv: "bt_inv (\<lambda>_. True) boot_example" "0x9000 \<in> bt_live (\<lambda>_. True) boot_example"
proof -
  have "addrs (managed_list pm_example) = {0x1000..<0x8000}" "free_addrs pm_example = {0x1000..<0x8000}"
    by (auto simp: pm_example_def managed_list_def free_addrs_def free_list_def)
  then show "bt_inv (\<lambda>_. True) boot_example" "0x9000 \<in> bt_live (\<lambda>_. True) boot_example"
    using pm_example_inv
    by (auto simp: bt_inv_def bt_live_def reachable_def boot_example_def bt_address_def checked_add_def block_def)
qed

theorem take_ownership_correct_witness:
  "\<exists>c' t'. take_ownership (\<lambda>_. True) (\<lambda>_. True) cpu_example boot_example = Some (c', t') \<and>
     private_copy (\<lambda>_. True) boot_example 0x9000 t' (cr3_frame c') \<and> cr3_frame c' \<noteq> 0x9000 \<and> cr0_write_protect c'"
  using take_ownership_correct [of "\<lambda>_. True" boot_example cpu_example "\<lambda>_. True"] boot_example_inv boot_example_tables
  by (auto simp: cpu_example_def boot_example_free)

text \<open>
  C20: \<open>create_user_address_space\<close>. On success the process gets a private copy of the kernel's tables: no frame of it was in
  use before, every address means what it means in the kernel, and the kernel's tables are unchanged. On failure, unless a
  release panicked, nothing in use has changed and every page is back with the manager. The accounting errors
  cannot occur.
\<close>

theorem create_user_address_space_correct:
  assumes "bt_inv virt_ok t" and "set (tables virt_ok t (cr3_frame c)) \<subseteq> bt_live virt_ok t"
    and "create_user_address_space virt_ok c t = (t', r)"
  shows "case r of
      Inr space \<Rightarrow> private_copy virt_ok t (cr3_frame c) t' (as_root space) \<and> as_root space \<noteq> cr3_frame c
    | Inl e \<Rightarrow> e = ''failed to clone process page-table tree'' \<and>
        (bt_panicked t' \<or> in_use_kept virt_ok t t' \<and> bt_live virt_ok t' = bt_live virt_ok t \<and> bt_held virt_ok t' = bt_held virt_ok t)"
proof -
  let ?s = "cr3_frame c"
  obtain t1 q where R: "clone_root (boot_ops virt_ok) TABLE_LIMIT ?s t = (t1, q)" by fastforce
  show ?thesis
  proof (cases q)
    case (Inl x)
    have "\<not> bt_panicked t1 \<longrightarrow> boot.released virt_ok t t1 {}"
      using boot.clone_root_law [OF assms(1) assms(2) [unfolded tables_def] R] by (simp add: Inl)
    then show ?thesis using assms(3) R Inl
      by (auto simp: create_user_address_space_def active_root_def Let_def in_use_kept_def boot.released_def)
  next
    case (Inr owned)
    have "pm_inv (bt_pmm t)" using assms(1) by (simp add: bt_inv_def)
    note A = accounting(2) [OF clone_root_spent [OF R [unfolded Inr] this]]
    note P = clone_root_private [OF assms(1,2) R [unfolded Inr]]
    have "t' = t1" "r = Inr \<lparr>as_root = or_physical owned\<rparr>"
      using assms(3) R Inr A by (auto simp: create_user_address_space_def active_root_def Let_def)
    then show ?thesis using P(1) root_is_new [OF P(1) assms(2)] by simp
  qed
qed

theorem create_user_address_space_correct_witness:
  "case create_user_address_space (\<lambda>_. True) cpu_example boot_example of (t', r) \<Rightarrow> (case r of
      Inr space \<Rightarrow> private_copy (\<lambda>_. True) boot_example 0x9000 t' (as_root space) \<and> as_root space \<noteq> 0x9000
    | Inl e \<Rightarrow> e = ''failed to clone process page-table tree'' \<and>
        (bt_panicked t' \<or> in_use_kept (\<lambda>_. True) boot_example t'))"
  using create_user_address_space_correct [OF boot_example_inv(1), of cpu_example] boot_example_inv(2)
  by (auto simp: cpu_example_def boot_example_tables split: prod.split sum.split)

end
