(* ===== verification/User_Memory.thy ===== *)
theory User_Memory
  imports Address_Spaces
begin

text \<open>
  Access of the kernel to the memory of a process: \<open>user_range_accessible\<close> of \<open>kernel/src/arch/memory.rs\<close> and
  \<open>validate_user_range\<close>, \<open>copy_to_user\<close>, \<open>copy_from_user\<close> of \<open>kernel/src/mm/mod.rs\<close>. The check walks the page tables in
  software; the theorems show that it agrees with what the processor would allow, for every byte of the range.
\<close>

section \<open>The check\<close>

definition USER_ADDRESS_LIMIT :: u64 where "USER_ADDRESS_LIMIT = push_bit 39 1"

definition WRITABLE :: u64 where "WRITABLE = push_bit 1 1"
definition USER :: u64 where "USER = push_bit 2 1"

text \<open>The outer \<open>None\<close> is the panic of \<open>VirtAddr::new\<close>.\<close>

definition page_table_entry_pointer :: "(u64 \<Rightarrow> bool) \<Rightarrow> u64 \<Rightarrow> u64 \<Rightarrow> nat \<Rightarrow> (string + u64) option" where
  "page_table_entry_pointer virt_ok offset table_physical index =
     (if 512 \<le> index \<or> table_physical mod PAGE_SIZE \<noteq> 0 then Some (Inl ''invalid page-table entry'')
      else case Option.bind (checked_add offset table_physical) (\<lambda>base. checked_add base (of_nat (index * 8))) of
             None \<Rightarrow> Some (Inl ''page-table direct-map overflow'')
           | Some address \<Rightarrow> if virt_ok address then Some (Inr address) else None)"

fun user_page_walk :: "(u64 \<Rightarrow> bool) \<Rightarrow> boot_tables \<Rightarrow> bool \<Rightarrow> (nat \<times> nat) list \<Rightarrow> u64 \<Rightarrow> bool option" where
  "user_page_walk virt_ok t writable [] table = Some False"
| "user_page_walk virt_ok t writable ((level, index) # rest) table =
     (case page_table_entry_pointer virt_ok (bt_offset t) table index of
        None \<Rightarrow> None
      | Some (Inl _) \<Rightarrow> Some False
      | Some (Inr pointer) \<Rightarrow>
          (let entry = le_word (load_bytes (bt_bytes t) pointer 8)
           in if entry AND PRESENT = 0 \<or> entry AND USER = 0 then Some False
              else if writable \<and> entry AND WRITABLE = 0 then Some False
              else if level = 3 \<or> 1 \<le> level \<and> entry AND HUGE \<noteq> 0 then Some True
              else if entry AND ADDRESS = 0 then Some False
              else user_page_walk virt_ok t writable rest (entry AND ADDRESS)))"

definition user_page_accessible :: "(u64 \<Rightarrow> bool) \<Rightarrow> boot_tables \<Rightarrow> u64 \<Rightarrow> u64 \<Rightarrow> bool \<Rightarrow> bool option" where
  "user_page_accessible virt_ok t root virtual_address writable =
     (let indexes = map (\<lambda>s. unat (drop_bit s virtual_address AND 0x1ff)) [39, 30, 21, 12]
      in user_page_walk virt_ok t writable (zip [0..<4] indexes) root)"

function user_range_loop :: "(u64 \<Rightarrow> bool) \<Rightarrow> boot_tables \<Rightarrow> u64 \<Rightarrow> bool \<Rightarrow> u64 \<Rightarrow> u64 \<Rightarrow> bool option" where
  "user_range_loop virt_ok t root writable last_page page =
     (case user_page_accessible virt_ok t root page writable of
        None \<Rightarrow> None
      | Some False \<Rightarrow> Some False
      | Some True \<Rightarrow>
          if page = last_page then Some True
          else case checked_add page PAGE_SIZE of
                 None \<Rightarrow> Some False
               | Some page' \<Rightarrow> user_range_loop virt_ok t root writable last_page page')"
  by pat_completeness auto
termination
proof (relation "measure (\<lambda>(virt_ok, t, root, writable, last_page, page). 2 ^ 64 - unat page)", goal_cases)
  case (2 virt_ok t root writable last_page page b page')
  then have "unat page' = unat page + 4096" by (simp add: checked_add_eq_Some)
  then show ?case using unat_below [of page'] by simp
qed simp

declare user_range_loop.simps [simp del]

definition user_range_accessible :: "(u64 \<Rightarrow> bool) \<Rightarrow> cpu \<Rightarrow> boot_tables \<Rightarrow> u64 \<Rightarrow> usize \<Rightarrow> bool \<Rightarrow> bool option" where
  "user_range_accessible virt_ok c t address len writable =
     (if len = 0 then Some (address < USER_ADDRESS_LIMIT)
      else case checked_add address (len - 1) of
             None \<Rightarrow> Some False
           | Some last_byte \<Rightarrow>
               if USER_ADDRESS_LIMIT \<le> address \<or> USER_ADDRESS_LIMIT \<le> last_byte then Some False
               else user_range_loop virt_ok t (active_root c) writable
                      (last_byte AND NOT (PAGE_SIZE - 1)) (address AND NOT (PAGE_SIZE - 1)))"

section \<open>What the processor allows\<close>

text \<open>A walk allows an access of user code when every entry on the way does.\<close>

definition entry_allows :: "bool \<Rightarrow> u64 \<Rightarrow> bool" where
  "entry_allows writable e \<longleftrightarrow> e AND PRESENT \<noteq> 0 \<and> e AND USER \<noteq> 0 \<and> (writable \<longrightarrow> e AND WRITABLE \<noteq> 0)"

definition user_allowed :: "(u64 \<Rightarrow> bool) \<Rightarrow> boot_tables \<Rightarrow> u64 \<Rightarrow> bool \<Rightarrow> u64 \<Rightarrow> bool" where
  "user_allowed virt_ok t root writable a \<longleftrightarrow> list_all (entry_allows writable) (walk virt_ok t root a)"

lemma entry_allows_flags: "entry_allows writable (e AND NOT ADDRESS) = entry_allows writable e"
proof -
  have "NOT ADDRESS AND PRESENT = PRESENT" "NOT ADDRESS AND USER = USER" "NOT ADDRESS AND WRITABLE = WRITABLE"
    by (simp_all add: PRESENT_def USER_def WRITABLE_def ADDRESS_def)
  then show ?thesis unfolding entry_allows_def by (simp only: and.assoc)
qed

text \<open>A table whose words the direct map reaches.\<close>

definition mapped_page :: "(u64 \<Rightarrow> bool) \<Rightarrow> boot_tables \<Rightarrow> u64 \<Rightarrow> bool" where
  "mapped_page virt_ok t f \<longleftrightarrow> reachable virt_ok t f \<and> unat (bt_offset t) + unat f + 4096 \<le> 2 ^ 64 \<and>
     (\<forall>i<512. virt_ok (bt_offset t + f + of_nat (i * 8)))"

lemma entry_pointer:
  assumes "mapped_page virt_ok t f" and "i < 512"
  shows "\<exists>p. page_table_entry_pointer virt_ok (bt_offset t) f i = Some (Inr p) \<and>
    le_word (load_bytes (bt_bytes t) p 8) = bt_read virt_ok t f i"
proof -
  have m: "reachable virt_ok t f" "unat (bt_offset t) + unat f + 4096 \<le> 2 ^ 64" using assms(1) by (simp_all add: mapped_page_def)
  let ?b = "bt_offset t + f" and ?d = "of_nat (i * 8) :: u64"
  have d: "unat ?d = i * 8" using assms(2) by (simp add: unat_of_nat del: of_nat_mult)
  have b: "unat ?b = unat (bt_offset t) + unat f" using m(2) by (intro unat_add_small) simp
  have s: "unat (?b + ?d) = unat ?b + i * 8" using assms(2) m(2) b d by (subst unat_add_small) simp_all
  have c: "checked_add (bt_offset t) f = Some ?b" "checked_add ?b ?d = Some (?b + ?d)"
    using b d s by (simp_all add: checked_add_eq_Some)
  have "virt_ok (?b + ?d)" using assms by (simp add: mapped_page_def)
  moreover have "f mod PAGE_SIZE = 0" using m(1) by (simp add: reachable_def dvd_page_iff)
  ultimately have "page_table_entry_pointer virt_ok (bt_offset t) f i = Some (Inr (?b + ?d))"
    using assms(2) c by (simp add: page_table_entry_pointer_def)
  then show ?thesis using bt_read_reachable [OF m(1)] assms(2) by (simp add: mult.commute)
qed

text \<open>The software walk says what the processor's walk allows.\<close>

lemma walk_agrees:
  assumes "\<And>l. path l < 512" and "k \<le> 3"
    and "\<forall>g\<in>set (tree_frames (boot_ops virt_ok) t k f). mapped_page virt_ok t g" and "clonable (boot_ops virt_ok) t k f anc"
  shows "user_page_walk virt_ok t writable (map (\<lambda>l. (3 - l, path l)) (rev [0..<Suc k])) f =
    Some (list_all (entry_allows writable) (walk_path (boot_ops virt_ok) t k f path))"
  using assms(2-)
proof (induction k arbitrary: f anc)
  case 0
  then have "mapped_page virt_ok t f" by simp
  from entry_pointer [OF this assms(1)] obtain p where "page_table_entry_pointer virt_ok (bt_offset t) f (path 0) = Some (Inr p)"
      "le_word (load_bytes (bt_bytes t) p 8) = bt_read virt_ok t f (path 0)" by blast
  then show ?case by (simp add: entry_allows_def Let_def)
next
  case (Suc k)
  let ?tm = "boot_ops virt_ok" and ?i = "path (Suc k)"
  define e where "e = bt_read virt_ok t f ?i"
  have "mapped_page virt_ok t f" using Suc.prems(2) by simp
  from entry_pointer [OF this assms(1)] obtain p where p: "page_table_entry_pointer virt_ok (bt_offset t) f ?i = Some (Inr p)"
      "le_word (load_bytes (bt_bytes t) p 8) = e" unfolding e_def by blast
  have E: "entry_clonable ?tm t (Suc k) f (anc @ [f]) ?i"
    using clonable_entries [THEN iffD1, OF Suc.prems(3)] assms(1) by blast
  have IH: "user_page_walk virt_ok t writable (map (\<lambda>l. (3 - l, path l)) (rev [0..<Suc k])) (e AND ADDRESS) =
      Some (list_all (entry_allows writable) (walk_path ?tm t k (e AND ADDRESS) path))"
    and nz: "e AND ADDRESS \<noteq> 0" if "present e" "\<not> huge e"
  proof -
    have c: "clonable ?tm t k (e AND ADDRESS) (anc @ [f])" using E that by (simp add: entry_clonable_def e_def)
    have "set (tree_frames ?tm t k (e AND ADDRESS)) \<subseteq> set (tree_frames ?tm t (Suc k) f)"
      using child_frames_subset [OF assms(1), of ?tm t k f "Suc k"] that by (simp add: child_frames_def e_def)
    then show "user_page_walk virt_ok t writable (map (\<lambda>l. (3 - l, path l)) (rev [0..<Suc k])) (e AND ADDRESS) =
        Some (list_all (entry_allows writable) (walk_path ?tm t k (e AND ADDRESS) path))"
      using Suc.IH [OF _ _ c] Suc.prems(1,2) by auto
    show "e AND ADDRESS \<noteq> 0" using clonable_entries [THEN iffD1, OF c] by (simp add: bad_frame_def)
  qed
  have l: "map (\<lambda>l. (3 - l, path l)) (rev [0..<Suc (Suc k)]) = (2 - k, ?i) # map (\<lambda>l. (3 - l, path l)) (rev [0..<Suc k])"
    by simp
  have lev: "2 - k \<noteq> 3" "huge e \<Longrightarrow> present e \<Longrightarrow> 1 \<le> 2 - k"
    using E Suc.prems(1) by (auto simp: entry_clonable_def e_def split: if_splits)
  show ?case
  proof (cases "present e \<and> \<not> huge e")
    case True
    then show ?thesis unfolding l using p IH nz lev(1) entry_allows_flags [of writable e]
      by (simp add: Let_def e_def [symmetric]) (auto simp: entry_allows_def present_def huge_def)
  next
    case False
    then show ?thesis unfolding l using p lev
      by (simp add: Let_def e_def [symmetric]) (auto simp: entry_allows_def present_def huge_def)
  qed
qed

text \<open>A tree of tables that the direct map reaches and the processor accepts.\<close>

definition good_tree :: "(u64 \<Rightarrow> bool) \<Rightarrow> boot_tables \<Rightarrow> u64 \<Rightarrow> bool" where
  "good_tree virt_ok t root \<longleftrightarrow> (\<forall>g\<in>set (tables virt_ok t root). mapped_page virt_ok t g) \<and>
     clonable (boot_ops virt_ok) t 3 root []"

lemma page_accessible:
  assumes "good_tree virt_ok t root"
  shows "user_page_accessible virt_ok t root a writable = Some (user_allowed virt_ok t root writable a)"
proof -
  have "zip [0..<4] (map (\<lambda>s. unat (drop_bit s a AND 0x1ff)) [39, 30, 21, 12]) =
      map (\<lambda>l. (3 - l, va_index a l)) (rev [0..<Suc 3])"
    by (simp add: va_index_def upt_rec)
  then show ?thesis
    using walk_agrees [of "va_index a" 3 virt_ok t root "[]" writable] assms
    by (simp add: user_page_accessible_def Let_def user_allowed_def walk_def good_tree_def tables_def)
qed

lemma va_index_page: "va_index (a AND NOT (PAGE_SIZE - 1)) l = va_index a l"
proof -
  have m: "PAGE_SIZE - 1 = mask 12" by (simp add: PAGE_SIZE_def mask_eq_exp_minus_1)
  have "drop_bit (12 + 9 * l) (a AND NOT (mask 12)) = drop_bit (12 + 9 * l) a"
    by (rule bit_eqI) (auto simp: bit_simps dest: bit_imp_le_length)
  then show ?thesis by (simp only: va_index_def m)
qed

lemma same_page_allowed:
  assumes "unat a div 4096 = unat b div 4096"
  shows "user_allowed virt_ok t root writable a = user_allowed virt_ok t root writable b"
proof -
  have u: "unat (x AND NOT (PAGE_SIZE - 1)) = unat x div 4096 * 4096" for x :: u64
    using unat_and_not_pow2 [OF is_power_of_two_page] by simp
  have "a AND NOT (PAGE_SIZE - 1) = b AND NOT (PAGE_SIZE - 1)" using assms by (simp only: word_unat_eq_iff u)
  then have "va_index a = va_index b" using va_index_page by (metis ext)
  then show ?thesis by (simp add: user_allowed_def walk_def)
qed

lemma unat_of_nat_eq: "unat w = n \<Longrightarrow> w = of_nat n" for w :: u64
  by auto

lemma range_loop:
  assumes "\<And>p. user_page_accessible virt_ok t root p writable = Some (ok p)"
    and "unat page = 4096 * m" and "unat last_page = 4096 * n" and "m \<le> n"
  shows "user_range_loop virt_ok t root writable last_page page =
    Some (\<forall>j. m \<le> j \<and> j \<le> n \<longrightarrow> ok (of_nat (4096 * j)))"
  using assms(2,4)
proof (induction "n - m" arbitrary: m page)
  case 0
  have e: "page = last_page" using 0 assms(3) by (simp add: word_unat_eq_iff)
  have p: "page = of_nat (4096 * m)" by (rule unat_of_nat_eq) (rule 0)
  have "n = m" using 0 by simp
  then have "(\<forall>j. m \<le> j \<and> j \<le> n \<longrightarrow> ok (of_nat (4096 * j))) \<longleftrightarrow> ok page" unfolding p by (metis order_antisym order_refl)
  then show ?case using assms(1) e
    by (simp add: user_range_loop.simps [of _ _ _ _ _ last_page] split: bool.splits)
next
  case (Suc d)
  have p: "page = of_nat (4096 * m)" by (rule unat_of_nat_eq) (rule Suc.prems)
  have lt: "page \<noteq> last_page" using Suc assms(3) by auto
  obtain q where q: "checked_add page PAGE_SIZE = Some q" "unat q = 4096 * Suc m"
  proof -
    have "4096 * Suc m \<le> unat last_page" using Suc assms(3) by simp
    then have "unat page + 4096 < 2 ^ 64" using Suc.prems(1) unat_below [of last_page] by simp
    then have "unat (page + PAGE_SIZE) = 4096 * Suc m" using Suc.prems(1) by (subst unat_add_small) simp_all
    then show ?thesis using that [of "page + PAGE_SIZE"] Suc.prems(1) by (simp add: checked_add_eq_Some)
  qed
  have IH: "user_range_loop virt_ok t root writable last_page q = Some (\<forall>j. Suc m \<le> j \<and> j \<le> n \<longrightarrow> ok (of_nat (4096 * j)))"
    by (rule Suc.hyps(1)) (use Suc q in auto)
  have "(\<forall>j. m \<le> j \<and> j \<le> n \<longrightarrow> ok (of_nat (4096 * j))) \<longleftrightarrow>
      ok page \<and> (\<forall>j. Suc m \<le> j \<and> j \<le> n \<longrightarrow> ok (of_nat (4096 * j)))"
    unfolding p using Suc.prems(2) by (metis Suc_leD le_antisym not_less_eq_eq)
  then show ?case using assms(1) lt q(1) IH
    by (simp add: user_range_loop.simps [of _ _ _ _ _ page] split: bool.splits)
qed

lemma user_range_accessible_law:
  assumes "good_tree virt_ok t (cr3_frame c)" and "len \<noteq> 0"
  shows "user_range_accessible virt_ok c t address len writable =
    Some (unat address + unat len \<le> 2 ^ 39 \<and>
      (\<forall>a. unat address \<le> unat a \<and> unat a < unat address + unat len \<longrightarrow>
         user_allowed virt_ok t (cr3_frame c) writable a))"
proof -
  let ?ok = "user_allowed virt_ok t (cr3_frame c) writable"
  have lim: "unat USER_ADDRESS_LIMIT = 2 ^ 39" by (simp add: USER_ADDRESS_LIMIT_def)
  have l: "unat (len - 1) = unat len - 1" "0 < unat len" using assms(2) by (simp_all add: unat_minus_one unat_gt_0)
  show ?thesis
  proof (cases "unat address + unat len \<le> 2 ^ 39")
    case False
    then show ?thesis using l lim assms(2)
      by (auto simp: user_range_accessible_def word_le_nat_alt word_less_nat_alt checked_add_eq_Some split: option.split)
  next
    case True
    let ?last = "address + (len - 1)"
    have u: "unat ?last = unat address + unat len - 1" using True l by (subst unat_add_small) simp_all
    have c: "checked_add address (len - 1) = Some ?last" using u l by (simp add: checked_add_eq_Some)
    define m n where "m = unat address div 4096" and "n = (unat address + unat len - 1) div 4096"
    have pg: "unat (x AND NOT (PAGE_SIZE - 1)) = 4096 * (unat x div 4096)" for x :: u64
      using unat_and_not_pow2 [OF is_power_of_two_page, of x] by simp
    have mn: "m \<le> n" unfolding m_def n_def using l(2) by (intro div_le_mono) simp
    have R: "user_range_loop virt_ok t (cr3_frame c) writable (?last AND NOT (PAGE_SIZE - 1)) (address AND NOT (PAGE_SIZE - 1)) =
        Some (\<forall>j. m \<le> j \<and> j \<le> n \<longrightarrow> ?ok (of_nat (4096 * j)))"
      by (rule range_loop [OF page_accessible [OF assms(1)]]) (simp_all only: pg u m_def n_def mn [unfolded m_def n_def])
    have P: "?ok (of_nat (4096 * (unat a div 4096))) = ?ok a" for a
      by (rule same_page_allowed) (use unat_below [of a] in \<open>simp add: unat_of_nat del: of_nat_mult\<close>)
    have "(\<forall>j. m \<le> j \<and> j \<le> n \<longrightarrow> ?ok (of_nat (4096 * j))) \<longleftrightarrow>
        (\<forall>a. unat address \<le> unat a \<and> unat a < unat address + unat len \<longrightarrow> ?ok a)"
    proof (intro iffI allI impI)
      fix a :: u64 assume A: "\<forall>j. m \<le> j \<and> j \<le> n \<longrightarrow> ?ok (of_nat (4096 * j))"
        and a: "unat address \<le> unat a \<and> unat a < unat address + unat len"
      have "m \<le> unat a div 4096" "unat a div 4096 \<le> n" unfolding m_def n_def using a by (auto intro!: div_le_mono)
      then show "?ok a" using A P by blast
    next
      fix j assume A: "\<forall>a. unat address \<le> unat a \<and> unat a < unat address + unat len \<longrightarrow> ?ok a" and j: "m \<le> j \<and> j \<le> n"
      let ?a = "max (unat address) (4096 * j)"
      have "4096 * n \<le> unat address + unat len - 1" by (simp add: n_def)
      then have b: "?a < unat address + unat len" using j l(2) by auto
      have d: "?a div 4096 = j" using j unfolding m_def by (auto simp: max_def)
      have "unat (of_nat ?a :: u64) = ?a" using b True by (simp add: unat_of_nat)
      then show "?ok (of_nat (4096 * j))" using A b P [of "of_nat ?a"] d by (simp del: of_nat_mult of_nat_max)
    qed
    moreover have "unat address < 2 ^ 39" "unat ?last < 2 ^ 39" using True l(2) u by linarith+
    then have "\<not> USER_ADDRESS_LIMIT \<le> address" "\<not> USER_ADDRESS_LIMIT \<le> ?last"
      unfolding word_le_nat_alt lim by simp_all
    ultimately show ?thesis using True R c assms(2) by (simp add: user_range_accessible_def active_root_def)
  qed
qed

section \<open>Copying\<close>

text \<open>
  The globals of \<open>mm/mod.rs\<close> and the memory behind the direct map.
\<close>

record mm_state =
  mm_offset :: "u64 option"
  mm_pmm :: "physical_memory option"
  mm_bytes :: memory
  mm_next_mmio :: u64

definition mm_tables :: "mm_state \<Rightarrow> u64 \<Rightarrow> boot_tables" where
  "mm_tables s offset = \<lparr>bt_offset = offset, bt_pmm = (case mm_pmm s of None \<Rightarrow> pm_empty 0 | Some p \<Rightarrow> p),
     bt_bytes = mm_bytes s, bt_panicked = False\<rparr>"

definition validate_user_range ::
  "(u64 \<Rightarrow> bool) \<Rightarrow> cpu \<Rightarrow> mm_state \<Rightarrow> u64 \<Rightarrow> usize \<Rightarrow> bool \<Rightarrow> (string + unit) option" where
  "validate_user_range virt_ok c s address len writable =
     (if len = 0 then Some (Inr ())
      else case mm_offset s of
             None \<Rightarrow> Some (Inl ''physical memory is not initialized'')
           | Some offset \<Rightarrow>
               (case user_range_accessible virt_ok c (mm_tables s offset) address len writable of
                  None \<Rightarrow> None
                | Some False \<Rightarrow>
                    Some (Inl (if writable then ''invalid userspace write buffer'' else ''invalid userspace read buffer''))
                | Some True \<Rightarrow> Some (Inr ())))"

text \<open>
  The processor's translation of a virtual address, and the bytes that the copies read and write through it. A byte
  without a translation would fault; the check before the copies excludes that.
\<close>

fun translate_from :: "(u64 \<Rightarrow> bool) \<Rightarrow> boot_tables \<Rightarrow> nat \<Rightarrow> u64 \<Rightarrow> u64 \<Rightarrow> u64 option" where
  "translate_from virt_ok t 0 frame a =
     (let e = bt_read virt_ok t frame (va_index a 0)
      in if present e then Some ((e AND ADDRESS) + take_bit 12 a) else None)"
| "translate_from virt_ok t (Suc k) frame a =
     (let e = bt_read virt_ok t frame (va_index a (Suc k)); size = 12 + 9 * Suc k
      in if \<not> present e then None
         else if huge e then Some ((e AND ADDRESS AND NOT (mask size)) + take_bit size a)
         else translate_from virt_ok t k (e AND ADDRESS) a)"

definition user_load :: "(u64 \<Rightarrow> bool) \<Rightarrow> boot_tables \<Rightarrow> u64 \<Rightarrow> u64 \<Rightarrow> byte" where
  "user_load virt_ok t root a =
     (case translate_from virt_ok t 3 root a of Some p \<Rightarrow> bt_bytes t (bt_offset t + p) | None \<Rightarrow> 0)"




definition copy_from_user ::
  "(u64 \<Rightarrow> bool) \<Rightarrow> cpu \<Rightarrow> mm_state \<Rightarrow> u64 \<Rightarrow> usize \<Rightarrow> usize \<Rightarrow> (string + byte list) option" where
  "copy_from_user virt_ok c s address len maximum =
     (if maximum < len then Some (Inl ''userspace buffer exceeds syscall limit'')
      else if len = 0 then Some (Inr [])
      else case validate_user_range virt_ok c s address len False of
             None \<Rightarrow> None
           | Some (Inl e) \<Rightarrow> Some (Inl e)
           | Some (Inr _) \<Rightarrow>
               Some (Inr (map (\<lambda>i. user_load virt_ok (mm_tables s (the (mm_offset s))) (active_root c) (address + of_nat i))
                 [0..<unat len])))"

section \<open>The copies are confined to what the process may touch\<close>








lemma validate_correct:
  assumes "mm_offset s = Some offset" and "good_tree virt_ok (mm_tables s offset) (cr3_frame c)" and "len \<noteq> 0"
  shows "validate_user_range virt_ok c s address len writable = Some
    (if unat address + unat len \<le> 2 ^ 39 \<and>
        (\<forall>a. unat address \<le> unat a \<and> unat a < unat address + unat len \<longrightarrow>
           user_allowed virt_ok (mm_tables s offset) (cr3_frame c) writable a)
     then Inr ()
     else Inl (if writable then ''invalid userspace write buffer'' else ''invalid userspace read buffer''))"
proof -
  define v where "v \<longleftrightarrow> unat address + unat len \<le> 2 ^ 39 \<and>
    (\<forall>a. unat address \<le> unat a \<and> unat a < unat address + unat len \<longrightarrow>
       user_allowed virt_ok (mm_tables s offset) (cr3_frame c) writable a)"
  have "user_range_accessible virt_ok c (mm_tables s offset) address len writable = Some v"
    unfolding v_def by (rule user_range_accessible_law [OF assms(2,3)])
  then show ?thesis unfolding v_def [symmetric] using assms(1,3) by (cases v) (simp_all add: validate_user_range_def)
qed




section \<open>What the copies guarantee\<close>

text \<open>
  C21: \<open>user_range_accessible\<close> is exactly the processor's verdict on every byte: on a well-formed tree of tables it never panics,
  and it accepts a non-empty range if and only if the range ends at or below the user limit and the page tables allow
  user code to read (or write) each byte of it.
\<close>

theorem user_range_accessible_correct:
  assumes "good_tree virt_ok t (cr3_frame c)" and "len \<noteq> 0"
  shows "user_range_accessible virt_ok c t address len writable =
    Some (unat address + unat len \<le> 2 ^ 39 \<and>
      (\<forall>a. unat address \<le> unat a \<and> unat a < unat address + unat len \<longrightarrow>
         user_allowed virt_ok t (cr3_frame c) writable a))"
  using assms by (rule user_range_accessible_law)

text \<open>Reading gives the bytes of the range, or an error when the process could not read one of them.\<close>

lemma copy_from_user_correct:
  assumes "mm_offset s = Some offset" and "good_tree virt_ok (mm_tables s offset) (cr3_frame c)" and "len \<noteq> 0" and "len \<le> maximum"
  shows "copy_from_user virt_ok c s address len maximum = Some
    (if unat address + unat len \<le> 2 ^ 39 \<and>
        (\<forall>a. unat address \<le> unat a \<and> unat a < unat address + unat len \<longrightarrow>
           user_allowed virt_ok (mm_tables s offset) (cr3_frame c) False a)
     then Inr (map (\<lambda>i. user_load virt_ok (mm_tables s offset) (cr3_frame c) (address + of_nat i)) [0..<unat len])
     else Inl ''invalid userspace read buffer'')"
proof -
  have "\<not> maximum < len" using assms(4) by simp
  then show ?thesis
    unfolding copy_from_user_def validate_correct [OF assms(1-3)] using assms(1,3) by (simp add: active_root_def)
qed


section \<open>A process with one page\<close>

text \<open>A memory given by its 64-bit words.\<close>

definition word_memory :: "(u64 \<Rightarrow> u64) \<Rightarrow> memory" where
  "word_memory W q = le_bytes 8 (unat (W (q AND NOT 7))) ! unat (q AND 7)"

lemma word_memory_load:
  assumes "8 dvd unat p"
  shows "le_word (load_bytes (word_memory W) p 8) = W p"
proof -
  have low: "(p + of_nat j) AND NOT 7 = p \<and> unat ((p + of_nat j) AND 7) = j" if "j < 8" for j
  proof -
    have m: "(7 :: u64) = mask 3" by (simp add: mask_eq_exp_minus_1)
    obtain n where n: "unat p = 8 * n" using assms by (elim dvdE)
    have "unat p + j < 2 ^ 64" using n that unat_below [of p] by simp
    then have u: "unat (p + of_nat j) = 8 * n + j" using n that by (subst unat_add_small) (simp_all add: unat_of_nat)
    have "unat ((p + of_nat j) AND 7) = take_bit 3 (8 * n + j)"
      by (simp only: m take_bit_eq_mask [symmetric] unsigned_take_bit_eq u)
    then have "unat ((p + of_nat j) AND 7) = (8 * n + j) mod 8" by (simp add: take_bit_eq_mod)
    moreover have "unat ((p + of_nat j) AND NOT 7) = (8 * n + j) div 8 * 8"
      using unat_and_not_pow2 [of "8 :: u64" "p + of_nat j"] u
      by (simp add: is_power_of_two_iff exI [of _ 3])
    ultimately show ?thesis using n that by (simp add: word_unat_eq_iff)
  qed
  have "load_bytes (word_memory W) p 8 = le_bytes 8 (unat (W p))"
    by (rule nth_equalityI) (use low in \<open>simp_all add: load_bytes_def word_memory_def\<close>)
  then show ?thesis by (simp add: le_word_le_bytes)
qed

text \<open>
  The tables \<open>0x9000\<close> to \<open>0xC000\<close>, each with one entry for its first index; they map the first page of the process, readable and
  writable by it, to the frame \<open>0xD000\<close>.
\<close>

definition page_words :: "u64 \<Rightarrow> u64" where
  "page_words p = (if p = 0x9000 then 0xA007 else if p = 0xA000 then 0xB007 else if p = 0xB000 then 0xC007
     else if p = 0xC000 then 0xD007 else 0)"

definition mm_example :: mm_state where
  "mm_example = \<lparr>mm_offset = Some 0, mm_pmm = Some pm_example, mm_bytes = word_memory page_words, mm_next_mmio = 0\<rparr>"

abbreviation paged :: boot_tables where "paged \<equiv> mm_tables mm_example 0"

lemma paged_read:
  assumes "4096 dvd unat f" and "i < 512"
  shows "bt_read (\<lambda>_. True) paged f i = page_words (f + of_nat (8 * i))"
proof -
  have "checked_add 0 f = Some f" using unat_below [of f] by (simp add: checked_add_def)
  then have r: "reachable (\<lambda>_. True) paged f" using assms(1) by (simp add: reachable_def bt_address_def mm_tables_def)
  have "8 dvd unat (f + of_nat (8 * i))"
  proof -
    obtain n where n: "unat f = 4096 * n" using assms(1) by (elim dvdE)
    have "unat f + 8 * i < 2 ^ 64" using n assms(2) unat_below [of f] by simp
    then have "unat (f + of_nat (8 * i)) = 8 * (512 * n + i)"
      using n assms(2) by (subst unat_add_small) (simp_all add: unat_of_nat del: of_nat_mult)
    then show ?thesis by simp
  qed
  from word_memory_load [OF this] show ?thesis
    using assms(2) by (simp add: bt_read_reachable [OF r]) (simp add: mm_tables_def mm_example_def)
qed

lemma paged_entries:
  assumes "f \<in> {0x9000, 0xA000, 0xB000, 0xC000}" and "i < 512"
  shows "bt_read (\<lambda>_. True) paged f i = (if i = 0 then f + 0x1007 else 0)"
proof -
  have u: "unat (f + of_nat (8 * i)) = unat f + 8 * i"
    by (subst unat_add_small) (use assms in \<open>auto simp: unat_of_nat simp del: of_nat_mult\<close>)
  have w: "page_words p = (if unat p = 0x9000 then 0xA007 else if unat p = 0xA000 then 0xB007
      else if unat p = 0xB000 then 0xC007 else if unat p = 0xC000 then 0xD007 else 0)" for p
    by (simp add: page_words_def word_unat_eq_iff)
  have "4096 dvd unat f" using assms(1) by auto
  from paged_read [OF this assms(2)] show ?thesis
    unfolding w u using assms by (elim insertE; simp)
qed

lemma concat_first:
  assumes "0 < n" and "\<And>i. 0 < i \<Longrightarrow> i < n \<Longrightarrow> L i = []"
  shows "concat (map L [0..<n]) = L 0"
proof -
  have "concat (map L [0..<n]) = L 0 @ concat (map L [1..<n])" using assms(1) by (simp add: upt_conv_Cons)
  moreover have "concat (map L [1..<n]) = []" using assms(2) by auto
  ultimately show ?thesis by simp
qed

lemma paged_flags:
  assumes "f \<in> {0x9000, 0xA000, 0xB000, 0xC000}"
  shows "present (f + 0x1007)" "\<not> huge (f + 0x1007)" "(f + 0x1007) AND ADDRESS = f + 0x1000" "(f + 0x1007) AND NOT ADDRESS = 7"
    "entry_allows w (f + 0x1007)" "\<not> bad_frame f" "mapped_page (\<lambda>_. True) paged f"
  using assms
  by (auto simp: present_def huge_def PRESENT_def HUGE_def ADDRESS_def entry_allows_def USER_def WRITABLE_def bad_frame_def
      mapped_page_def reachable_def bt_address_def checked_add_def mm_tables_def)

lemma paged_step:
  assumes "f \<in> {0x9000, 0xA000, 0xB000}"
  shows "tree_frames (boot_ops (\<lambda>_. True)) paged (Suc k) f = tree_frames (boot_ops (\<lambda>_. True)) paged k (f + 0x1000) @ [f]"
    and "walk_path (boot_ops (\<lambda>_. True)) paged (Suc k) f (va_index a) = (if va_index a (Suc k) = 0
      then 7 # walk_path (boot_ops (\<lambda>_. True)) paged k (f + 0x1000) (va_index a) else [0])"
    and "translate_from (\<lambda>_. True) paged (Suc k) f a = (if va_index a (Suc k) = 0
      then translate_from (\<lambda>_. True) paged k (f + 0x1000) a else None)"
    and "f \<notin> set anc \<Longrightarrow> clonable (boot_ops (\<lambda>_. True)) paged k (f + 0x1000) (anc @ [f]) \<Longrightarrow>
      clonable (boot_ops (\<lambda>_. True)) paged (Suc k) f anc"
proof -
  have f: "f \<in> {0x9000, 0xA000, 0xB000, 0xC000}" using assms by auto
  have z: "\<not> present 0" by (simp add: present_def)
  have "concat (map (child_frames (boot_ops (\<lambda>_. True)) paged k f) [0..<512]) = child_frames (boot_ops (\<lambda>_. True)) paged k f 0"
    by (rule concat_first) (simp_all add: child_frames_def paged_entries [OF f] z)
  then show "tree_frames (boot_ops (\<lambda>_. True)) paged (Suc k) f = tree_frames (boot_ops (\<lambda>_. True)) paged k (f + 0x1000) @ [f]"
    by (simp add: tree_frames_Suc child_frames_def paged_entries [OF f] paged_flags [OF f])
  show "walk_path (boot_ops (\<lambda>_. True)) paged (Suc k) f (va_index a) = (if va_index a (Suc k) = 0
      then 7 # walk_path (boot_ops (\<lambda>_. True)) paged k (f + 0x1000) (va_index a) else [0])"
    "translate_from (\<lambda>_. True) paged (Suc k) f a = (if va_index a (Suc k) = 0
      then translate_from (\<lambda>_. True) paged k (f + 0x1000) a else None)"
    by (simp_all add: Let_def paged_entries [OF f] paged_flags [OF f] z)
  show "clonable (boot_ops (\<lambda>_. True)) paged (Suc k) f anc"
    if "f \<notin> set anc" "clonable (boot_ops (\<lambda>_. True)) paged k (f + 0x1000) (anc @ [f])"
    using that unfolding clonable_entries [of _ _ "Suc k"]
    by (simp add: entry_clonable_def paged_entries [OF f] paged_flags [OF f] z)
qed

lemma paged_last:
  "tree_frames (boot_ops (\<lambda>_. True)) paged 0 0xC000 = [0xC000]"
  "walk_path (boot_ops (\<lambda>_. True)) paged 0 0xC000 (va_index a) = [if va_index a 0 = 0 then 0xD007 else 0]"
  "translate_from (\<lambda>_. True) paged 0 0xC000 a = (if va_index a 0 = 0 then Some (0xD000 + take_bit 12 a) else None)"
  using paged_flags(1) [of "0xC000"]
  by (simp_all add: Let_def paged_entries [of "0xC000"] present_def ADDRESS_def)

lemma paged_tables: "tables (\<lambda>_. True) paged 0x9000 = [0xC000, 0xB000, 0xA000, 0x9000]"
  by (simp add: tables_def numeral_3_eq_3 numeral_2_eq_2 paged_step paged_last)

lemma paged_good: "good_tree (\<lambda>_. True) paged 0x9000"
proof -
  have "clonable (boot_ops (\<lambda>_. True)) paged (Suc (Suc (Suc 0))) 0x9000 []"
    by (intro paged_step) (simp_all add: paged_flags)
  then show ?thesis by (simp add: good_tree_def paged_tables paged_flags numeral_3_eq_3 numeral_2_eq_2)
qed

lemma va_index_nat: "va_index a l = unat a div 2 ^ (12 + 9 * l) mod 512"
proof -
  have "(0x1ff :: u64) = mask 9" by (simp add: mask_eq_exp_minus_1)
  then have "va_index a l = unat (take_bit 9 (drop_bit (12 + 9 * l) a))" by (simp add: va_index_def take_bit_eq_mask)
  also have "\<dots> = take_bit 9 (drop_bit (12 + 9 * l) (unat a))" by (simp only: unsigned_take_bit_eq unat_drop_bit_eq)
  finally show ?thesis by (simp add: take_bit_eq_mod drop_bit_eq_div)
qed

lemma low_address:
  assumes "unat a < 2 ^ 39"
  shows "va_index a 2 = 0 \<and> va_index a 1 = 0 \<and> va_index a 0 = 0 \<longleftrightarrow> unat a < 4096" and "va_index a 3 = 0"
proof -
  have "unat a div 2 ^ 30 < 512" using assms by (simp add: div_less_iff_less_mult)
  then have 2: "va_index a 2 = 0 \<longleftrightarrow> unat a < 2 ^ 30" by (simp add: va_index_nat div_eq_0_iff)
  have 1: "va_index a 1 = 0 \<longleftrightarrow> unat a < 2 ^ 21" if "unat a < 2 ^ 30"
  proof -
    have "unat a div 2 ^ 21 < 512" using that by (simp add: div_less_iff_less_mult)
    then show ?thesis by (simp add: va_index_nat div_eq_0_iff)
  qed
  have 0: "va_index a 0 = 0 \<longleftrightarrow> unat a < 2 ^ 12" if "unat a < 2 ^ 21"
  proof -
    have "unat a div 2 ^ 12 < 512" using that by (simp add: div_less_iff_less_mult)
    then show ?thesis by (simp add: va_index_nat div_eq_0_iff)
  qed
  show "va_index a 2 = 0 \<and> va_index a 1 = 0 \<and> va_index a 0 = 0 \<longleftrightarrow> unat a < 4096" using 0 1 2 by auto
  show "va_index a 3 = 0" using assms by (simp add: va_index_nat)
qed

lemma paged_allowed:
  "user_allowed (\<lambda>_. True) paged 0x9000 w a \<longleftrightarrow> va_index a 3 = 0 \<and> va_index a 2 = 0 \<and> va_index a 1 = 0 \<and> va_index a 0 = 0"
  "user_allowed (\<lambda>_. True) paged 0x9000 w a \<Longrightarrow> translate_from (\<lambda>_. True) paged 3 0x9000 a = Some (0xD000 + take_bit 12 a)"
proof -
  have "entry_allows w 7" "entry_allows w 0xD007" "\<not> entry_allows w 0"
    by (simp_all add: entry_allows_def PRESENT_def USER_def WRITABLE_def)
  then show A: "user_allowed (\<lambda>_. True) paged 0x9000 w a \<longleftrightarrow> va_index a 3 = 0 \<and> va_index a 2 = 0 \<and> va_index a 1 = 0 \<and> va_index a 0 = 0"
    by (simp add: user_allowed_def walk_def numeral_3_eq_3 numeral_2_eq_2 paged_step paged_last del: walk_path.simps)
  show "translate_from (\<lambda>_. True) paged 3 0x9000 a = Some (0xD000 + take_bit 12 a)" if "user_allowed (\<lambda>_. True) paged 0x9000 w a"
    using that [unfolded A]
    by (simp add: numeral_3_eq_3 numeral_2_eq_2 paged_step paged_last del: translate_from.simps)
qed


lemma paged_low: "unat x < 2 ^ 39 \<Longrightarrow> user_allowed (\<lambda>_. True) paged 0x9000 w x \<longleftrightarrow> unat x < 4096"
  using low_address [of x] by (auto simp: paged_allowed)

theorem user_range_accessible_correct_witness:
  "user_range_accessible (\<lambda>_. True) cpu_example paged 0x10 0x20 True = Some True \<and>
   user_range_accessible (\<lambda>_. True) cpu_example paged 0xff0 0x11 True = Some False"
proof -
  have g: "good_tree (\<lambda>_. True) paged (cr3_frame cpu_example)" using paged_good by (simp add: cpu_example_def)
  have r: "cr3_frame cpu_example = 0x9000" by (simp add: cpu_example_def)
  have "user_allowed (\<lambda>_. True) paged 0x9000 True x" if "unat x < 48" for x using paged_low [of x True] that by simp
  then have yes: "\<forall>x. 16 \<le> unat x \<and> unat x < 48 \<longrightarrow> user_allowed (\<lambda>_. True) paged 0x9000 True x" by blast
  have "\<not> user_allowed (\<lambda>_. True) paged 0x9000 True 0x1000" using paged_low [of "0x1000" True] by simp
  moreover have "4080 \<le> unat (0x1000 :: u64) \<and> unat (0x1000 :: u64) < 4097" by simp
  ultimately have no: "\<not> (\<forall>x. 4080 \<le> unat x \<and> unat x < 4097 \<longrightarrow> user_allowed (\<lambda>_. True) paged 0x9000 True x)" by blast
  have "user_range_accessible (\<lambda>_. True) cpu_example paged 0x10 0x20 True = Some True"
    using user_range_accessible_correct [OF g, where len = "0x20" and address = "0x10" and writable = True] yes by (simp add: r)
  moreover have "user_range_accessible (\<lambda>_. True) cpu_example paged 0xff0 0x11 True = Some False"
    using user_range_accessible_correct [OF g, where len = "0x11" and address = "0xff0" and writable = True] no by (simp add: r)
  ultimately show ?thesis by blast
qed


end
