(* ===== verification/Spec2Isabelle.thy ===== *)
theory Spec2Isabelle
  imports Physical_Memory Frame_Allocator Kernel_Heap Elf_Loader Psf_Font Generic_Fs_Volume Kernel_Vfs
    Input_Devices Scheduler Initramfs User_Memory
begin

text \<open>
  Verification of the Generic kernel.

  Parts and theories:

  \<^item> \<open>Kernel_Prelude\<close>: results, checked and wrapping machine arithmetic, the state-and-error
  composition that models fallible \<open>&mut self\<close> methods, shared list lemmas. \<open>Byte_Fields\<close>:
  little-endian fields; \<open>Utf8\<close>: the encoding of Rust strings; \<open>BTree_Map\<close>: sorted maps.
  \<^item> \<open>Free_Ranges\<close>, \<open>Block_Pool\<close>: sorted arrays of free ranges and the contract of a block
  allocator, whose lemmas (live blocks never overlap) are proved once in a locale.
  \<^item> \<open>Physical_Memory\<close> (\<open>crates/kernel-core/src/pmm.rs\<close>), \<open>Frame_Allocator\<close>
  (\<open>crates/kernel-core/src/lib.rs\<close>), \<open>Kernel_Heap\<close> (\<open>kernel/src/mm/heap.rs\<close>): the allocators.
  \<^item> \<open>Elf_Loader\<close> (\<open>crates/kernel-core/src/elf.rs\<close>) and \<open>Psf_Font\<close>
  (\<open>crates/kernel-core/src/psf.rs\<close>): the parsers of programs and fonts.
  \<^item> \<open>Vfs_Paths\<close>, \<open>Vfs_Layer\<close>, \<open>Fs_Contract\<close>, \<open>Ram_Fs\<close> (\<open>crates/kernel-core/src/vfs.rs\<close>): path
  names, mounts, the contract of a filesystem, and the memory filesystem that meets it.
  \<^item> \<open>Block_Device\<close> (\<open>crates/kernel-core/src/block.rs\<close>) and \<open>Generic_Fs\<close>,
  \<open>Generic_Fs_Table\<close>, \<open>Generic_Fs_Data\<close>, \<open>Generic_Fs_Write\<close>, \<open>Generic_Fs_Tree\<close>,
  \<open>Generic_Fs_Volume\<close> (\<open>crates/kernel-core/src/genericfs.rs\<close>): the disk filesystem over any
  device that meets the contract of a block device.
  \<^item> \<open>Kernel_Vfs\<close> (\<open>kernel/src/vfs.rs\<close>): the kernel's tree of mounted filesystems.

  \<^item> \<open>Initramfs\<close> (\<open>kernel/src/initramfs.rs\<close>, \<open>kernel/build.rs\<close>): packing and unpacking the initial files.
  \<^item> \<open>Ring_Buffer\<close>, \<open>Input_Devices\<close> (\<open>kernel/src/arch/keyboard.rs\<close>, \<open>mouse.rs\<close>, \<open>input.rs\<close>): event queues
  and their contract, the scancode and mouse decoders, input packets.
  \<^item> \<open>Scheduler\<close> (\<open>kernel/src/task.rs\<close>): the round-robin scheduler and the context switch.

  Not modelled: exhaustion of the heap by growing vectors and strings; output to the log.
\<close>

end
